(* ===== verification/Prelude.thy ===== *)
theory Prelude
  imports Main "HOL-Library.Word" "HOL-Library.Monad_Syntax" "HOL-Library.Multiset"
begin

text \<open>
  What every component shares: the machine integer types of the C sources, the reading of
  C undefined behaviour as \<open>None\<close> in the option monad, the collections of facts the component
  proofs pass to the simplifier, and generic lemmas on lists, options and words.

  Conventions of the whole development:
  \<^item> \<^verbatim>\<open>uint64_t\<close>, \<^verbatim>\<open>uint32_t\<close> and \<^verbatim>\<open>char\<close> are words of 64, 32 and 8 bits; \<^verbatim>\<open>int\<close> is a 32-bit
    word read with \<open>sint\<close> where its value can leave the range of the code's own bounds, and \<open>int\<close>
    or \<open>nat\<close> where the code keeps it small (queue sizes, return codes);
  \<^item> an integer return code is an \<open>int\<close>, as in the code (\<open>0\<close> success, \<open>-1\<close> error);
  \<^item> a function whose body can leave defined C behaviour (a null or out-of-range access)
    returns an option, and \<open>None\<close> is that event, never an ordinary error return;
  \<^item> \<^verbatim>\<open>printf\<close> is not modelled: it changes no state any other function reads.
\<close>

section \<open>Machine types\<close>

type_synonym u64 = "64 word"
type_synonym u32 = "32 word"
type_synonym byte = "8 word"

text \<open>\<open>addr_t\<close> and \<open>arg_t\<close> are 64 bits wide, because \<^verbatim>\<open>os-cfg.h\<close> defines \<^verbatim>\<open>MM64\<close>.\<close>

type_synonym addr_t = u64
type_synonym arg_t = u64

section \<open>Collections of facts\<close>

named_theorems queue_simps \<open>the queue operations seen through their list of processes\<close>
named_theorems mem_simps \<open>loads and stores in byte-addressed storage\<close>
named_theorems pte_simps \<open>page table entry fields\<close>
named_theorems phy_simps \<open>what a physical memory operation leaves unchanged\<close>

section \<open>Lists\<close>

lemma take_Suc_update:
  assumes "n < length xs"
  shows "take (Suc n) (xs[n := x]) = take n xs @ [x]"
  using assms by (simp add: take_Suc_conv_app_nth)

lemma take_update_ge [simp]: "n \<le> i \<Longrightarrow> take n (xs[i := x]) = take n xs"
  by (simp add: take_update_swap list_update_beyond)

lemma nth_list_update_if:
  "i < length xs \<Longrightarrow> xs[j := x] ! i = (if i = j then x else xs ! i)"
  by (auto simp: nth_list_update)

lemma remove1_decomp:
  "x \<in> set xs \<Longrightarrow> \<exists>ys zs. xs = ys @ x # zs \<and> x \<notin> set ys \<and> remove1 x xs = ys @ zs"
proof (induction xs)
  case Nil
  then show ?case by simp
next
  case (Cons y xs)
  show ?case
  proof (cases "x = y")
    case True
    then show ?thesis by (intro exI [of _ "[]"] exI [of _ xs]) simp
  next
    case False
    with Cons obtain ys zs
      where "xs = ys @ x # zs" "x \<notin> set ys" "remove1 x xs = ys @ zs"
      by auto
    with False show ?thesis
      by (intro exI [of _ "y # ys"] exI [of _ zs]) auto
  qed
qed

lemma sum_list_map_update:
  fixes f :: "'a \<Rightarrow> 'b::comm_monoid_add"
  assumes "i < length xs"
  shows "sum_list (map f (xs[i := x])) + f (xs ! i) = sum_list (map f xs) + f x"
  using assms
proof (induction xs arbitrary: i)
  case Nil
  then show ?case by simp
next
  case (Cons y xs)
  show ?case
  proof (cases i)
    case 0
    then show ?thesis by (simp add: ac_simps)
  next
    case (Suc j)
    with Cons.prems have "sum_list (map f (xs[j := x])) + f (xs ! j) = sum_list (map f xs) + f x"
      by (intro Cons.IH) simp
    with Suc show ?thesis by (simp add: ac_simps)
  qed
qed

lemma sum_list_replicate_zero [simp]: "sum_list (replicate n (0::'a::monoid_add)) = 0"
  by (induction n) simp_all

lemma notin_remove1_once: "count (mset xs) x = 1 \<Longrightarrow> x \<notin> set (remove1 x xs)"
  by (metis One_nat_def count_diff count_mset_0_iff count_single diff_self_eq_0 mset_remove1)

section \<open>Options\<close>

lemma bind_eq_Some_iff: "(m \<bind> f = Some y) \<longleftrightarrow> (\<exists>x. m = Some x \<and> f x = Some y)"
  by (cases m) auto

section \<open>Words\<close>

lemma int_pow_bounds: "n < 2 ^ k \<Longrightarrow> - (2 ^ k) \<le> int n \<and> int n < 2 ^ k"
proof -
  assume "n < 2 ^ k"
  then have "int n < 2 ^ k" by (metis of_nat_less_iff of_nat_numeral of_nat_power)
  moreover have "- (2 ^ k) \<le> (0::int)" by simp
  ultimately show ?thesis by linarith
qed

lemma sint_eq_unat:
  assumes "unat (w::u32) < 2 ^ 31"
  shows "sint w = int (unat w)"
proof -
  have "sint w = signed_take_bit 31 (int (unat w))" by (simp add: sint_uint)
  also have "\<dots> = int (unat w)"
    using assms int_pow_bounds [of "unat w" 31] by (intro signed_take_bit_int_eq_self) blast+
  finally show ?thesis .
qed

lemma sint_neg_large:
  assumes "\<not> unat (w::u32) < 2 ^ 31"
  shows "sint w < 0"
proof -
  have "sint w < 2 ^ 31" using sint_lt [of w] by simp
  moreover have "uint w = sint w mod 2 ^ 32"
    using uint_word_of_int [of "sint w", where 'a = 32] by simp
  moreover have "unat w = nat (uint w)" by (rule unat_eq_nat_uint)
  ultimately have "unat w < 2 ^ 31" if "0 \<le> sint w"
    using that by (simp only: mod_pos_pos_trivial) (simp add: nat_less_iff)
  with assms show ?thesis by linarith
qed

lemma unat_ucast_up: "unat (ucast (w::u32) :: u64) = unat w"
proof -
  have "unat w < 2 ^ 32" using unsigned_less [of w] by simp
  then have "take_bit 64 (unat w) = unat w" by (intro take_bit_nat_eq_self) simp
  then show ?thesis by (simp only: unsigned_ucast_eq) simp
qed

end
