(* ===== verification/Queue.thy ===== *)
theory Queue
  imports Prelude
begin

text \<open>
  The process queue of \<^verbatim>\<open>src/src/queue.c\<close>: an array of at most \<open>MAX_QUEUE_SIZE\<close> process
  pointers with a size, filled at the end and emptied at the front by moving every entry down.
  A process pointer is a number, \<open>NULL\<close> is \<open>None\<close>, and a pointer to a queue is
  \<open>queue_t option\<close>. The locale \<open>bounded_fifo\<close> is the contract of such a queue towards the
  scheduler; the array implementation is an instance of it.
\<close>

section \<open>The data\<close>

type_synonym proc_ptr = nat

definition MAX_QUEUE_SIZE :: nat where
  "MAX_QUEUE_SIZE = 50"

record queue_t =
  q_proc :: "proc_ptr option list"
  q_size :: nat

section \<open>The operations\<close>

definition empty :: "queue_t option \<Rightarrow> bool" where
  "empty q = (case q of None \<Rightarrow> True | Some q' \<Rightarrow> q_size q' = 0)"

definition enqueue :: "queue_t option \<Rightarrow> proc_ptr option \<Rightarrow> queue_t option" where
  "enqueue q proc =
     (case q of
        None \<Rightarrow> None
      | Some q' \<Rightarrow>
          if proc = None then Some q'
          else if q_size q' \<ge> MAX_QUEUE_SIZE then Some q'
          else Some (q'\<lparr>q_proc := (q_proc q')[q_size q' := proc], q_size := q_size q' + 1\<rparr>))"

text \<open>
  The loop \<^verbatim>\<open>for (i = i0; i < size - 1; i++) proc[i] = proc[i + 1]\<close> that both \<open>dequeue\<close> and
  \<open>purgequeue\<close> run.
\<close>

function shift_down :: "nat \<Rightarrow> nat \<Rightarrow> 'a list \<Rightarrow> 'a list" where
  "shift_down i n xs = (if i < n - 1 then shift_down (Suc i) n (xs[i := xs ! Suc i]) else xs)"
  by pat_completeness auto
termination
  by (relation "measure (\<lambda>(i, n, xs). n - i)") auto

declare shift_down.simps [simp del]

definition dequeue :: "queue_t option \<Rightarrow> proc_ptr option \<times> queue_t option" where
  "dequeue q =
     (if empty q then (None, q)
      else (case q of
              None \<Rightarrow> (None, None)
            | Some q' \<Rightarrow>
                (q_proc q' ! 0,
                 Some (q'\<lparr>q_proc := shift_down 0 (q_size q') (q_proc q'),
                          q_size := q_size q' - 1\<rparr>))))"

text \<open>The search loop of \<open>purgequeue\<close>: the first index below \<open>size\<close> that holds the pointer.\<close>

function find_proc :: "nat \<Rightarrow> nat \<Rightarrow> 'a option list \<Rightarrow> 'a \<Rightarrow> nat option" where
  "find_proc i n xs p =
     (if i < n then (if xs ! i = Some p then Some i else find_proc (Suc i) n xs p) else None)"
  by pat_completeness auto
termination
  by (relation "measure (\<lambda>(i, n, xs, p). n - i)") auto

declare find_proc.simps [simp del]

definition purgequeue ::
  "queue_t option \<Rightarrow> proc_ptr option \<Rightarrow> proc_ptr option \<times> queue_t option" where
  "purgequeue q proc =
     (if empty q then (None, q)
      else (case (q, proc) of
              (Some q', Some p) \<Rightarrow>
                (case find_proc 0 (q_size q') (q_proc q') p of
                   None \<Rightarrow> (None, q)
                 | Some i \<Rightarrow>
                     (q_proc q' ! i,
                      Some (q'\<lparr>q_proc := (shift_down i (q_size q') (q_proc q'))[q_size q' - 1 := None],
                               q_size := q_size q' - 1\<rparr>)))
            | _ \<Rightarrow> (None, q)))"

section \<open>The queue as a list of processes\<close>

text \<open>
  Well-formed: the array has its declared length, the size is within it, and the slots below
  the size hold no null pointer. The contents are those slots in order.
\<close>

definition queue_inv :: "queue_t \<Rightarrow> bool" where
  "queue_inv q \<longleftrightarrow> length (q_proc q) = MAX_QUEUE_SIZE \<and> q_size q \<le> MAX_QUEUE_SIZE \<and>
     None \<notin> set (take (q_size q) (q_proc q))"

definition queue_list :: "queue_t \<Rightarrow> proc_ptr list" where
  "queue_list q = map the (take (q_size q) (q_proc q))"

definition empty_queue :: queue_t where
  "empty_queue = \<lparr>q_proc = replicate MAX_QUEUE_SIZE None, q_size = 0\<rparr>"

text \<open>
  The operations on a queue that is not null, as the scheduler applies them to its static
  queues.
\<close>

abbreviation enq :: "queue_t \<Rightarrow> proc_ptr \<Rightarrow> queue_t" where
  "enq q p \<equiv> the (enqueue (Some q) (Some p))"

abbreviation deq_val :: "queue_t \<Rightarrow> proc_ptr option" where
  "deq_val q \<equiv> fst (dequeue (Some q))"

abbreviation deq_rest :: "queue_t \<Rightarrow> queue_t" where
  "deq_rest q \<equiv> the (snd (dequeue (Some q)))"

abbreviation purge :: "queue_t \<Rightarrow> proc_ptr \<Rightarrow> queue_t" where
  "purge q p \<equiv> the (snd (purgequeue (Some q) (Some p)))"

section \<open>The shifting and searching loops\<close>

lemma length_shift_down [simp]: "length (shift_down i n xs) = length xs"
proof (induction i n xs rule: shift_down.induct)
  case (1 i n xs)
  then show ?case by (subst shift_down.simps) simp
qed

lemma nth_shift_down:
  assumes "n \<le> length xs" "k < length xs"
  shows "shift_down i n xs ! k = (if i \<le> k \<and> k < n - 1 then xs ! Suc k else xs ! k)"
  using assms
proof (induction i n xs rule: shift_down.induct)
  case (1 i n xs)
  show ?case
  proof (cases "i < n - 1")
    case True
    have "shift_down (Suc i) n (xs[i := xs ! Suc i]) ! k =
        (if Suc i \<le> k \<and> k < n - 1 then xs[i := xs ! Suc i] ! Suc k else xs[i := xs ! Suc i] ! k)"
      using 1 True by simp
    with True "1.prems" show ?thesis
      by (subst shift_down.simps) (auto simp: nth_list_update_if)
  next
    case False
    with "1.prems" show ?thesis by (subst shift_down.simps) auto
  qed
qed

text \<open>What the loop leaves below \<open>n - 1\<close> is the list without its entry at \<open>i\<close>.\<close>

lemma take_shift_down:
  assumes "n \<le> length xs" "i < n"
  shows "take (n - 1) (shift_down i n xs) = take i xs @ drop (Suc i) (take n xs)"
proof (rule nth_equalityI)
  show "length (take (n - 1) (shift_down i n xs)) = length (take i xs @ drop (Suc i) (take n xs))"
    using assms by simp
next
  fix k
  assume "k < length (take (n - 1) (shift_down i n xs))"
  then have "k < n - 1" "k < length xs" using assms by auto
  then show "take (n - 1) (shift_down i n xs) ! k = (take i xs @ drop (Suc i) (take n xs)) ! k"
    using assms by (simp add: nth_shift_down nth_append)
qed

lemma find_proc_Some:
  "find_proc i n xs p = Some k \<Longrightarrow>
     i \<le> k \<and> k < n \<and> xs ! k = Some p \<and> (\<forall>m. i \<le> m \<and> m < k \<longrightarrow> xs ! m \<noteq> Some p)"
proof (induction i n xs p rule: find_proc.induct)
  case (1 i n xs p)
  show ?case
  proof (cases "i < n \<and> xs ! i \<noteq> Some p")
    case True
    with 1 have "Suc i \<le> k \<and> k < n \<and> xs ! k = Some p \<and> (\<forall>m. Suc i \<le> m \<and> m < k \<longrightarrow> xs ! m \<noteq> Some p)"
      by (simp add: find_proc.simps [of i])
    with True show ?thesis
      by (metis Suc_leD Suc_leI le_neq_implies_less)
  next
    case False
    with "1.prems" show ?thesis
      by (subst (asm) find_proc.simps) (auto split: if_splits)
  qed
qed

lemma find_proc_None:
  "find_proc i n xs p = None \<Longrightarrow> i \<le> m \<Longrightarrow> m < n \<Longrightarrow> xs ! m \<noteq> Some p"
proof (induction i n xs p rule: find_proc.induct)
  case (1 i n xs p)
  from "1.prems" have ne: "i < n" "xs ! i \<noteq> Some p"
    by (auto simp: find_proc.simps [of i] split: if_splits)
  with "1.prems" have rec: "find_proc (Suc i) n xs p = None"
    by (simp add: find_proc.simps [of i])
  show ?case
  proof (cases "m = i")
    case True
    with ne show ?thesis by simp
  next
    case False
    with "1.prems" ne rec show ?thesis by (intro "1.IH") auto
  qed
qed

section \<open>The operations through the list\<close>

lemma length_queue_list: "queue_inv q \<Longrightarrow> length (queue_list q) = q_size q"
  by (simp add: queue_inv_def queue_list_def)

lemma queue_list_bound: "queue_inv q \<Longrightarrow> length (queue_list q) \<le> MAX_QUEUE_SIZE"
  by (simp add: length_queue_list) (simp add: queue_inv_def)

lemma q_size_pos_iff: "queue_inv q \<Longrightarrow> 0 < q_size q \<longleftrightarrow> queue_list q \<noteq> []"
  by (metis length_greater_0_conv length_queue_list)

lemma queue_nth_Some:
  assumes "queue_inv q" "i < q_size q"
  shows "q_proc q ! i = Some (queue_list q ! i)"
proof -
  have "q_proc q ! i \<in> set (take (q_size q) (q_proc q))"
    using assms by (force simp: queue_inv_def in_set_conv_nth)
  then have "q_proc q ! i \<noteq> None"
    using assms by (metis queue_inv_def)
  then show ?thesis
    using assms by (auto simp: queue_list_def queue_inv_def)
qed

lemma empty_iff [queue_simps]: "queue_inv q \<Longrightarrow> empty (Some q) \<longleftrightarrow> queue_list q = []"
  by (auto simp: empty_def queue_list_def queue_inv_def MAX_QUEUE_SIZE_def)

lemma queue_inv_empty [simp]: "queue_inv empty_queue"
  by (simp add: queue_inv_def empty_queue_def)

lemma queue_list_empty [simp]: "queue_list empty_queue = []"
  by (simp add: queue_list_def empty_queue_def)

lemma queue_inv_enq [simp]: "queue_inv q \<Longrightarrow> queue_inv (enq q p)"
  by (auto simp: enqueue_def queue_inv_def take_Suc_update)

lemma queue_list_enq [queue_simps]:
  "queue_inv q \<Longrightarrow> queue_list (enq q p) =
     (if length (queue_list q) < MAX_QUEUE_SIZE then queue_list q @ [p] else queue_list q)"
  by (auto simp: enqueue_def queue_inv_def queue_list_def take_Suc_update)

lemma removal_inv_list:
  assumes "queue_inv q" "i < q_size q"
    and "take (q_size q - 1) xs = take (q_size q - 1) (shift_down i (q_size q) (q_proc q))"
    and "length xs = length (q_proc q)"
  shows "queue_inv (q\<lparr>q_proc := xs, q_size := q_size q - 1\<rparr>)"
    and "queue_list (q\<lparr>q_proc := xs, q_size := q_size q - 1\<rparr>) =
           take i (queue_list q) @ drop (Suc i) (queue_list q)"
proof -
  let ?p = "q_proc q" and ?n = "q_size q"
  have n: "?n \<le> length ?p" using assms(1) by (simp add: queue_inv_def)
  have tk: "take (?n - 1) xs = take i ?p @ drop (Suc i) (take ?n ?p)"
    unfolding assms(3) using n assms(2) by (rule take_shift_down)
  have "set (take i ?p) \<subseteq> set (take ?n ?p)"
    using assms(2) by (intro set_take_subset_set_take) simp
  moreover have "set (drop (Suc i) (take ?n ?p)) \<subseteq> set (take ?n ?p)"
    by (rule set_drop_subset)
  ultimately have "None \<notin> set (take (?n - 1) xs)"
    unfolding tk using assms(1) by (auto simp: queue_inv_def)
  then show "queue_inv (q\<lparr>q_proc := xs, q_size := ?n - 1\<rparr>)"
    using assms(1,4) by (auto simp: queue_inv_def)
  show "queue_list (q\<lparr>q_proc := xs, q_size := ?n - 1\<rparr>) =
      take i (queue_list q) @ drop (Suc i) (queue_list q)"
    using assms(2) by (simp add: queue_list_def tk [simplified] take_map drop_map min_def)
qed

lemma dequeue_step:
  assumes "queue_inv q"
  shows "deq_val q = (case queue_list q of [] \<Rightarrow> None | p # _ \<Rightarrow> Some p)"
    and "queue_inv (deq_rest q)"
    and "queue_list (deq_rest q) = tl (queue_list q)"
proof -
  show "deq_val q = (case queue_list q of [] \<Rightarrow> None | p # _ \<Rightarrow> Some p)"
  proof (cases "queue_list q")
    case Nil
    then show ?thesis using assms by (simp add: dequeue_def queue_simps)
  next
    case (Cons p ps)
    with assms have "0 < q_size q" by (simp add: q_size_pos_iff)
    with Cons assms show ?thesis
      by (simp add: dequeue_def queue_simps queue_nth_Some)
  qed
  have ne: "deq_rest q = q\<lparr>q_proc := shift_down 0 (q_size q) (q_proc q), q_size := q_size q - 1\<rparr>"
    and "0 < q_size q" if "queue_list q \<noteq> []"
    using that assms by (auto simp: dequeue_def queue_simps q_size_pos_iff)
  moreover have "deq_rest q = q" if "queue_list q = []"
    using that assms by (simp add: dequeue_def queue_simps)
  ultimately show "queue_inv (deq_rest q)" "queue_list (deq_rest q) = tl (queue_list q)"
    using assms removal_inv_list [OF assms, of 0 "shift_down 0 (q_size q) (q_proc q)"]
    by (cases "queue_list q = []"; simp add: drop_Suc)+
qed

lemmas deq_val_list [queue_simps] = dequeue_step(1)
lemmas queue_inv_deq [simp] = dequeue_step(2)
lemmas queue_list_deq [queue_simps] = dequeue_step(3)

lemma purge_absent:
  assumes "queue_inv q" "p \<notin> set (queue_list q)"
  shows "purgequeue (Some q) (Some p) = (None, Some q)"
proof -
  have "find_proc 0 (q_size q) (q_proc q) p = None"
  proof (rule ccontr)
    assume "find_proc 0 (q_size q) (q_proc q) p \<noteq> None"
    then obtain k where "k < q_size q" "q_proc q ! k = Some p"
      by (auto dest: find_proc_Some)
    with assms show False
      by (metis length_queue_list nth_mem option.inject queue_nth_Some)
  qed
  then show ?thesis by (simp add: purgequeue_def)
qed

lemma purge_present:
  assumes inv: "queue_inv q" and p: "p \<in> set (queue_list q)"
  shows "fst (purgequeue (Some q) (Some p)) = Some p \<and> queue_inv (purge q p) \<and>
     queue_list (purge q p) = remove1 p (queue_list q)"
proof -
  let ?L = "queue_list q"
  from p inv obtain m where m: "m < q_size q" "?L ! m = p"
    by (metis in_set_conv_nth length_queue_list)
  with inv have "find_proc 0 (q_size q) (q_proc q) p \<noteq> None"
    using find_proc_None [of 0 "q_size q" "q_proc q" p m] by (auto simp: queue_nth_Some)
  then obtain i where i: "find_proc 0 (q_size q) (q_proc q) p = Some i" by auto
  from find_proc_Some [OF i] inv have k: "i < q_size q" "?L ! i = p"
    and before: "\<forall>m < i. ?L ! m \<noteq> p"
    by (auto simp: queue_nth_Some)
  let ?xs = "(shift_down i (q_size q) (q_proc q))[q_size q - 1 := None]"
  have res: "purgequeue (Some q) (Some p) =
      (Some p, Some (q\<lparr>q_proc := ?xs, q_size := q_size q - 1\<rparr>))"
    using i k inv by (simp add: purgequeue_def empty_def queue_nth_Some)
  have "take i ?L @ drop (Suc i) ?L = remove1 p ?L"
  proof -
    have "?L = take i ?L @ p # drop (Suc i) ?L"
      using k inv by (metis id_take_nth_drop length_queue_list)
    moreover have "p \<notin> set (take i ?L)"
      using before k inv by (auto simp: in_set_conv_nth length_queue_list)
    ultimately show ?thesis by (metis remove1.simps(2) remove1_append)
  qed
  with res k inv removal_inv_list [of q i ?xs] show ?thesis by simp
qed

lemma queue_inv_purge [simp]: "queue_inv q \<Longrightarrow> queue_inv (purge q p)"
  by (cases "p \<in> set (queue_list q)") (simp_all add: purge_absent purge_present)

lemma queue_list_purge [queue_simps]:
  "queue_inv q \<Longrightarrow> queue_list (purge q p) = remove1 p (queue_list q)"
  by (cases "p \<in> set (queue_list q)") (simp_all add: purge_absent purge_present remove1_idem)

section \<open>The contract of a bounded queue\<close>

text \<open>
  What the scheduler relies on: a queue is a list of at most \<open>cap\<close> elements, entered at the end
  unless it is full, left at the front, and purged of one element in place. \<open>deq_val\<close> and
  \<open>deq_rest\<close> are the two results of a dequeue.
\<close>

locale bounded_fifo =
  fixes cap :: nat
    and invar :: "'q \<Rightarrow> bool"
    and list :: "'q \<Rightarrow> 'a list"
    and is_empty :: "'q \<Rightarrow> bool"
    and enter :: "'q \<Rightarrow> 'a \<Rightarrow> 'q"
    and front :: "'q \<Rightarrow> 'a option"
    and leave :: "'q \<Rightarrow> 'q"
    and remove :: "'q \<Rightarrow> 'a \<Rightarrow> 'q"
  assumes list_bound: "invar q \<Longrightarrow> length (list q) \<le> cap"
    and list_is_empty: "invar q \<Longrightarrow> is_empty q \<longleftrightarrow> list q = []"
    and invar_enter: "invar q \<Longrightarrow> invar (enter q x)"
    and list_enter: "invar q \<Longrightarrow>
          list (enter q x) = (if length (list q) < cap then list q @ [x] else list q)"
    and front_list: "invar q \<Longrightarrow> front q = (case list q of [] \<Rightarrow> None | x # _ \<Rightarrow> Some x)"
    and invar_leave: "invar q \<Longrightarrow> invar (leave q)"
    and list_leave: "invar q \<Longrightarrow> list (leave q) = tl (list q)"
    and invar_remove: "invar q \<Longrightarrow> invar (remove q x)"
    and list_remove: "invar q \<Longrightarrow> list (remove q x) = remove1 x (list q)"
begin

lemma invar_foldl_enter: "invar q \<Longrightarrow> invar (foldl enter q xs)"
  by (induction xs arbitrary: q) (simp_all add: invar_enter)

lemma list_foldl_enter: "invar q \<Longrightarrow> list (foldl enter q xs) = take cap (list q @ xs)"
proof (induction xs arbitrary: q)
  case Nil
  then show ?case by (simp add: list_bound)
next
  case (Cons x xs)
  then have "list (foldl enter q (x # xs)) = take cap (list (enter q x) @ xs)"
    by (simp add: invar_enter)
  also have "\<dots> = take cap (list q @ x # xs)"
  proof (cases "length (list q) < cap")
    case True
    with Cons.prems show ?thesis by (simp add: list_enter)
  next
    case False
    with Cons.prems list_bound [OF Cons.prems] show ?thesis by (simp add: list_enter)
  qed
  finally show ?case .
qed

lemma invar_leaves: "invar q \<Longrightarrow> invar ((leave ^^ n) q)"
  by (induction n) (simp_all add: invar_leave)

lemma list_leaves: "invar q \<Longrightarrow> list ((leave ^^ n) q) = drop n (list q)"
  by (induction n) (simp_all add: list_leave invar_leaves drop_Suc tl_drop)

lemma front_leaves:
  assumes "invar q" "n < length (list q)"
  shows "front ((leave ^^ n) q) = Some (list q ! n)"
proof -
  have "list ((leave ^^ n) q) = list q ! n # drop (Suc n) (list q)"
    using assms by (simp add: list_leaves Cons_nth_drop_Suc)
  then show ?thesis using assms by (simp add: front_list invar_leaves)
qed

lemma mset_enter:
  "invar q \<Longrightarrow> length (list q) < cap \<Longrightarrow> mset (list (enter q x)) = add_mset x (mset (list q))"
  by (simp add: list_enter)

lemma mset_leave:
  "invar q \<Longrightarrow> front q = Some x \<Longrightarrow> add_mset x (mset (list (leave q))) = mset (list q)"
  by (simp add: list_leave front_list split: list.splits)

lemma front_SomeD: "invar q \<Longrightarrow> front q = Some x \<Longrightarrow> list q = x # list (leave q)"
  by (simp add: list_leave front_list split: list.splits)

text \<open>Leaving and entering again at the end turns the list by one.\<close>

lemma list_requeue:
  assumes "invar q" "front q = Some x"
  shows "list (enter (leave q) x) = rotate1 (list q)"
proof -
  from assms have l: "list q = x # list (leave q)" by (rule front_SomeD)
  moreover have "length (list (leave q)) < cap"
    using l list_bound [OF assms(1)] by simp
  ultimately show ?thesis using assms(1) by (simp add: list_enter invar_leave)
qed

end

interpretation pq: bounded_fifo MAX_QUEUE_SIZE queue_inv queue_list "\<lambda>q. empty (Some q)"
  enq deq_val deq_rest purge
  by unfold_locales (simp_all add: queue_simps queue_list_bound)

section \<open>Properties\<close>

text \<open>
  C20 (queue_refines_list): on a well-formed queue the three operations compute on the list of queued
  processes: \<open>enqueue\<close> appends unless 50 processes are queued, \<open>dequeue\<close> returns and removes
  the first one or returns \<open>NULL\<close> and changes nothing, \<open>purgequeue\<close> removes the first
  occurrence of the given process and returns it, or returns \<open>NULL\<close>. All three keep the
  queue well-formed.
\<close>

theorem queue_refines_list:
  assumes "queue_inv q"
  shows "(\<exists>q'. enqueue (Some q) (Some p) = Some q' \<and> queue_inv q' \<and> queue_list q' =
       (if length (queue_list q) < MAX_QUEUE_SIZE then queue_list q @ [p] else queue_list q)) \<and>
    (\<exists>q'. dequeue (Some q) = (case queue_list q of [] \<Rightarrow> None | x # _ \<Rightarrow> Some x, Some q') \<and>
       queue_inv q' \<and> queue_list q' = tl (queue_list q)) \<and>
    (\<exists>q'. purgequeue (Some q) (Some p) =
       (if p \<in> set (queue_list q) then Some p else None, Some q') \<and>
       queue_inv q' \<and> queue_list q' = remove1 p (queue_list q))"
proof (intro conjI)
  have "enqueue (Some q) (Some p) = Some (enq q p)" by (simp add: enqueue_def)
  then show "\<exists>q'. enqueue (Some q) (Some p) = Some q' \<and> queue_inv q' \<and> queue_list q' =
      (if length (queue_list q) < MAX_QUEUE_SIZE then queue_list q @ [p] else queue_list q)"
    using assms pq.invar_enter pq.list_enter by metis
  have "dequeue (Some q) = (deq_val q, Some (deq_rest q))"
    by (simp add: dequeue_def)
  then show "\<exists>q'. dequeue (Some q) = (case queue_list q of [] \<Rightarrow> None | x # _ \<Rightarrow> Some x, Some q') \<and>
      queue_inv q' \<and> queue_list q' = tl (queue_list q)"
    using assms pq.front_list pq.invar_leave pq.list_leave by metis
  have "purgequeue (Some q) (Some p) = (if p \<in> set (queue_list q) then Some p else None, Some (purge q p))"
    using purge_absent [OF assms, of p] purge_present [OF assms, of p]
    by (cases "p \<in> set (queue_list q)")
      (simp_all add: purgequeue_def split: option.splits if_splits)
  then show "\<exists>q'. purgequeue (Some q) (Some p) =
      (if p \<in> set (queue_list q) then Some p else None, Some q') \<and>
      queue_inv q' \<and> queue_list q' = remove1 p (queue_list q)"
    using assms pq.invar_remove pq.list_remove by metis
qed

theorem queue_refines_list_witness:
  "queue_list (enq empty_queue 3) = [3] \<and> dequeue (Some (enq empty_queue 3)) \<noteq> (None, None)"
  using queue_refines_list [OF queue_inv_enq [OF queue_inv_empty], of 3 3]
    queue_refines_list [OF queue_inv_empty, of 3]
  by (auto simp: MAX_QUEUE_SIZE_def)

text \<open>
  Processes entered into an empty queue leave it in the order they came, up to the
  capacity of 50.
\<close>

lemma queue_fifo_order:
  assumes "length ps \<le> MAX_QUEUE_SIZE" "i < length ps"
  shows "deq_val ((deq_rest ^^ i) (foldl enq empty_queue ps)) = Some (ps ! i)"
proof -
  have "queue_list (foldl enq empty_queue ps) = ps"
    using assms(1) by (simp add: pq.list_foldl_enter)
  then show ?thesis
    using assms(2) pq.front_leaves [of "foldl enq empty_queue ps" i]
    by (simp add: pq.invar_foldl_enter)
qed

end
