(* ===== verification/Common.thy ===== *)
theory Common
  imports Queue
begin

text \<open>
  The structures of \<^verbatim>\<open>src/include/common.h\<close> and \<^verbatim>\<open>src/include/os-mm.h\<close>. Linked lists
  (\<^verbatim>\<open>rg_next\<close>, \<^verbatim>\<open>vm_next\<close>, \<^verbatim>\<open>pg_next\<close>, \<^verbatim>\<open>fp_next\<close>) are HOL lists in list order and arrays are
  lists of their declared length. The structure \<^verbatim>\<open>krnl_t\<close> that a process reaches through
  \<^verbatim>\<open>proc->krnl\<close> is a record of what its pointers refer to; the physical memory in it is the
  one device all processes share, and \<open>NULL\<close> is \<open>None\<close>.
\<close>

section \<open>Instructions and code\<close>

datatype ins_opcode_t = CALC | ALLOC | FREE | READ | WRITE | SYSCALL

record inst_t =
  opcode :: ins_opcode_t
  arg_0 :: arg_t
  arg_1 :: arg_t
  arg_2 :: arg_t
  arg_3 :: arg_t

record code_seg_t =
  cs_text :: "inst_t list"
  cs_size :: u32

section \<open>Virtual memory\<close>

record vm_rg_struct =
  rg_start :: addr_t
  rg_end :: addr_t

record vm_area_struct =
  vm_id :: u64
  vm_start :: addr_t
  vm_end :: addr_t
  sbrk :: addr_t
  vm_freerg_list :: "vm_rg_struct list"

definition PAGING_MAX_SYMTBL_SZ :: nat where
  "PAGING_MAX_SYMTBL_SZ = 30"

text \<open>
  The page directory \<open>pgd\<close> is an array of 512 entries on the kernel's heap; the lower levels
  are in physical frames. The arrays \<open>p4d\<close>, \<open>pud\<close>, \<open>pmd\<close>, \<open>pt\<close> are allocated by
  \<^verbatim>\<open>init_mm\<close> and only counted by \<^verbatim>\<open>sys_mmstats\<close>.
\<close>

record mm_struct =
  pgd :: "u64 list"
  p4d :: "u64 list"
  pud :: "u64 list"
  pmd :: "u64 list"
  pt :: "u64 list"
  mmap :: "vm_area_struct list"
  symrgtbl :: "vm_rg_struct list"
  fifo_pgn :: "addr_t list"

section \<open>Physical memory\<close>

text \<open>
  The bytes of a device are a function of the byte offset; \<open>storage_sz\<close> is the number of bytes
  its \<^verbatim>\<open>storage\<close> pointer refers to. The frame lists hold frame numbers.
\<close>

record memphy_struct =
  storage :: "nat \<Rightarrow> byte"
  storage_sz :: nat
  maxsz :: u32
  rdmflg :: u32
  cursor :: u32
  free_fp_list :: "addr_t list"
  used_fp_list :: "addr_t list"

section \<open>The kernel structure and the process control block\<close>

datatype queue_ref = Ready_queue | Running_list | Mlq_ready_queue

record krnl_t =
  k_ready_queue :: "queue_ref option"
  k_running_list :: "queue_ref option"
  k_mlq_ready_queue :: "queue_ref option"
  mm :: "mm_struct option"
  mram :: memphy_struct
  active_mswp :: memphy_struct

record pcb_t =
  pid :: u32
  priority :: u32
  path :: string
  code :: code_seg_t
  regs :: "addr_t list"
  pc :: u32
  prio :: u32
  bp :: u32

end
