(* ===== verification/Sched.thy ===== *)
theory Sched
  imports Common
begin

text \<open>
  The multi-level queue scheduler of \<^verbatim>\<open>src/src/sched.c\<close>, in the configuration
  \<^verbatim>\<open>MLQ_SCHED\<close> the repository builds. Its static variables are the fields of
  \<open>sched_t\<close>. Each function is one atomic step: \<open>get_mlq_proc\<close> holds \<^verbatim>\<open>mlq_lock\<close>,
  \<open>put_mlq_proc\<close> and \<open>add_mlq_proc\<close> hold \<^verbatim>\<open>queue_lock\<close>. The abstract scheduler below maps every
  priority to the list of its ready processes.
\<close>

section \<open>State and operations\<close>

definition MAX_PRIO :: nat where
  "MAX_PRIO = 140"

record sched_t =
  ready_queue :: queue_t
  run_queue :: queue_t
  running_list :: queue_t
  mlq_ready_queue :: "queue_t list"
  slot :: "int list"
  current_prio :: nat
  current_slot :: nat

text \<open>
  The loop over priorities shared by \<open>queue_empty\<close> and \<open>get_mlq_proc\<close>: the first priority
  from \<open>i\<close> whose queue is not empty.
\<close>

function first_ready :: "nat \<Rightarrow> queue_t list \<Rightarrow> nat option" where
  "first_ready i qs =
     (if i < MAX_PRIO then
        (if \<not> empty (Some (qs ! i)) then Some i else first_ready (Suc i) qs)
      else None)"
  by pat_completeness auto
termination
  by (relation "measure (\<lambda>(i, qs). MAX_PRIO - i)") auto

declare first_ready.simps [simp del]

definition queue_empty :: "sched_t \<Rightarrow> int" where
  "queue_empty s =
     (if first_ready 0 (mlq_ready_queue s) \<noteq> None then -1
      else of_bool (empty (Some (ready_queue s)) \<and> empty (Some (run_queue s))))"

definition init_scheduler :: "sched_t \<Rightarrow> sched_t" where
  "init_scheduler s =
     s\<lparr>mlq_ready_queue := map (\<lambda>q. q\<lparr>q_size := 0\<rparr>) (mlq_ready_queue s),
       slot := map (\<lambda>i. int MAX_PRIO - int i) [0..<MAX_PRIO],
       ready_queue := (ready_queue s)\<lparr>q_size := 0\<rparr>,
       run_queue := (run_queue s)\<lparr>q_size := 0\<rparr>,
       running_list := (running_list s)\<lparr>q_size := 0\<rparr>\<rparr>"

definition get_mlq_proc :: "sched_t \<Rightarrow> proc_ptr option \<times> sched_t" where
  "get_mlq_proc s =
     (let (proc, s1) =
        (case first_ready 0 (mlq_ready_queue s) of
           None \<Rightarrow> (None, s)
         | Some pr \<Rightarrow>
             (let (p, q) = dequeue (Some (mlq_ready_queue s ! pr)) in
              (p, s\<lparr>mlq_ready_queue := (mlq_ready_queue s)[pr := the q],
                    current_prio := pr, current_slot := 1\<rparr>)))
      in case proc of
           Some p \<Rightarrow> (proc, s1\<lparr>running_list := the (enqueue (Some (running_list s1)) proc)\<rparr>)
         | None \<Rightarrow> (None, s1\<lparr>current_prio := 0, current_slot := 0\<rparr>))"

text \<open>
  The priority of a process is read from its control block (\<^verbatim>\<open>proc->prio\<close>, unsigned, so the
  test \<^verbatim>\<open>proc->prio >= 0\<close> always holds).
\<close>

definition enqueue_by_prio :: "sched_t \<Rightarrow> proc_ptr \<Rightarrow> u32 \<Rightarrow> sched_t" where
  "enqueue_by_prio s p pr =
     (if unat pr < MAX_PRIO then
        s\<lparr>mlq_ready_queue := (mlq_ready_queue s)
            [unat pr := the (enqueue (Some (mlq_ready_queue s ! unat pr)) (Some p))]\<rparr>
      else s)"

definition put_mlq_proc :: "sched_t \<Rightarrow> proc_ptr option \<Rightarrow> u32 \<Rightarrow> sched_t" where
  "put_mlq_proc s proc pr =
     (case proc of
        None \<Rightarrow> s
      | Some p \<Rightarrow>
          enqueue_by_prio
            (s\<lparr>running_list := the (snd (purgequeue (Some (running_list s)) (Some p)))\<rparr>) p pr)"

definition add_mlq_proc :: "sched_t \<Rightarrow> krnl_t \<Rightarrow> proc_ptr \<Rightarrow> u32 \<Rightarrow> sched_t \<times> krnl_t" where
  "add_mlq_proc s k p pr =
     (enqueue_by_prio s p pr,
      k\<lparr>k_ready_queue := Some Ready_queue, k_mlq_ready_queue := Some Mlq_ready_queue,
        k_running_list := Some Running_list\<rparr>)"

definition get_proc :: "sched_t \<Rightarrow> proc_ptr option \<times> sched_t" where
  "get_proc = get_mlq_proc"

definition put_proc :: "sched_t \<Rightarrow> proc_ptr option \<Rightarrow> u32 \<Rightarrow> sched_t" where
  "put_proc = put_mlq_proc"

definition add_proc :: "sched_t \<Rightarrow> krnl_t \<Rightarrow> proc_ptr \<Rightarrow> u32 \<Rightarrow> sched_t \<times> krnl_t" where
  "add_proc = add_mlq_proc"

text \<open>The static variables as the C program starts: zeroed storage.\<close>

definition zero_sched :: sched_t where
  "zero_sched =
     \<lparr>ready_queue = empty_queue, run_queue = empty_queue, running_list = empty_queue,
      mlq_ready_queue = replicate MAX_PRIO empty_queue, slot = replicate MAX_PRIO 0,
      current_prio = 0, current_slot = 0\<rparr>"

section \<open>Well-formed schedulers and the abstract scheduler\<close>

definition sched_inv :: "sched_t \<Rightarrow> bool" where
  "sched_inv s \<longleftrightarrow> queue_inv (ready_queue s) \<and> queue_inv (run_queue s) \<and>
     queue_inv (running_list s) \<and> length (mlq_ready_queue s) = MAX_PRIO \<and>
     (\<forall>q \<in> set (mlq_ready_queue s). queue_inv q)"

text \<open>
  The specification: ready processes by priority, in order of arrival, and the running ones.
\<close>

record asched =
  a_ready :: "proc_ptr list list"
  a_running :: "proc_ptr list"

definition sched_abs :: "sched_t \<Rightarrow> asched" where
  "sched_abs s = \<lparr>a_ready = map queue_list (mlq_ready_queue s),
                  a_running = queue_list (running_list s)\<rparr>"

definition push_bounded :: "'a list \<Rightarrow> 'a \<Rightarrow> 'a list" where
  "push_bounded xs x = (if length xs < MAX_QUEUE_SIZE then xs @ [x] else xs)"

fun highest :: "'a list list \<Rightarrow> nat option" where
  "highest [] = None"
| "highest (xs # xss) = (if xs \<noteq> [] then Some 0 else map_option Suc (highest xss))"

definition a_get :: "asched \<Rightarrow> proc_ptr option \<times> asched" where
  "a_get a =
     (case highest (a_ready a) of
        None \<Rightarrow> (None, a)
      | Some k \<Rightarrow>
          (Some (hd (a_ready a ! k)),
           \<lparr>a_ready = (a_ready a)[k := tl (a_ready a ! k)],
            a_running = push_bounded (a_running a) (hd (a_ready a ! k))\<rparr>))"

definition a_add :: "asched \<Rightarrow> proc_ptr \<Rightarrow> nat \<Rightarrow> asched" where
  "a_add a p k =
     (if k < MAX_PRIO then a\<lparr>a_ready := (a_ready a)[k := push_bounded (a_ready a ! k) p]\<rparr> else a)"

definition a_put :: "asched \<Rightarrow> proc_ptr \<Rightarrow> nat \<Rightarrow> asched" where
  "a_put a p k = a_add (a\<lparr>a_running := remove1 p (a_running a)\<rparr>) p k"

section \<open>The scan over priorities\<close>

lemma highest_None_iff: "highest xss = None \<longleftrightarrow> (\<forall>xs \<in> set xss. xs = [])"
  by (induction xss) auto

lemma highest_SomeD:
  "highest xss = Some k \<Longrightarrow> k < length xss \<and> xss ! k \<noteq> [] \<and> (\<forall>j < k. xss ! j = [])"
proof (induction xss arbitrary: k)
  case Nil
  then show ?case by simp
next
  case (Cons xs xss)
  then show ?case by (auto simp: nth_Cons split: if_splits nat.splits)
qed

lemma highest_first:
  assumes "k < length xss" "xss ! k \<noteq> []" "\<forall>j < k. xss ! j = []"
  shows "highest xss = Some k"
proof (cases "highest xss")
  case None
  with assms show ?thesis by (metis highest_None_iff nth_mem)
next
  case (Some m)
  then show ?thesis using highest_SomeD [OF Some] assms by (metis linorder_neqE_nat)
qed

lemma first_ready_highest:
  assumes "length qs = MAX_PRIO" "\<forall>q \<in> set qs. queue_inv q" "i \<le> MAX_PRIO"
  shows "first_ready i qs = map_option ((+) i) (highest (drop i (map queue_list qs)))"
  using assms
proof (induction i qs rule: first_ready.induct)
  case (1 i qs)
  show ?case
  proof (cases "i < MAX_PRIO")
    case True
    with 1 have d: "drop i (map queue_list qs) = queue_list (qs ! i) # drop (Suc i) (map queue_list qs)"
      by (simp add: Cons_nth_drop_Suc [symmetric])
    have "queue_inv (qs ! i)" using True 1 by simp
    with True 1 show ?thesis
      by (subst first_ready.simps) (auto simp: d queue_simps option.map_comp comp_def)
  next
    case False
    with 1 show ?thesis by (subst first_ready.simps) simp
  qed
qed

lemma sched_inv_mlq: "sched_inv s \<Longrightarrow> i < MAX_PRIO \<Longrightarrow> queue_inv (mlq_ready_queue s ! i)"
  by (simp add: sched_inv_def)

lemma first_ready_abs:
  "sched_inv s \<Longrightarrow> first_ready 0 (mlq_ready_queue s) = highest (a_ready (sched_abs s))"
  by (cases "highest (map queue_list (mlq_ready_queue s))")
    (simp_all add: sched_inv_def sched_abs_def first_ready_highest)

section \<open>Every operation keeps the invariant\<close>

lemma sched_inv_upd_mlq:
  "sched_inv s \<Longrightarrow> queue_inv q \<Longrightarrow> sched_inv (s\<lparr>mlq_ready_queue := (mlq_ready_queue s)[i := q]\<rparr>)"
  by (auto simp: sched_inv_def dest: set_update_subset_insert [THEN subsetD])

lemma sched_inv_init: "sched_inv s \<Longrightarrow> sched_inv (init_scheduler s)"
  by (auto simp: sched_inv_def init_scheduler_def queue_inv_def)

lemma sched_inv_zero: "sched_inv zero_sched"
  by (simp add: sched_inv_def zero_sched_def)

lemma sched_inv_enqueue_by_prio: "sched_inv s \<Longrightarrow> sched_inv (enqueue_by_prio s p pr)"
  by (simp add: enqueue_by_prio_def sched_inv_upd_mlq sched_inv_mlq)

lemma sched_inv_upd_running:
  "sched_inv s \<Longrightarrow> queue_inv q \<Longrightarrow> sched_inv (s\<lparr>running_list := q\<rparr>)"
  by (simp add: sched_inv_def)

lemma sched_inv_running: "sched_inv s \<Longrightarrow> queue_inv (running_list s)"
  by (simp add: sched_inv_def)

lemma sched_inv_put: "sched_inv s \<Longrightarrow> sched_inv (put_mlq_proc s proc pr)"
  by (cases proc)
    (simp_all add: put_mlq_proc_def sched_inv_enqueue_by_prio sched_inv_upd_running sched_inv_running)

lemma sched_inv_add: "sched_inv s \<Longrightarrow> sched_inv (fst (add_mlq_proc s k p pr))"
  by (simp add: add_mlq_proc_def sched_inv_enqueue_by_prio)

section \<open>The operations refine the abstract scheduler\<close>

lemma length_a_ready: "sched_inv s \<Longrightarrow> length (a_ready (sched_abs s)) = MAX_PRIO"
  by (simp add: sched_inv_def sched_abs_def)

lemma a_ready_nth:
  "sched_inv s \<Longrightarrow> i < MAX_PRIO \<Longrightarrow> a_ready (sched_abs s) ! i = queue_list (mlq_ready_queue s ! i)"
  by (simp add: sched_inv_def sched_abs_def)

lemma get_mlq_proc_cases:
  assumes "sched_inv s"
  obtains (idle) "highest (a_ready (sched_abs s)) = None"
      "get_mlq_proc s = (None, s\<lparr>current_prio := 0, current_slot := 0\<rparr>)"
    | (run) k p where "highest (a_ready (sched_abs s)) = Some k" "k < MAX_PRIO"
      "queue_list (mlq_ready_queue s ! k) = p # queue_list (deq_rest (mlq_ready_queue s ! k))"
      "get_mlq_proc s = (Some p,
         s\<lparr>mlq_ready_queue := (mlq_ready_queue s)[k := deq_rest (mlq_ready_queue s ! k)],
           current_prio := k, current_slot := 1, running_list := enq (running_list s) p\<rparr>)"
proof (cases "highest (a_ready (sched_abs s))")
  case None
  then show ?thesis
    using assms idle by (simp add: get_mlq_proc_def first_ready_abs)
next
  case (Some k)
  from highest_SomeD [OF Some] assms have k: "k < MAX_PRIO" "queue_list (mlq_ready_queue s ! k) \<noteq> []"
    by (auto simp: length_a_ready a_ready_nth)
  then obtain p ps where L: "queue_list (mlq_ready_queue s ! k) = p # ps"
    by (meson neq_Nil_conv)
  have inv: "queue_inv (mlq_ready_queue s ! k)" using assms k by (simp add: sched_inv_mlq)
  show ?thesis
  proof (rule run)
    show "highest (a_ready (sched_abs s)) = Some k" by fact
    show "k < MAX_PRIO" by fact
    show "queue_list (mlq_ready_queue s ! k) = p # queue_list (deq_rest (mlq_ready_queue s ! k))"
      using L inv by (simp add: queue_simps)
    have "deq_val (mlq_ready_queue s ! k) = Some p" using L inv by (simp add: queue_simps)
    then show "get_mlq_proc s = (Some p,
         s\<lparr>mlq_ready_queue := (mlq_ready_queue s)[k := deq_rest (mlq_ready_queue s ! k)],
           current_prio := k, current_slot := 1, running_list := enq (running_list s) p\<rparr>)"
      using Some assms by (simp add: get_mlq_proc_def first_ready_abs case_prod_beta)
  qed
qed

lemma sched_inv_get:
  assumes "sched_inv s"
  shows "sched_inv (snd (get_mlq_proc s))"
  using assms
proof (cases rule: get_mlq_proc_cases)
  case idle
  with assms show ?thesis by (simp add: sched_inv_def)
next
  case (run k p)
  have "sched_inv (s\<lparr>mlq_ready_queue := (mlq_ready_queue s)[k := deq_rest (mlq_ready_queue s ! k)]\<rparr>)"
    using assms run by (intro sched_inv_upd_mlq) (simp_all add: sched_inv_mlq)
  with run show ?thesis by (simp add: sched_inv_def)
qed

lemma sched_abs_get:
  assumes "sched_inv s"
  shows "fst (get_mlq_proc s) = fst (a_get (sched_abs s))"
    and "sched_abs (snd (get_mlq_proc s)) = snd (a_get (sched_abs s))"
proof -
  have run_inv: "queue_inv (running_list s)" using assms by (simp add: sched_inv_def)
  from assms have "fst (get_mlq_proc s) = fst (a_get (sched_abs s)) \<and>
      sched_abs (snd (get_mlq_proc s)) = snd (a_get (sched_abs s))"
  proof (cases rule: get_mlq_proc_cases)
    case idle
    then show ?thesis by (simp add: a_get_def sched_abs_def)
  next
    case (run k p)
    have "a_ready (sched_abs s) ! k = p # queue_list (deq_rest (mlq_ready_queue s ! k))"
      using assms run by (simp add: a_ready_nth)
    with run run_inv show ?thesis
      by (simp add: a_get_def) (simp add: sched_abs_def map_update push_bounded_def queue_simps)
  qed
  then show "fst (get_mlq_proc s) = fst (a_get (sched_abs s))"
    and "sched_abs (snd (get_mlq_proc s)) = snd (a_get (sched_abs s))" by auto
qed

lemma sched_abs_enqueue_by_prio:
  "sched_inv s \<Longrightarrow> sched_abs (enqueue_by_prio s p pr) = a_add (sched_abs s) p (unat pr)"
  by (simp add: enqueue_by_prio_def a_add_def a_ready_nth push_bounded_def)
    (simp add: sched_abs_def map_update queue_simps sched_inv_mlq)

lemma sched_abs_put:
  assumes "sched_inv s"
  shows "sched_abs (put_mlq_proc s (Some p) pr) = a_put (sched_abs s) p (unat pr)"
proof -
  let ?s = "s\<lparr>running_list := purge (running_list s) p\<rparr>"
  have inv: "sched_inv ?s" using assms by (simp add: sched_inv_def)
  have "sched_abs ?s = (sched_abs s)\<lparr>a_running := remove1 p (a_running (sched_abs s))\<rparr>"
    using assms by (simp add: sched_abs_def queue_simps sched_inv_def)
  with inv show ?thesis
    by (simp add: put_mlq_proc_def a_put_def sched_abs_enqueue_by_prio)
qed

section \<open>The contract of the scheduler\<close>

text \<open>
  What a CPU relies on: the three operations act on the ready lists as the abstract scheduler
  says. Everything about the order in which processes run follows from this contract.
\<close>

locale mlq_scheduler =
  fixes invar :: "'s \<Rightarrow> bool"
    and abs :: "'s \<Rightarrow> asched"
    and get :: "'s \<Rightarrow> proc_ptr option \<times> 's"
    and put :: "'s \<Rightarrow> proc_ptr option \<Rightarrow> u32 \<Rightarrow> 's"
  assumes invar_get: "invar s \<Longrightarrow> invar (snd (get s))"
    and invar_put: "invar s \<Longrightarrow> invar (put s po pr)"
    and len_ready: "invar s \<Longrightarrow> length (a_ready (abs s)) = MAX_PRIO"
    and bound_ready: "invar s \<Longrightarrow> xs \<in> set (a_ready (abs s)) \<Longrightarrow> length xs \<le> MAX_QUEUE_SIZE"
    and abs_get: "invar s \<Longrightarrow> fst (get s) = fst (a_get (abs s))"
      "invar s \<Longrightarrow> abs (snd (get s)) = snd (a_get (abs s))"
    and abs_put: "invar s \<Longrightarrow> abs (put s (Some p) pr) = a_put (abs s) p (unat pr)"
begin

lemma get_idle_iff: "invar s \<Longrightarrow> fst (get s) = None \<longleftrightarrow> (\<forall>xs \<in> set (a_ready (abs s)). xs = [])"
  by (auto simp: abs_get a_get_def highest_None_iff [symmetric] split: option.splits)

lemma get_run:
  assumes "invar s" "highest (a_ready (abs s)) = Some k" "a_ready (abs s) ! k = p # ps"
  shows "fst (get s) = Some p"
    and "abs (snd (get s)) = \<lparr>a_ready = (a_ready (abs s))[k := ps],
           a_running = push_bounded (a_running (abs s)) p\<rparr>"
  using assms by (simp_all add: abs_get a_get_def)

text \<open>A slice: the process at the front of the highest ready queue runs and is put back.\<close>

lemma slice:
  assumes inv: "invar s" and hi: "highest (a_ready (abs s)) = Some k"
    and k: "a_ready (abs s) ! k = p # ps" and pr: "unat pr = k"
    and room: "length (a_running (abs s)) < MAX_QUEUE_SIZE" and new: "p \<notin> set (a_running (abs s))"
  shows "abs (put (snd (get s)) (Some p) pr) =
    (abs s)\<lparr>a_ready := (a_ready (abs s))[k := ps @ [p]]\<rparr>"
proof -
  have lt: "k < MAX_PRIO" using highest_SomeD [OF hi] inv by (simp add: len_ready)
  have "p # ps \<in> set (a_ready (abs s))"
    using lt inv k by (metis len_ready nth_mem)
  then have "length ps < MAX_QUEUE_SIZE" using bound_ready [OF inv] by fastforce
  moreover have "remove1 p (a_running (abs s) @ [p]) = a_running (abs s)"
    using new by (simp add: remove1_append)
  ultimately show ?thesis
    using assms lt
    by (simp add: abs_put invar_get get_run a_put_def a_add_def push_bounded_def len_ready)
qed

end

lemma a_ready_bound:
  "sched_inv s \<Longrightarrow> xs \<in> set (a_ready (sched_abs s)) \<Longrightarrow> length xs \<le> MAX_QUEUE_SIZE"
  by (auto simp: sched_inv_def sched_abs_def queue_list_bound)

interpretation mlq: mlq_scheduler sched_inv sched_abs get_proc put_proc
  by unfold_locales
    (simp_all add: get_proc_def put_proc_def sched_inv_get sched_inv_put length_a_ready
      a_ready_bound sched_abs_get sched_abs_put)

section \<open>Time slices\<close>

text \<open>
  What one CPU does with the scheduler between two dispatches of processes that do not finish
  (\<^verbatim>\<open>cpu_routine\<close>): \<open>get_proc\<close>, and \<open>put_proc\<close> of the same process when its time is up.
  \<open>pr\<close> gives the priority in each control block.
\<close>

definition slice :: "(proc_ptr \<Rightarrow> u32) \<Rightarrow> sched_t \<Rightarrow> sched_t" where
  "slice pr s =
     (case get_proc s of
        (None, s') \<Rightarrow> s'
      | (Some p, s') \<Rightarrow> put_proc s' (Some p) (pr p))"

lemma sched_inv_slice: "sched_inv s \<Longrightarrow> sched_inv (slice pr s)"
  using mlq.invar_get [of s] mlq.invar_put
  by (auto simp: slice_def split: prod.splits option.splits)

lemma sched_inv_slices: "sched_inv s \<Longrightarrow> sched_inv ((slice pr ^^ i) s)"
  by (induction i) (simp_all add: sched_inv_slice)

lemma slice_abs:
  assumes "sched_inv s" "highest (a_ready (sched_abs s)) = Some k"
    and "a_ready (sched_abs s) ! k = p # ps" "unat (pr p) = k"
    and "length (a_running (sched_abs s)) < MAX_QUEUE_SIZE" "p \<notin> set (a_running (sched_abs s))"
  shows "sched_abs (slice pr s) = (sched_abs s)\<lparr>a_ready := (a_ready (sched_abs s))[k := ps @ [p]]\<rparr>"
  using mlq.get_run(1) [OF assms(1-3)] mlq.slice [OF assms(1-3) assms(4-6)]
  by (simp add: slice_def case_prod_beta)

lemma slices_abs:
  assumes inv: "sched_inv s" and hi: "highest (a_ready (sched_abs s)) = Some k"
    and L: "a_ready (sched_abs s) ! k = L"
    and pr: "\<forall>p \<in> set L. unat (pr p) = k"
    and room: "length (a_running (sched_abs s)) < MAX_QUEUE_SIZE"
    and new: "set L \<inter> set (a_running (sched_abs s)) = {}"
  shows "sched_abs ((slice pr ^^ i) s) =
    (sched_abs s)\<lparr>a_ready := (a_ready (sched_abs s))[k := rotate i L]\<rparr>"
proof (induction i)
  case 0
  show ?case by (cases "sched_abs s") (simp flip: L)
next
  case (Suc i)
  let ?s = "(slice pr ^^ i) s"
  have k: "k < MAX_PRIO" "k < length (a_ready (sched_abs s))" "L \<noteq> []"
    and below: "\<forall>j < k. a_ready (sched_abs s) ! j = []"
    using highest_SomeD [OF hi] L inv by (auto simp: length_a_ready)
  obtain p ps where rot: "rotate i L = p # ps"
    using k(3) by (metis neq_Nil_conv rotate_is_Nil_conv)
  then have "p \<in> set L" by (metis list.set_intros(1) set_rotate)
  moreover have "highest (a_ready (sched_abs ?s)) = Some k"
    using Suc k below by (intro highest_first) (simp_all add: rot)
  moreover have "a_ready (sched_abs ?s) ! k = p # ps" using Suc k by (simp add: rot)
  ultimately have "sched_abs (slice pr ?s) =
      (sched_abs ?s)\<lparr>a_ready := (a_ready (sched_abs ?s))[k := ps @ [p]]\<rparr>"
    using inv pr room new Suc by (intro slice_abs) (auto simp: sched_inv_slices)
  moreover have "ps @ [p] = rotate (Suc i) L" by (simp add: rot)
  ultimately show ?case using Suc by simp
qed

section \<open>Properties\<close>

text \<open>
  When \<open>get_proc\<close> hands out a process, it is the one at the front of the
  ready queue of some priority below which every ready queue is empty; it leaves that queue,
  no other ready queue changes, and it is entered at the end of the running list.
\<close>

theorem get_proc_strict_priority:
  assumes "sched_inv s" "get_proc s = (Some p, s')"
  shows "\<exists>k < MAX_PRIO.
    queue_list (mlq_ready_queue s ! k) = p # queue_list (mlq_ready_queue s' ! k) \<and>
    (\<forall>j < k. queue_list (mlq_ready_queue s ! j) = []) \<and>
    (\<forall>j < MAX_PRIO. j \<noteq> k \<longrightarrow> mlq_ready_queue s' ! j = mlq_ready_queue s ! j) \<and>
    queue_list (running_list s') = push_bounded (queue_list (running_list s)) p \<and>
    current_prio s' = k"
  using assms(1)
proof (cases rule: get_mlq_proc_cases)
  case idle
  with assms(2) show ?thesis by (simp add: get_proc_def)
next
  case (run k q)
  have "\<forall>j < k. queue_list (mlq_ready_queue s ! j) = []"
    using highest_SomeD [OF run(1)] assms(1) run(2) by (auto simp: a_ready_nth)
  moreover have "length (mlq_ready_queue s) = MAX_PRIO" using assms(1) by (simp add: sched_inv_def)
  ultimately show ?thesis
    using run assms sched_inv_running [OF assms(1)]
    by (intro exI [of _ k]) (auto simp: get_proc_def queue_simps push_bounded_def)
qed

definition two_prio_sched :: sched_t where
  "two_prio_sched = enqueue_by_prio (enqueue_by_prio (enqueue_by_prio zero_sched 7 3) 5 2) 6 2"

lemma two_prio_sched_inv: "sched_inv two_prio_sched"
  by (simp add: two_prio_sched_def sched_inv_enqueue_by_prio sched_inv_zero)

lemma two_prio_sched_abs:
  "sched_abs two_prio_sched =
     \<lparr>a_ready = (replicate MAX_PRIO [])[3 := [7], 2 := [5, 6]], a_running = []\<rparr>"
  unfolding two_prio_sched_def
  by (simp add: sched_abs_enqueue_by_prio sched_inv_enqueue_by_prio sched_inv_zero)
    (simp add: a_add_def sched_abs_def zero_sched_def push_bounded_def MAX_PRIO_def
      MAX_QUEUE_SIZE_def map_replicate_const)

lemma two_prio_sched_highest: "highest (a_ready (sched_abs two_prio_sched)) = Some 2"
  by (rule highest_first) (simp_all add: two_prio_sched_abs MAX_PRIO_def nth_list_update)

lemma two_prio_sched_get: "fst (get_proc two_prio_sched) = Some 5"
  using mlq.get_run(1) [OF two_prio_sched_inv two_prio_sched_highest]
  by (simp add: two_prio_sched_abs MAX_PRIO_def)

theorem get_proc_strict_priority_witness:
  "\<exists>k < MAX_PRIO. \<exists>s'. get_proc two_prio_sched = (Some 5, s') \<and>
     queue_list (mlq_ready_queue two_prio_sched ! k) = 5 # queue_list (mlq_ready_queue s' ! k)"
proof -
  obtain s' where s': "get_proc two_prio_sched = (Some 5, s')"
    using two_prio_sched_get by (metis prod.collapse)
  from get_proc_strict_priority [OF two_prio_sched_inv s'] s' show ?thesis by blast
qed

text \<open>
  C17 (scheduler_refines_mlq): \<open>get_proc\<close>, \<open>put_proc\<close> and \<open>add_proc\<close> implement the abstract multi-level queue: seen
  through the lists of ready and running processes they compute \<open>a_get\<close>, \<open>a_put\<close> and \<open>a_add\<close>,
  and they keep the scheduler well-formed.
\<close>

theorem scheduler_refines_mlq:
  assumes "sched_inv s"
  shows "fst (get_proc s) = fst (a_get (sched_abs s)) \<and>
    sched_abs (snd (get_proc s)) = snd (a_get (sched_abs s)) \<and>
    sched_abs (put_proc s (Some p) pr) = a_put (sched_abs s) p (unat pr) \<and>
    sched_abs (fst (add_proc s k p pr)) = a_add (sched_abs s) p (unat pr) \<and>
    sched_inv (snd (get_proc s)) \<and> sched_inv (put_proc s (Some p) pr) \<and>
    sched_inv (fst (add_proc s k p pr))"
  using assms mlq.abs_get [of s] mlq.abs_put [of s p pr] mlq.invar_get [of s] mlq.invar_put [of s]
  by (simp add: add_proc_def sched_inv_add) (simp add: add_mlq_proc_def sched_abs_enqueue_by_prio)

theorem scheduler_refines_mlq_witness:
  "sched_inv two_prio_sched \<and>
   sched_abs (put_proc two_prio_sched (Some 9) 2) = a_put (sched_abs two_prio_sched) 9 2"
  using scheduler_refines_mlq [OF two_prio_sched_inv, of 9 2] two_prio_sched_inv by simp

text \<open>
  C19 (same_priority_round_robin): while no process arrives or finishes, the processes of the highest
  ready priority run in turn: the \<open>i\<close>-th time slice goes to the process at position \<open>i mod n\<close>
  of that queue. In particular a process of any other priority never runs in that time.
\<close>

theorem same_priority_round_robin:
  assumes "sched_inv s" "k < MAX_PRIO"
    and "queue_list (mlq_ready_queue s ! k) = L" "L \<noteq> []"
    and "\<forall>j < k. queue_list (mlq_ready_queue s ! j) = []"
    and "\<forall>p \<in> set L. unat (pr p) = k"
    and "length (queue_list (running_list s)) < MAX_QUEUE_SIZE"
    and "set L \<inter> set (queue_list (running_list s)) = {}"
  shows "fst (get_proc ((slice pr ^^ i) s)) = Some (L ! (i mod length L))"
proof -
  have nth: "a_ready (sched_abs s) ! k = L" using assms(1-3) by (simp add: a_ready_nth)
  have hi: "highest (a_ready (sched_abs s)) = Some k"
    using assms nth by (intro highest_first) (simp_all add: length_a_ready a_ready_nth)
  have run: "a_running (sched_abs s) = queue_list (running_list s)" by (simp add: sched_abs_def)
  let ?s = "(slice pr ^^ i) s"
  have abs: "a_ready (sched_abs ?s) = (a_ready (sched_abs s))[k := rotate i L]"
    using slices_abs [OF assms(1) hi nth] assms(6-8) run by simp
  obtain p ps where rot: "rotate i L = p # ps"
    using assms(4) by (metis neq_Nil_conv rotate_is_Nil_conv)
  have "highest (a_ready (sched_abs ?s)) = Some k"
    unfolding abs using assms rot
    by (intro highest_first) (simp_all add: length_a_ready a_ready_nth)
  moreover have "a_ready (sched_abs ?s) ! k = p # ps"
    using assms rot by (simp add: abs length_a_ready)
  ultimately have "fst (get_proc ?s) = Some p"
    using assms(1) by (intro mlq.get_run) (simp_all add: sched_inv_slices)
  moreover have "p = L ! (i mod length L)"
    using rot assms(4) by (metis hd_rotate_conv_nth list.sel(1))
  ultimately show ?thesis by simp
qed

theorem same_priority_round_robin_witness:
  "fst (get_proc ((slice (\<lambda>p. if p = 7 then 3 else 2) ^^ 7) two_prio_sched)) = Some 6"
proof -
  have "queue_list (mlq_ready_queue two_prio_sched ! j) =
      (if j = 3 then [7] else if j = 2 then [5, 6] else [])" if "j < MAX_PRIO" for j
    using that a_ready_nth [OF two_prio_sched_inv that]
    by (auto simp: two_prio_sched_abs nth_list_update MAX_PRIO_def)
  moreover have "queue_list (running_list two_prio_sched) = []"
    using two_prio_sched_abs by (simp add: sched_abs_def)
  ultimately show ?thesis
    using same_priority_round_robin [OF two_prio_sched_inv, of 2 "[5, 6]" "\<lambda>p. if p = 7 then 3 else 2" 7]
    by (simp add: MAX_PRIO_def MAX_QUEUE_SIZE_def flip: numeral_2_eq_2)
qed

definition sched_procs :: "sched_t \<Rightarrow> proc_ptr multiset" where
  "sched_procs s =
     sum_list (map (\<lambda>q. mset (queue_list q)) (mlq_ready_queue s)) + mset (queue_list (running_list s))"

lemma sum_mset_update:
  assumes "i < length xs" "f (xs ! i) = add_mset p (f x)"
  shows "sum_list (map f xs) = add_mset p (sum_list (map f (xs[i := x])))"
  using sum_list_map_update [OF assms(1), of f x] assms(2) by simp

text \<open>
  C21 (scheduler_conserves_processes): no process is lost or duplicated by a dispatch or a return, as long as
  the queue that receives it has room and the process returned is a running one with a valid priority.
\<close>

theorem scheduler_conserves_processes:
  assumes "sched_inv s"
  shows "(length (queue_list (running_list s)) < MAX_QUEUE_SIZE \<longrightarrow>
       sched_procs (snd (get_proc s)) = sched_procs s) \<and>
    (p \<in> set (queue_list (running_list s)) \<and> unat pr < MAX_PRIO \<and>
       length (queue_list (mlq_ready_queue s ! unat pr)) < MAX_QUEUE_SIZE \<longrightarrow>
       sched_procs (put_proc s (Some p) pr) = sched_procs s)"
proof (intro conjI impI)
  assume room: "length (queue_list (running_list s)) < MAX_QUEUE_SIZE"
  have len: "length (mlq_ready_queue s) = MAX_PRIO" using assms by (simp add: sched_inv_def)
  from assms show "sched_procs (snd (get_proc s)) = sched_procs s"
  proof (cases rule: get_mlq_proc_cases)
    case idle
    then show ?thesis by (simp add: get_proc_def sched_procs_def)
  next
    case (run k q)
    then show ?thesis
      using sum_mset_update [of k "mlq_ready_queue s" "\<lambda>q. mset (queue_list q)" q
          "deq_rest (mlq_ready_queue s ! k)"] room len sched_inv_running [OF assms]
      by (simp add: get_proc_def sched_procs_def queue_simps)
  qed
next
  assume p: "p \<in> set (queue_list (running_list s)) \<and> unat pr < MAX_PRIO \<and>
    length (queue_list (mlq_ready_queue s ! unat pr)) < MAX_QUEUE_SIZE"
  let ?q = "mlq_ready_queue s ! unat pr"
  have inv: "queue_inv ?q" "length (mlq_ready_queue s) = MAX_PRIO"
    using assms p by (simp_all add: sched_inv_mlq) (simp add: sched_inv_def)
  have "sum_list (map (\<lambda>q. mset (queue_list q)) ((mlq_ready_queue s)[unat pr := enq ?q p])) =
      add_mset p (sum_list (map (\<lambda>q. mset (queue_list q)) (mlq_ready_queue s)))"
    using sum_list_map_update [of "unat pr" "mlq_ready_queue s" "\<lambda>q. mset (queue_list q)" "enq ?q p"]
      p inv by (simp add: queue_simps)
  then show "sched_procs (put_proc s (Some p) pr) = sched_procs s"
    using p sched_inv_running [OF assms]
    by (simp add: put_proc_def put_mlq_proc_def enqueue_by_prio_def sched_procs_def queue_simps)
qed

theorem scheduler_conserves_processes_witness:
  "sched_procs (snd (get_proc two_prio_sched)) = sched_procs two_prio_sched"
proof -
  have "queue_list (running_list two_prio_sched) = []"
    using two_prio_sched_abs by (simp add: sched_abs_def)
  then show ?thesis
    using scheduler_conserves_processes [OF two_prio_sched_inv]
    by (simp add: MAX_QUEUE_SIZE_def)
qed

text \<open>
  C31 (put_to_full_queue_loses): a process put back when the ready queue of its priority is full
  leaves the running list and enters no queue: it is in no list of the scheduler any more.
\<close>

theorem put_to_full_queue_loses:
  assumes "sched_inv s" "unat pr < MAX_PRIO"
    and "length (queue_list (mlq_ready_queue s ! unat pr)) = MAX_QUEUE_SIZE"
    and "count (sched_procs s) p = 1" "p \<in> set (queue_list (running_list s))"
  shows "count (sched_procs (put_proc s (Some p) pr)) p = 0"
proof -
  let ?q = "mlq_ready_queue s ! unat pr"
  have "queue_inv ?q" using assms(1,2) by (simp add: sched_inv_mlq)
  with assms(3) have full: "enq ?q p = ?q"
    by (auto simp: enqueue_def length_queue_list)
  let ?r = "queue_list (running_list s)"
  have "0 < count (mset ?r) p" using assms(5) by (simp only: count_mset_gt_0)
  then have "count (mset ?r) p = 1"
    and "count (sum_list (map (\<lambda>q. mset (queue_list q)) (mlq_ready_queue s))) p = 0"
    using assms(4) unfolding sched_procs_def count_union by linarith+
  then show ?thesis
    using full sched_inv_running [OF assms(1)] notin_remove1_once [of ?r p]
    by (simp add: put_proc_def put_mlq_proc_def enqueue_by_prio_def sched_procs_def queue_simps)
qed

definition full_prio_sched :: sched_t where
  "full_prio_sched =
     zero_sched\<lparr>mlq_ready_queue := (replicate MAX_PRIO empty_queue)[2 := foldl enq empty_queue [100..<150]],
                running_list := enq empty_queue 5\<rparr>"

lemma full_prio_sched_facts:
  "sched_inv full_prio_sched" "queue_list (running_list full_prio_sched) = [5]"
  "queue_list (mlq_ready_queue full_prio_sched ! 2) = [100..<150]"
  "sched_procs full_prio_sched = add_mset 5 (mset [100..<150])"
proof -
  let ?q = "foldl enq empty_queue [100..<150]"
  have inv: "queue_inv ?q" and list: "queue_list ?q = [100..<150]"
    by (simp_all add: pq.invar_foldl_enter pq.list_foldl_enter MAX_QUEUE_SIZE_def del: upt.simps upt_rec_numeral)
  show "sched_inv full_prio_sched"
    using inv by (auto simp: sched_inv_def full_prio_sched_def zero_sched_def
        dest!: set_update_subset_insert [THEN subsetD] simp del: upt.simps upt_rec_numeral foldl_Cons)
  show r: "queue_list (running_list full_prio_sched) = [5]"
    by (simp add: full_prio_sched_def queue_simps MAX_QUEUE_SIZE_def del: upt_rec_numeral)
  show "queue_list (mlq_ready_queue full_prio_sched ! 2) = [100..<150]"
    using list by (simp add: full_prio_sched_def MAX_PRIO_def del: upt_rec_numeral)
  have "sum_list (map (\<lambda>q. mset (queue_list q)) (mlq_ready_queue full_prio_sched)) = mset [100..<150]"
    using sum_list_map_update [of 2 "replicate MAX_PRIO empty_queue" "\<lambda>q. mset (queue_list q)" ?q] list
    by (simp add: full_prio_sched_def MAX_PRIO_def flip: zero_multiset_def del: upt_rec_numeral)
  with r show "sched_procs full_prio_sched = add_mset 5 (mset [100..<150])"
    by (simp add: sched_procs_def del: upt_rec_numeral)
qed

theorem put_to_full_queue_loses_witness:
  "count (sched_procs full_prio_sched) 5 = 1 \<and>
   count (sched_procs (put_proc full_prio_sched (Some 5) 2)) 5 = 0"
proof -
  have "count (mset [100..<150]) 5 = 0" by (simp only: count_mset_0_iff) simp
  then have one: "count (sched_procs full_prio_sched) 5 = 1"
    by (simp add: full_prio_sched_facts del: upt_rec_numeral)
  with put_to_full_queue_loses [of full_prio_sched 2 5] show ?thesis
    by (simp add: full_prio_sched_facts MAX_PRIO_def MAX_QUEUE_SIZE_def del: upt_rec_numeral)
qed

text \<open>
  Which process is dispatched does not depend on the slot table or on the
  current priority and slot: the slots computed by \<open>init_scheduler\<close> never limit how long a
  priority keeps the CPU.
\<close>

theorem dispatch_ignores_slots:
  "fst (get_proc (s\<lparr>slot := sl, current_prio := cp, current_slot := cs\<rparr>)) = fst (get_proc s) \<and>
   mlq_ready_queue (snd (get_proc (s\<lparr>slot := sl, current_prio := cp, current_slot := cs\<rparr>))) =
     mlq_ready_queue (snd (get_proc s))"
  by (auto simp: get_proc_def get_mlq_proc_def Let_def split: option.splits prod.splits)

end
