(* ===== verification/Bitops.thy ===== *)
theory Bitops
  imports Prelude
begin

unbundle bit_operations_syntax

text \<open>
  The macros of \<^verbatim>\<open>src/include/bitops.h\<close>, \<^verbatim>\<open>src/include/mm.h\<close> and \<^verbatim>\<open>src/include/mm64.h\<close>
  that build masks, page table entries and page directory indices, at the widths the C
  expressions have: \<^verbatim>\<open>BITS_PER_LONG\<close> is 32, so the masks of \<^verbatim>\<open>mm.h\<close> are 32-bit unsigned
  values, and a complemented mask is extended with zeros when it meets a 64-bit entry.
\<close>

section \<open>Masks\<close>

definition BITS_PER_LONG :: nat where
  "BITS_PER_LONG = 32"

definition BIT :: "nat \<Rightarrow> u32" where
  "BIT nr = push_bit nr 1"

definition BIT_ULL :: "nat \<Rightarrow> u64" where
  "BIT_ULL nr = push_bit nr 1"

definition GENMASK :: "nat \<Rightarrow> nat \<Rightarrow> u32" where
  "GENMASK h l = push_bit l (NOT 0) AND drop_bit (BITS_PER_LONG - h - 1) (NOT 0)"

definition GENMASK64 :: "nat \<Rightarrow> nat \<Rightarrow> u64" where
  "GENMASK64 h l = push_bit l (NOT 0) AND drop_bit (64 - h - 1) (NOT 0)"

definition NBITS2 :: "u32 \<Rightarrow> nat" where
  "NBITS2 n = (if n AND 2 \<noteq> 0 then 1 else 0)"

definition NBITS4 :: "u32 \<Rightarrow> nat" where
  "NBITS4 n = (if n AND 0xC \<noteq> 0 then 2 + NBITS2 (drop_bit 2 n) else NBITS2 n)"

definition NBITS8 :: "u32 \<Rightarrow> nat" where
  "NBITS8 n = (if n AND 0xF0 \<noteq> 0 then 4 + NBITS4 (drop_bit 4 n) else NBITS4 n)"

definition NBITS16 :: "u32 \<Rightarrow> nat" where
  "NBITS16 n = (if n AND 0xFF00 \<noteq> 0 then 8 + NBITS8 (drop_bit 8 n) else NBITS8 n)"

definition NBITS32 :: "u32 \<Rightarrow> nat" where
  "NBITS32 n = (if n AND 0xFFFF0000 \<noteq> 0 then 16 + NBITS16 (drop_bit 16 n) else NBITS16 n)"

definition NBITS :: "u32 \<Rightarrow> nat" where
  "NBITS n = (if n = 0 then 0 else NBITS32 n)"

definition DIV_ROUND_UP :: "'a::len word \<Rightarrow> 'a word \<Rightarrow> 'a word" where
  "DIV_ROUND_UP n d = (n + d - 1) div d"

section \<open>Values in an entry\<close>

definition SETBIT :: "u64 \<Rightarrow> u32 \<Rightarrow> u64" where
  "SETBIT v m = v OR ucast m"

definition CLRBIT :: "u64 \<Rightarrow> u32 \<Rightarrow> u64" where
  "CLRBIT v m = v AND ucast (NOT m)"

definition SETVAL :: "u64 \<Rightarrow> u64 \<Rightarrow> u32 \<Rightarrow> nat \<Rightarrow> u64" where
  "SETVAL v val m off = (v AND ucast (NOT m)) OR (push_bit off val AND ucast m)"

definition GETVAL :: "u64 \<Rightarrow> u32 \<Rightarrow> nat \<Rightarrow> u64" where
  "GETVAL v m off = drop_bit off (v AND ucast m)"

section \<open>The layout of an entry and of an address\<close>

definition PAGING_PAGESZ :: nat where
  "PAGING_PAGESZ = 4096"

definition PAGING_CPU_BUS_WIDTH :: nat where
  "PAGING_CPU_BUS_WIDTH = 22"

definition PAGING_PTE_PRESENT_MASK :: u32 where
  "PAGING_PTE_PRESENT_MASK = BIT 31"

definition PAGING_PTE_SWAPPED_MASK :: u32 where
  "PAGING_PTE_SWAPPED_MASK = BIT 30"

definition PAGING_PTE_DIRTY_MASK :: u32 where
  "PAGING_PTE_DIRTY_MASK = BIT 28"

definition PAGING_PTE_FPN_MASK :: u32 where
  "PAGING_PTE_FPN_MASK = GENMASK 12 0"

definition PAGING_PTE_SWPTYP_MASK :: u32 where
  "PAGING_PTE_SWPTYP_MASK = GENMASK 4 0"

definition PAGING_PTE_SWPOFF_MASK :: u32 where
  "PAGING_PTE_SWPOFF_MASK = GENMASK 25 5"

definition PAGING_PTE_PRESENT :: "u64 \<Rightarrow> bool" where
  "PAGING_PTE_PRESENT e \<longleftrightarrow> e AND ucast PAGING_PTE_PRESENT_MASK \<noteq> 0"

definition PAGING_PTE_SWAPPED :: "u64 \<Rightarrow> bool" where
  "PAGING_PTE_SWAPPED e \<longleftrightarrow> e AND ucast PAGING_PTE_SWAPPED_MASK \<noteq> 0"

definition PAGING_PTE_FPN :: "u64 \<Rightarrow> u64" where
  "PAGING_PTE_FPN e = GETVAL e PAGING_PTE_FPN_MASK 0"

definition PAGING_PTE_SWP :: "u64 \<Rightarrow> u64" where
  "PAGING_PTE_SWP e = GETVAL e PAGING_PTE_SWPOFF_MASK 5"

definition PAGING_ADDR_OFFST_HIBIT :: nat where
  "PAGING_ADDR_OFFST_HIBIT = NBITS (of_nat PAGING_PAGESZ) - 1"

definition PAGING_ADDR_PGN_LOBIT :: nat where
  "PAGING_ADDR_PGN_LOBIT = NBITS (of_nat PAGING_PAGESZ)"

definition PAGING_ADDR_PGN_HIBIT :: nat where
  "PAGING_ADDR_PGN_HIBIT = PAGING_CPU_BUS_WIDTH - 1"

definition PAGING_OFFST_MASK :: u32 where
  "PAGING_OFFST_MASK = GENMASK PAGING_ADDR_OFFST_HIBIT 0"

definition PAGING_PGN_MASK :: u32 where
  "PAGING_PGN_MASK = GENMASK PAGING_ADDR_PGN_HIBIT PAGING_ADDR_PGN_LOBIT"

definition PAGING_OFFST :: "u64 \<Rightarrow> u64" where
  "PAGING_OFFST x = GETVAL x PAGING_OFFST_MASK 0"

definition PAGING_PGN :: "u64 \<Rightarrow> u64" where
  "PAGING_PGN x = GETVAL x PAGING_PGN_MASK PAGING_ADDR_PGN_LOBIT"

definition PAGING_MAX_PGN :: u32 where
  "PAGING_MAX_PGN = DIV_ROUND_UP (BIT PAGING_CPU_BUS_WIDTH) (of_nat PAGING_PAGESZ)"

section \<open>The layout of an address with five levels\<close>

definition PAGING64_ADDR_PT_HIBIT :: nat where
  "PAGING64_ADDR_PT_HIBIT = 20"

definition PAGING64_ADDR_PT_LOBIT :: nat where
  "PAGING64_ADDR_PT_LOBIT = 12"

definition PAGING64_ADDR_PT_MASK :: u64 where
  "PAGING64_ADDR_PT_MASK = GENMASK64 PAGING64_ADDR_PT_HIBIT PAGING64_ADDR_PT_LOBIT"

definition PAGING64_PT_ENTRIES :: nat where
  "PAGING64_PT_ENTRIES = 512"

definition PAGING64_ADDR_PMD_HIBIT :: nat where
  "PAGING64_ADDR_PMD_HIBIT = 29"

definition PAGING64_ADDR_PMD_LOBIT :: nat where
  "PAGING64_ADDR_PMD_LOBIT = 21"

definition PAGING64_ADDR_PMD_MASK :: u64 where
  "PAGING64_ADDR_PMD_MASK = GENMASK64 PAGING64_ADDR_PMD_HIBIT PAGING64_ADDR_PMD_LOBIT"

definition PAGING64_PMD_ENTRIES :: nat where
  "PAGING64_PMD_ENTRIES = 512"

definition PAGING64_ADDR_PUD_HIBIT :: nat where
  "PAGING64_ADDR_PUD_HIBIT = 38"

definition PAGING64_ADDR_PUD_LOBIT :: nat where
  "PAGING64_ADDR_PUD_LOBIT = 30"

definition PAGING64_ADDR_PUD_MASK :: u64 where
  "PAGING64_ADDR_PUD_MASK = GENMASK64 PAGING64_ADDR_PUD_HIBIT PAGING64_ADDR_PUD_LOBIT"

definition PAGING64_PUD_ENTRIES :: nat where
  "PAGING64_PUD_ENTRIES = 512"

definition PAGING64_ADDR_P4D_HIBIT :: nat where
  "PAGING64_ADDR_P4D_HIBIT = 47"

definition PAGING64_ADDR_P4D_LOBIT :: nat where
  "PAGING64_ADDR_P4D_LOBIT = 39"

definition PAGING64_ADDR_P4D_MASK :: u64 where
  "PAGING64_ADDR_P4D_MASK = GENMASK64 PAGING64_ADDR_P4D_HIBIT PAGING64_ADDR_P4D_LOBIT"

definition PAGING64_P4D_ENTRIES :: nat where
  "PAGING64_P4D_ENTRIES = 512"

definition PAGING64_ADDR_PGD_HIBIT :: nat where
  "PAGING64_ADDR_PGD_HIBIT = 56"

definition PAGING64_ADDR_PGD_LOBIT :: nat where
  "PAGING64_ADDR_PGD_LOBIT = 48"

definition PAGING64_ADDR_PGD_MASK :: u64 where
  "PAGING64_ADDR_PGD_MASK = GENMASK64 PAGING64_ADDR_PGD_HIBIT PAGING64_ADDR_PGD_LOBIT"

definition PAGING64_PGD_ENTRIES :: nat where
  "PAGING64_PGD_ENTRIES = 512"

definition PAGING64_ADDR_PT_SHIFT :: nat where
  "PAGING64_ADDR_PT_SHIFT = 12"

lemmas paging64_layout =
  PAGING64_ADDR_PT_MASK_def PAGING64_ADDR_PT_HIBIT_def PAGING64_ADDR_PT_LOBIT_def PAGING64_PT_ENTRIES_def
  PAGING64_ADDR_PMD_MASK_def PAGING64_ADDR_PMD_HIBIT_def PAGING64_ADDR_PMD_LOBIT_def PAGING64_PMD_ENTRIES_def
  PAGING64_ADDR_PUD_MASK_def PAGING64_ADDR_PUD_HIBIT_def PAGING64_ADDR_PUD_LOBIT_def PAGING64_PUD_ENTRIES_def
  PAGING64_ADDR_P4D_MASK_def PAGING64_ADDR_P4D_HIBIT_def PAGING64_ADDR_P4D_LOBIT_def PAGING64_P4D_ENTRIES_def
  PAGING64_ADDR_PGD_MASK_def PAGING64_ADDR_PGD_HIBIT_def PAGING64_ADDR_PGD_LOBIT_def PAGING64_PGD_ENTRIES_def
  PAGING64_ADDR_PT_SHIFT_def

section \<open>The masks bit by bit\<close>

lemma bit_BIT: "bit (BIT n) k \<longleftrightarrow> k = n \<and> n < 32"
  by (auto simp: BIT_def bit_simps)

lemma bit_GENMASK: "h < 32 \<Longrightarrow> bit (GENMASK h l) k \<longleftrightarrow> l \<le> k \<and> k \<le> h"
  by (auto simp: GENMASK_def BITS_PER_LONG_def bit_simps)

lemma bit_GENMASK64: "h < 64 \<Longrightarrow> bit (GENMASK64 h l) k \<longleftrightarrow> l \<le> k \<and> k \<le> h"
  by (auto simp: GENMASK64_def bit_simps)

lemma NBITS_pagesz: "NBITS 4096 = 12"
  by (simp add: NBITS_def NBITS32_def NBITS16_def NBITS8_def NBITS4_def NBITS2_def)

lemma PAGING_MAX_PGN_eq: "PAGING_MAX_PGN = 1024"
  by (simp add: PAGING_MAX_PGN_def DIV_ROUND_UP_def BIT_def PAGING_CPU_BUS_WIDTH_def PAGING_PAGESZ_def)

lemmas mask_defs =
  PAGING_PTE_PRESENT_MASK_def PAGING_PTE_SWAPPED_MASK_def PAGING_PTE_DIRTY_MASK_def
  PAGING_PTE_FPN_MASK_def PAGING_PTE_SWPTYP_MASK_def PAGING_PTE_SWPOFF_MASK_def

lemma addr_bits: "PAGING_ADDR_OFFST_HIBIT = 11" "PAGING_ADDR_PGN_LOBIT = 12" "PAGING_ADDR_PGN_HIBIT = 21"
  by (simp_all add: PAGING_ADDR_OFFST_HIBIT_def PAGING_ADDR_PGN_LOBIT_def PAGING_ADDR_PGN_HIBIT_def
      PAGING_PAGESZ_def PAGING_CPU_BUS_WIDTH_def NBITS_pagesz)

lemma bit_masks:
  "bit PAGING_PTE_PRESENT_MASK k \<longleftrightarrow> k = 31"
  "bit PAGING_PTE_SWAPPED_MASK k \<longleftrightarrow> k = 30"
  "bit PAGING_PTE_DIRTY_MASK k \<longleftrightarrow> k = 28"
  "bit PAGING_PTE_FPN_MASK k \<longleftrightarrow> k \<le> 12"
  "bit PAGING_PTE_SWPTYP_MASK k \<longleftrightarrow> k \<le> 4"
  "bit PAGING_PTE_SWPOFF_MASK k \<longleftrightarrow> 5 \<le> k \<and> k \<le> 25"
  "bit PAGING_OFFST_MASK k \<longleftrightarrow> k \<le> 11"
  "bit PAGING_PGN_MASK k \<longleftrightarrow> 12 \<le> k \<and> k \<le> 21"
  by (simp_all add: mask_defs bit_BIT bit_GENMASK PAGING_OFFST_MASK_def PAGING_PGN_MASK_def addr_bits)

section \<open>The operations bit by bit\<close>

lemma bit_SETBIT: "bit (SETBIT v m) k \<longleftrightarrow> bit v k \<or> bit m k"
  by (auto simp: SETBIT_def bit_simps dest: bit_imp_le_length)

lemma bit_CLRBIT: "bit (CLRBIT v m) k \<longleftrightarrow> bit v k \<and> k < 32 \<and> \<not> bit m k"
  by (auto simp: CLRBIT_def bit_simps)

lemma bit_SETVAL:
  "bit (SETVAL v val m off) k \<longleftrightarrow>
     (k < 32 \<and> \<not> bit m k \<and> bit v k) \<or> (bit m k \<and> off \<le> k \<and> bit val (k - off))"
  by (auto simp: SETVAL_def bit_simps dest: bit_imp_le_length)

lemma bit_GETVAL: "bit (GETVAL v m off) k \<longleftrightarrow> bit v (off + k) \<and> bit m (off + k)"
  by (auto simp: GETVAL_def bit_simps dest: bit_imp_le_length)

lemma and_ucast_0_iff: "(e::u64) AND ucast (m::u32) = 0 \<longleftrightarrow> (\<forall>k. \<not> (bit e k \<and> bit m k))"
proof -
  have "bit (e AND ucast m) k \<longleftrightarrow> bit e k \<and> bit m k" for k
    by (auto simp: bit_simps dest: bit_imp_le_length)
  then show ?thesis
    by (metis bit_0_eq bit_eqI bot_apply bot_bool_def)
qed

lemma PRESENT_bit: "PAGING_PTE_PRESENT e \<longleftrightarrow> bit e 31"
  by (auto simp: PAGING_PTE_PRESENT_def and_ucast_0_iff bit_masks)

lemma SWAPPED_bit: "PAGING_PTE_SWAPPED e \<longleftrightarrow> bit e 30"
  by (auto simp: PAGING_PTE_SWAPPED_def and_ucast_0_iff bit_masks)

lemma bit_PTE_FPN: "bit (PAGING_PTE_FPN e) k \<longleftrightarrow> bit e k \<and> k \<le> 12"
  by (simp add: PAGING_PTE_FPN_def bit_GETVAL bit_masks)

lemma PTE_FPN_take_bit: "PAGING_PTE_FPN e = take_bit 13 e"
  by (rule bit_word_eqI) (auto simp: bit_PTE_FPN bit_simps)

lemma PGN_take_bit: "PAGING_PGN x = take_bit 10 (drop_bit 12 x)"
  by (rule bit_word_eqI) (auto simp: PAGING_PGN_def bit_GETVAL bit_masks bit_simps addr_bits)

lemma OFFST_take_bit: "PAGING_OFFST x = take_bit 12 x"
  by (rule bit_word_eqI) (auto simp: PAGING_OFFST_def bit_GETVAL bit_masks bit_simps)

end
