(* ===== verification/MemPhy.thy ===== *)
theory MemPhy
  imports Common Bitops
begin

unbundle bit_operations_syntax

text \<open>
  Physical memory. The device operations \<^verbatim>\<open>MEMPHY_get_freefp\<close>, \<^verbatim>\<open>MEMPHY_put_freefp\<close>,
  \<^verbatim>\<open>MEMPHY_read\<close> and \<^verbatim>\<open>MEMPHY_write\<close> are declared in \<^verbatim>\<open>src/include/mm.h\<close>, but the file that
  should hold them, \<^verbatim>\<open>src/src/mm-memphy.c\<close>, is empty in the repository. They are therefore a parameter of
  the model, a record \<open>memphy_ops\<close> of functions on a device, and what the callers rely on is
  the hypothesis \<open>memphy_ok\<close>. The direct accesses \<^verbatim>\<open>mm64.c\<close> makes to \<^verbatim>\<open>mram->storage\<close> as an
  array of 64-bit entries (little endian) are modelled here byte by byte.
\<close>

section \<open>The device operations as a parameter\<close>

text \<open>
  Each operation returns its status, the value it writes through its pointer argument, and
  the device. The value is meaningful only where the status is \<open>0\<close>.
\<close>

record memphy_ops =
  MEMPHY_get_freefp :: "memphy_struct \<Rightarrow> int \<times> addr_t \<times> memphy_struct"
  MEMPHY_put_freefp :: "memphy_struct \<Rightarrow> addr_t \<Rightarrow> int \<times> memphy_struct"
  MEMPHY_read :: "memphy_struct \<Rightarrow> addr_t \<Rightarrow> int \<times> byte \<times> memphy_struct"
  MEMPHY_write :: "memphy_struct \<Rightarrow> addr_t \<Rightarrow> byte \<Rightarrow> int \<times> memphy_struct"

definition same_bytes :: "memphy_struct \<Rightarrow> memphy_struct \<Rightarrow> bool" where
  "same_bytes mp mp' \<longleftrightarrow> storage mp' = storage mp \<and> storage_sz mp' = storage_sz mp \<and>
     maxsz mp' = maxsz mp \<and> rdmflg mp' = rdmflg mp"

text \<open>
  Taking a frame fails exactly on an empty free list and then changes nothing; otherwise it
  removes one frame of the free list and returns it. Putting a frame back adds it to the free
  list. On a random-access device a byte inside the storage is read and written in place.
\<close>

definition get_ok :: "memphy_ops \<Rightarrow> bool" where
  "get_ok M \<longleftrightarrow> (\<forall>mp r f mp'. MEMPHY_get_freefp M mp = (r, f, mp') \<longrightarrow>
     (if free_fp_list mp = [] then r \<noteq> 0 \<and> mp' = mp
      else r = 0 \<and> f \<in> set (free_fp_list mp) \<and>
           free_fp_list mp' = remove1 f (free_fp_list mp) \<and> same_bytes mp mp'))"

definition put_ok :: "memphy_ops \<Rightarrow> bool" where
  "put_ok M \<longleftrightarrow> (\<forall>mp f r mp'. MEMPHY_put_freefp M mp f = (r, mp') \<longrightarrow>
     r = 0 \<and> mset (free_fp_list mp') = add_mset f (mset (free_fp_list mp)) \<and> same_bytes mp mp')"

definition read_ok :: "memphy_ops \<Rightarrow> bool" where
  "read_ok M \<longleftrightarrow> (\<forall>mp a. rdmflg mp \<noteq> 0 \<and> unat a < storage_sz mp \<longrightarrow>
     MEMPHY_read M mp a = (0, storage mp (unat a), mp))"

definition write_ok :: "memphy_ops \<Rightarrow> bool" where
  "write_ok M \<longleftrightarrow> (\<forall>mp a v. rdmflg mp \<noteq> 0 \<and> unat a < storage_sz mp \<longrightarrow>
     MEMPHY_write M mp a v = (0, mp\<lparr>storage := (storage mp)(unat a := v)\<rparr>))"

definition memphy_ok :: "memphy_ops \<Rightarrow> bool" where
  "memphy_ok M \<longleftrightarrow> get_ok M \<and> put_ok M \<and> read_ok M \<and> write_ok M"

section \<open>Sixty-four bit accesses to the storage\<close>

fun ld_bytes :: "nat \<Rightarrow> (nat \<Rightarrow> byte) \<Rightarrow> nat \<Rightarrow> u64" where
  "ld_bytes 0 m a = 0"
| "ld_bytes (Suc n) m a = ucast (m a) OR push_bit 8 (ld_bytes n m (Suc a))"

fun st_bytes :: "nat \<Rightarrow> (nat \<Rightarrow> byte) \<Rightarrow> nat \<Rightarrow> u64 \<Rightarrow> (nat \<Rightarrow> byte)" where
  "st_bytes 0 m a v = m"
| "st_bytes (Suc n) m a v = st_bytes n (m(a := ucast v)) (Suc a) (drop_bit 8 v)"

definition ld64 :: "(nat \<Rightarrow> byte) \<Rightarrow> nat \<Rightarrow> u64" where
  "ld64 m a = ld_bytes 8 m a"

definition st64 :: "(nat \<Rightarrow> byte) \<Rightarrow> nat \<Rightarrow> u64 \<Rightarrow> (nat \<Rightarrow> byte)" where
  "st64 m a v = st_bytes 8 m a v"

text \<open>An access outside the storage is undefined.\<close>

definition load64 :: "memphy_struct \<Rightarrow> nat \<Rightarrow> u64 option" where
  "load64 mp a = (if a + 8 \<le> storage_sz mp then Some (ld64 (storage mp) a) else None)"

definition store64 :: "memphy_struct \<Rightarrow> nat \<Rightarrow> u64 \<Rightarrow> memphy_struct option" where
  "store64 mp a v =
     (if a + 8 \<le> storage_sz mp then Some (mp\<lparr>storage := st64 (storage mp) a v\<rparr>) else None)"

text \<open>
  \<^verbatim>\<open>(addr_t*)(krnl->mram->storage + (fpn * PAGING_PAGESZ))\<close>: the byte offset of a frame, and of
  the entry \<open>idx\<close> of the table in it.
\<close>

definition frame_base :: "addr_t \<Rightarrow> nat" where
  "frame_base fpn = unat (fpn * of_nat PAGING_PAGESZ)"

definition entry_addr :: "addr_t \<Rightarrow> addr_t \<Rightarrow> nat" where
  "entry_addr fpn idx = frame_base fpn + 8 * unat idx"

text \<open>The loop that clears the 512 entries of a new table.\<close>

function zero_table :: "nat \<Rightarrow> memphy_struct \<Rightarrow> nat \<Rightarrow> memphy_struct option" where
  "zero_table base mp i =
     (if i < 512 then do { mp' \<leftarrow> store64 mp (base + 8 * i) 0; zero_table base mp' (Suc i) }
      else Some mp)"
  by pat_completeness auto
termination
  by (relation "measure (\<lambda>(base, mp, i). 512 - i)") auto

declare zero_table.simps [simp del]

section \<open>What a load reads\<close>

lemma st_bytes_apply:
  "st_bytes n m a v x = (if a \<le> x \<and> x < a + n then ucast (drop_bit (8 * (x - a)) v) else m x)"
proof (induction n arbitrary: m a v)
  case 0
  then show ?case by auto
next
  case (Suc n)
  show ?case
  proof (cases "Suc a \<le> x \<and> x < Suc a + n")
    case True
    then have "8 * (x - a) = 8 + 8 * (x - Suc a)" by (simp add: algebra_simps Suc_diff_le)
    with True Suc show ?thesis by (simp add: ac_simps)
  next
    case False
    with Suc show ?thesis by auto
  qed
qed

lemma ld_bytes_cong:
  "(\<And>x. a \<le> x \<Longrightarrow> x < a + n \<Longrightarrow> m x = m' x) \<Longrightarrow> ld_bytes n m a = ld_bytes n m' a"
  by (induction n arbitrary: a) simp_all

lemma ld_bytes_value:
  "(\<And>i. i < n \<Longrightarrow> m (a + i) = ucast (drop_bit (8 * i) v)) \<Longrightarrow> ld_bytes n m a = take_bit (8 * n) v"
proof (induction n arbitrary: a v)
  case 0
  then show ?case by simp
next
  case (Suc n)
  have "m (Suc a + i) = ucast (drop_bit (8 * i) (drop_bit 8 v))" if "i < n" for i
    using that Suc.prems [of "Suc i"] by (simp add: ac_simps)
  then have "ld_bytes n m (Suc a) = take_bit (8 * n) (drop_bit 8 v)" by (rule Suc.IH)
  moreover have "m a = ucast v" using Suc.prems [of 0] by simp
  moreover have "ucast (ucast v :: byte) OR push_bit 8 (take_bit (8 * n) (drop_bit 8 v)) =
      take_bit (8 * Suc n) v"
    by (rule bit_word_eqI) (auto simp: bit_simps)
  ultimately show ?case by simp
qed

lemma ld64_st64_same [simp]: "ld64 (st64 m a v) a = v"
proof -
  have "ld_bytes 8 (st_bytes 8 m a v) a = take_bit (8 * 8) v"
    by (rule ld_bytes_value) (simp add: st_bytes_apply)
  moreover have "take_bit 64 v = v" by (rule take_bit_word_eq_self) simp
  ultimately show ?thesis by (simp add: ld64_def st64_def)
qed

lemma ld64_st64_other: "a + 8 \<le> b \<or> b + 8 \<le> a \<Longrightarrow> ld64 (st64 m a v) b = ld64 m b"
  unfolding ld64_def st64_def by (rule ld_bytes_cong) (auto simp: st_bytes_apply)

lemma ld64_cong: "(\<And>x. a \<le> x \<Longrightarrow> x < a + 8 \<Longrightarrow> m x = m' x) \<Longrightarrow> ld64 m a = ld64 m' a"
  unfolding ld64_def by (rule ld_bytes_cong)

lemma ld64_zero: "(\<And>x. a \<le> x \<Longrightarrow> x < a + 8 \<Longrightarrow> m x = 0) \<Longrightarrow> ld64 m a = 0"
  using ld_bytes_value [of 8 m a 0] by (simp add: ld64_def)

section \<open>Entries of a table\<close>

text \<open>The entry \<open>j\<close> of the table in frame \<open>f\<close>, for a frame number inside the storage.\<close>

definition entry :: "memphy_struct \<Rightarrow> nat \<Rightarrow> nat \<Rightarrow> u64" where
  "entry mp f j = ld64 (storage mp) (4096 * f + 8 * j)"

definition set_entry :: "memphy_struct \<Rightarrow> nat \<Rightarrow> nat \<Rightarrow> u64 \<Rightarrow> memphy_struct" where
  "set_entry mp f j v = mp\<lparr>storage := st64 (storage mp) (4096 * f + 8 * j) v\<rparr>"

definition clear_frame :: "memphy_struct \<Rightarrow> nat \<Rightarrow> memphy_struct" where
  "clear_frame mp f =
     mp\<lparr>storage := (\<lambda>a. if 4096 * f \<le> a \<and> a < 4096 * f + 4096 then 0 else storage mp a)\<rparr>"

text \<open>How many whole frames the storage holds.\<close>

definition nframes :: "memphy_struct \<Rightarrow> nat" where
  "nframes mp = storage_sz mp div 4096"

lemma set_entry_fields [simp]:
  "storage_sz (set_entry mp f j v) = storage_sz mp" "maxsz (set_entry mp f j v) = maxsz mp"
  "rdmflg (set_entry mp f j v) = rdmflg mp" "free_fp_list (set_entry mp f j v) = free_fp_list mp"
  by (simp_all add: set_entry_def)

lemma clear_frame_fields [simp]:
  "storage_sz (clear_frame mp f) = storage_sz mp" "maxsz (clear_frame mp f) = maxsz mp"
  "rdmflg (clear_frame mp f) = rdmflg mp" "free_fp_list (clear_frame mp f) = free_fp_list mp"
  by (simp_all add: clear_frame_def)

lemma nframes_fields [simp]:
  "nframes (set_entry mp f j v) = nframes mp" "nframes (clear_frame mp f) = nframes mp"
  by (simp_all add: nframes_def)

lemma entry_set_entry [mem_simps]:
  assumes "j < 512" "k < 512"
  shows "entry (set_entry mp f j v) g k = (if f = g \<and> j = k then v else entry mp g k)"
proof (cases "f = g \<and> j = k")
  case True
  then show ?thesis by (simp add: entry_def set_entry_def)
next
  case False
  then consider "f < g" | "g < f" | "f = g" "j < k" | "f = g" "k < j" by linarith
  then have "4096 * f + 8 * j + 8 \<le> 4096 * g + 8 * k \<or> 4096 * g + 8 * k + 8 \<le> 4096 * f + 8 * j"
    using assms by cases linarith+
  then have "entry (set_entry mp f j v) g k = entry mp g k"
    by (simp add: entry_def set_entry_def ld64_st64_other)
  with False show ?thesis by auto
qed

lemma entry_clear_frame [mem_simps]:
  assumes "k < 512"
  shows "entry (clear_frame mp f) g k = (if f = g then 0 else entry mp g k)"
proof (cases "f = g")
  case True
  with assms show ?thesis by (simp add: entry_def clear_frame_def ld64_zero)
next
  case False
  then have "ld64 (storage (clear_frame mp f)) (4096 * g + 8 * k) = ld64 (storage mp) (4096 * g + 8 * k)"
    using assms by (intro ld64_cong) (auto simp: clear_frame_def)
  with False show ?thesis by (simp add: entry_def)
qed

lemma frame_inside: "f < nframes mp \<Longrightarrow> 4096 * f + 4096 \<le> storage_sz mp"
  unfolding nframes_def by (metis Suc_leI add.commute div_le_mono less_eq_div_iff_mult_less_eq mult.commute mult_Suc_right zero_less_numeral)

lemma load64_entry: "f < nframes mp \<Longrightarrow> j < 512 \<Longrightarrow> load64 mp (4096 * f + 8 * j) = Some (entry mp f j)"
  using frame_inside [of f mp] by (simp add: load64_def entry_def)

lemma store64_entry:
  "f < nframes mp \<Longrightarrow> j < 512 \<Longrightarrow> store64 mp (4096 * f + 8 * j) v = Some (set_entry mp f j v)"
  using frame_inside [of f mp] by (simp add: store64_def set_entry_def)

lemma zero_table_from:
  assumes "base + 4096 \<le> storage_sz mp" "i \<le> 512"
  shows "zero_table base mp i =
    Some (mp\<lparr>storage := (\<lambda>a. if base + 8 * i \<le> a \<and> a < base + 4096 then 0 else storage mp a)\<rparr>)"
  using assms
proof (induction base mp i rule: zero_table.induct)
  case (1 base mp i)
  show ?case
  proof (cases "i < 512")
    case True
    then have st: "store64 mp (base + 8 * i) 0 = Some (mp\<lparr>storage := st64 (storage mp) (base + 8 * i) 0\<rparr>)"
      using "1.prems" by (simp add: store64_def)
    with True 1 have "zero_table base mp i = Some (mp\<lparr>storage :=
        (\<lambda>a. if base + 8 * Suc i \<le> a \<and> a < base + 4096 then 0 else st64 (storage mp) (base + 8 * i) 0 a)\<rparr>)"
      by (subst zero_table.simps) (simp cong: if_cong)
    moreover have "(\<lambda>a. if base + 8 * Suc i \<le> a \<and> a < base + 4096 then 0
          else st64 (storage mp) (base + 8 * i) 0 a) =
        (\<lambda>a. if base + 8 * i \<le> a \<and> a < base + 4096 then 0 else storage mp a)"
      using True by (auto simp: st64_def st_bytes_apply fun_eq_iff)
    ultimately show ?thesis by simp
  next
    case False
    moreover have "(\<lambda>a. if base + 4096 \<le> a \<and> a < base + 4096 then 0 else storage mp a) = storage mp"
      by (rule ext) auto
    ultimately show ?thesis using "1.prems" by (subst zero_table.simps) simp
  qed
qed

lemma zero_table_clear: "f < nframes mp \<Longrightarrow> zero_table (4096 * f) mp 0 = Some (clear_frame mp f)"
  using zero_table_from [of "4096 * f" mp 0] frame_inside [of f mp] by (simp add: clear_frame_def)

section \<open>Frame numbers\<close>

text \<open>Frame numbers fit the 13 bits of an entry; the product with the page size then does not wrap.\<close>

lemma frame_base_small: "unat f < 8192 \<Longrightarrow> frame_base f = 4096 * unat f"
  by (simp add: frame_base_def PAGING_PAGESZ_def unat_word_ariths mult.commute)

lemma entry_addr_small: "unat f < 8192 \<Longrightarrow> entry_addr f j = 4096 * unat f + 8 * unat j"
  by (simp add: entry_addr_def frame_base_small)

lemma unat_PTE_FPN: "unat (PAGING_PTE_FPN e) < 8192"
  using take_bit_nat_less_exp [of 13 "unat e"]
  by (simp add: PTE_FPN_take_bit unsigned_take_bit_eq)

section \<open>Consequences of the device contract\<close>

lemma same_bytesD:
  assumes "same_bytes mp mp'"
  shows "storage mp' = storage mp" "storage_sz mp' = storage_sz mp" "maxsz mp' = maxsz mp"
    "rdmflg mp' = rdmflg mp" "nframes mp' = nframes mp" "entry mp' f j = entry mp f j"
  using assms by (simp_all add: same_bytes_def nframes_def entry_def)

lemma get_freefp_cases:
  assumes "memphy_ok M"
  obtains (none) r f where "free_fp_list mp = []" "MEMPHY_get_freefp M mp = (r, f, mp)" "r \<noteq> 0"
    | (frame) f mp' where "MEMPHY_get_freefp M mp = (0, f, mp')" "f \<in> set (free_fp_list mp)"
      "free_fp_list mp' = remove1 f (free_fp_list mp)" "same_bytes mp mp'"
proof -
  obtain r f mp' where g: "MEMPHY_get_freefp M mp = (r, f, mp')" by (metis prod_cases3)
  with assms have "if free_fp_list mp = [] then r \<noteq> 0 \<and> mp' = mp
      else r = 0 \<and> f \<in> set (free_fp_list mp) \<and>
           free_fp_list mp' = remove1 f (free_fp_list mp) \<and> same_bytes mp mp'"
    unfolding memphy_ok_def get_ok_def by blast
  with g show thesis using none frame by (cases "free_fp_list mp = []") auto
qed

end
