(* ===== verification/Mm64.thy ===== *)
theory Mm64
  imports MemPhy
begin

unbundle bit_operations_syntax

text \<open>
  The five-level page table of \<^verbatim>\<open>src/src/mm64.c\<close>. The top directory \<^verbatim>\<open>mm->pgd\<close> is an array of
  the process; the tables below it are frames of the shared physical memory, reached through
  the frame number in an entry. This theory holds the definitions; \<open>PageTable\<close> holds what is
  proved about the translation. The functions take the kernel structure of the calling process
  and return it updated; \<open>None\<close> is an access outside an array or outside the storage.
\<close>

section \<open>Page table entries\<close>

definition init_pte ::
  "u64 \<Rightarrow> int \<Rightarrow> addr_t \<Rightarrow> int \<Rightarrow> int \<Rightarrow> u32 \<Rightarrow> addr_t \<Rightarrow> int \<times> u64" where
  "init_pte pte pre fpn drt swp swptyp swpoff =
     (if pre \<noteq> 0 then
        (if swp = 0 then
           (if fpn = 0 then (-1, pte)
            else (0, SETVAL (CLRBIT (CLRBIT (SETBIT pte PAGING_PTE_PRESENT_MASK)
                       PAGING_PTE_SWAPPED_MASK) PAGING_PTE_DIRTY_MASK)
                       fpn PAGING_PTE_FPN_MASK 0))
         else (0, SETVAL (SETVAL (CLRBIT (SETBIT (SETBIT pte PAGING_PTE_PRESENT_MASK)
                       PAGING_PTE_SWAPPED_MASK) PAGING_PTE_DIRTY_MASK)
                       (ucast swptyp) PAGING_PTE_SWPTYP_MASK 0)
                       swpoff PAGING_PTE_SWPOFF_MASK 5))
      else (0, pte))"

section \<open>Page directory indices\<close>

record pd_t =
  pgd_idx :: addr_t
  p4d_idx :: addr_t
  pud_idx :: addr_t
  pmd_idx :: addr_t
  pt_idx :: addr_t

definition get_pd_from_address :: "addr_t \<Rightarrow> int \<times> pd_t" where
  "get_pd_from_address addr =
     (let d = \<lparr>pgd_idx = drop_bit PAGING64_ADDR_PGD_LOBIT (addr AND PAGING64_ADDR_PGD_MASK),
               p4d_idx = drop_bit PAGING64_ADDR_P4D_LOBIT (addr AND PAGING64_ADDR_P4D_MASK),
               pud_idx = drop_bit PAGING64_ADDR_PUD_LOBIT (addr AND PAGING64_ADDR_PUD_MASK),
               pmd_idx = drop_bit PAGING64_ADDR_PMD_LOBIT (addr AND PAGING64_ADDR_PMD_MASK),
               pt_idx = drop_bit PAGING64_ADDR_PT_LOBIT (addr AND PAGING64_ADDR_PT_MASK)\<rparr>
      in (if pgd_idx d \<ge> of_nat PAGING64_PGD_ENTRIES then -1
          else if p4d_idx d \<ge> of_nat PAGING64_P4D_ENTRIES then -1
          else if pud_idx d \<ge> of_nat PAGING64_PUD_ENTRIES then -1
          else if pmd_idx d \<ge> of_nat PAGING64_PMD_ENTRIES then -1
          else if pt_idx d \<ge> of_nat PAGING64_PT_ENTRIES then -1
          else 0, d))"

definition get_pd_from_pagenum :: "addr_t \<Rightarrow> int \<times> pd_t" where
  "get_pd_from_pagenum pgn = get_pd_from_address (push_bit PAGING64_ADDR_PT_SHIFT pgn)"

text \<open>With the constants of the layout put in.\<close>

lemmas pd_from_address = get_pd_from_address_def [unfolded paging64_layout of_nat_numeral]
lemmas pd_from_pagenum = get_pd_from_pagenum_def [unfolded paging64_layout]

section \<open>Walking with allocation\<close>

definition pgd_read :: "mm_struct \<Rightarrow> addr_t \<Rightarrow> u64 option" where
  "pgd_read m i = (if unat i < length (pgd m) then Some (pgd m ! unat i) else None)"

text \<open>
  One level of the walk that creates what is missing, first for the directory in \<^verbatim>\<open>mm->pgd\<close>,
  then for a table in a frame. A missing entry takes a free frame and is initialised with it
  (an entry for frame 0 is refused by \<open>init_pte\<close>, whose status is ignored); with \<open>z\<close>, the new
  table is then cleared, as \<^verbatim>\<open>ensure_pte_mapping\<close> does and \<^verbatim>\<open>pte_set_swap\<close> does not. The
  result is the frame of the next table, read back from the entry, or \<open>None\<close> inside the
  option where no frame is free.
\<close>

definition ensure_pgd ::
  "bool \<Rightarrow> memphy_ops \<Rightarrow> mm_struct \<Rightarrow> memphy_struct \<Rightarrow> addr_t \<Rightarrow>
     (addr_t option \<times> mm_struct \<times> memphy_struct) option" where
  "ensure_pgd z M m mp i = do {
     e \<leftarrow> pgd_read m i;
     if \<not> PAGING_PTE_PRESENT e then
       (case MEMPHY_get_freefp M mp of (r, f, mp1) \<Rightarrow>
          if r \<noteq> 0 then Some (None, m, mp1)
          else do {
            let m1 = m\<lparr>pgd := (pgd m)[unat i := snd (init_pte e 1 f 0 0 0 0)]\<rparr>;
            mp2 \<leftarrow> (if z then zero_table (frame_base f) mp1 0 else Some mp1);
            e' \<leftarrow> pgd_read m1 i;
            Some (Some (PAGING_PTE_FPN e'), m1, mp2) })
     else Some (Some (PAGING_PTE_FPN e), m, mp) }"

definition ensure_next ::
  "bool \<Rightarrow> memphy_ops \<Rightarrow> memphy_struct \<Rightarrow> addr_t \<Rightarrow> addr_t \<Rightarrow>
     (addr_t option \<times> memphy_struct) option" where
  "ensure_next z M mp t i = do {
     e \<leftarrow> load64 mp (entry_addr t i);
     if \<not> PAGING_PTE_PRESENT e then
       (case MEMPHY_get_freefp M mp of (r, f, mp1) \<Rightarrow>
          if r \<noteq> 0 then Some (None, mp1)
          else do {
            mp2 \<leftarrow> store64 mp1 (entry_addr t i) (snd (init_pte e 1 f 0 0 0 0));
            mp3 \<leftarrow> (if z then zero_table (frame_base f) mp2 0 else Some mp2);
            e' \<leftarrow> load64 mp3 (entry_addr t i);
            Some (Some (PAGING_PTE_FPN e'), mp3) })
     else Some (Some (PAGING_PTE_FPN e), mp) }"

text \<open>
  The walk over the five levels. The code repeats the block of \<open>ensure_next\<close> for the indices of
  the levels P4D, PUD and PMD; the result is the byte offset of the page table entry in the
  storage, or \<open>None\<close> inside the option (the code's \<^verbatim>\<open>NULL\<close>, or \<^verbatim>\<open>return -1\<close> in \<^verbatim>\<open>pte_set_swap\<close>).
\<close>

fun walk_next ::
  "bool \<Rightarrow> memphy_ops \<Rightarrow> memphy_struct \<Rightarrow> addr_t \<Rightarrow> addr_t list \<Rightarrow>
     (addr_t option \<times> memphy_struct) option" where
  "walk_next z M mp t [] = Some (Some t, mp)"
| "walk_next z M mp t (i # is) = do {
     (r, mp') \<leftarrow> ensure_next z M mp t i;
     (case r of None \<Rightarrow> Some (None, mp') | Some t' \<Rightarrow> walk_next z M mp' t' is) }"

definition walk_alloc ::
  "bool \<Rightarrow> memphy_ops \<Rightarrow> krnl_t \<Rightarrow> pd_t \<Rightarrow> (nat option \<times> krnl_t) option" where
  "walk_alloc z M k d = do {
     m \<leftarrow> mm k;
     (r1, m1, p1) \<leftarrow> ensure_pgd z M m (mram k) (pgd_idx d);
     (case r1 of
        None \<Rightarrow> Some (None, k\<lparr>mm := Some m1, mram := p1\<rparr>)
      | Some t1 \<Rightarrow> do {
          (r4, p4) \<leftarrow> walk_next z M p1 t1 [p4d_idx d, pud_idx d, pmd_idx d];
          (case r4 of
             None \<Rightarrow> Some (None, k\<lparr>mm := Some m1, mram := p4\<rparr>)
           | Some t4 \<Rightarrow> Some (Some (entry_addr t4 (pt_idx d)), k\<lparr>mm := Some m1, mram := p4\<rparr>)) }) }"

definition ensure_pte_mapping ::
  "memphy_ops \<Rightarrow> krnl_t \<Rightarrow> pd_t \<Rightarrow> (nat option \<times> krnl_t) option" where
  "ensure_pte_mapping M k d = walk_alloc True M k d"

section \<open>Setting and reading a page table entry\<close>

definition pte_set_swap ::
  "memphy_ops \<Rightarrow> krnl_t \<Rightarrow> addr_t \<Rightarrow> u32 \<Rightarrow> addr_t \<Rightarrow> (int \<times> krnl_t) option" where
  "pte_set_swap M k pgn swptyp swpoff =
     (case get_pd_from_pagenum pgn of (r, d) \<Rightarrow>
        if r \<noteq> 0 then Some (-1, k)
        else do {
          (p, k1) \<leftarrow> walk_alloc False M k d;
          (case p of
             None \<Rightarrow> Some (-1, k1)
           | Some a \<Rightarrow> do {
               e \<leftarrow> load64 (mram k1) a;
               mp \<leftarrow> store64 (mram k1) a
                 (SETVAL (SETVAL (SETBIT (SETBIT e PAGING_PTE_PRESENT_MASK) PAGING_PTE_SWAPPED_MASK)
                    (ucast swptyp) PAGING_PTE_SWPTYP_MASK 0) swpoff PAGING_PTE_SWPOFF_MASK 5);
               Some (0, k1\<lparr>mram := mp\<rparr>) }) })"

definition fpn_pte :: "addr_t \<Rightarrow> u64" where
  "fpn_pte fpn =
     SETVAL (CLRBIT (SETBIT 0 PAGING_PTE_PRESENT_MASK) PAGING_PTE_SWAPPED_MASK) fpn PAGING_PTE_FPN_MASK 0"

definition pte_set_fpn :: "memphy_ops \<Rightarrow> krnl_t \<Rightarrow> addr_t \<Rightarrow> addr_t \<Rightarrow> (int \<times> krnl_t) option" where
  "pte_set_fpn M k pgn fpn =
     (if mm k = None then Some (-1, k)
      else (case get_pd_from_pagenum pgn of (r, d) \<Rightarrow>
        if r \<noteq> 0 then Some (-1, k)
        else do {
          (p, k1) \<leftarrow> ensure_pte_mapping M k d;
          (case p of
             None \<Rightarrow> Some (-1, k1)
           | Some a \<Rightarrow> do {
               mp \<leftarrow> store64 (mram k1) a (fpn_pte fpn);
               Some (0, k1\<lparr>mram := mp\<rparr>) }) }))"

text \<open>
  The frame of the next table of an entry, where \<^verbatim>\<open>pte_get_entry\<close> goes on, and its walk over
  the four levels below the directory.
\<close>

definition next_table :: "memphy_struct \<Rightarrow> u64 \<Rightarrow> addr_t option" where
  "next_table mp e =
     (if \<not> PAGING_PTE_PRESENT e then None
      else if PAGING_PTE_FPN e * of_nat PAGING_PAGESZ \<ge> scast (maxsz mp) then None
      else Some (PAGING_PTE_FPN e))"

fun walk_read :: "memphy_struct \<Rightarrow> u64 \<Rightarrow> addr_t list \<Rightarrow> u64 option" where
  "walk_read mp e [] = Some e"
| "walk_read mp e (i # is) =
     (case next_table mp e of
        None \<Rightarrow> Some 0
      | Some t \<Rightarrow> do { e' \<leftarrow> load64 mp (entry_addr t i); walk_read mp e' is })"

definition pte_get_entry :: "krnl_t \<Rightarrow> addr_t \<Rightarrow> u32 option" where
  "pte_get_entry k pgn =
     (case mm k of None \<Rightarrow> Some 0 | Some m \<Rightarrow>
     (case get_pd_from_pagenum pgn of (r, d) \<Rightarrow>
        if r \<noteq> 0 then Some 0
        else do {
          e0 \<leftarrow> pgd_read m (pgd_idx d);
          e \<leftarrow> walk_read (mram k) e0 [p4d_idx d, pud_idx d, pmd_idx d, pt_idx d];
          Some (ucast e) }))"

definition pte_set_entry :: "krnl_t \<Rightarrow> addr_t \<Rightarrow> u32 \<Rightarrow> (int \<times> krnl_t) option" where
  "pte_set_entry k pgn pte_val = do {
     m \<leftarrow> mm k;
     (if unat pgn < length (pgd m)
      then Some (0, k\<lparr>mm := Some (m\<lparr>pgd := (pgd m)[unat pgn := ucast pte_val]\<rparr>)\<rparr>)
      else None) }"

section \<open>Region and page lists\<close>

definition init_vm_rg :: "addr_t \<Rightarrow> addr_t \<Rightarrow> vm_rg_struct" where
  "init_vm_rg rs re = \<lparr>rg_start = rs, rg_end = re\<rparr>"

definition enlist_vm_rg_node :: "vm_rg_struct list \<Rightarrow> vm_rg_struct \<Rightarrow> vm_rg_struct list" where
  "enlist_vm_rg_node rglist rgnode = rgnode # rglist"

definition enlist_pgn_node :: "addr_t list \<Rightarrow> addr_t \<Rightarrow> addr_t list" where
  "enlist_pgn_node plist pgn = pgn # plist"

section \<open>Mapping ranges\<close>

text \<open>
  The product \<^verbatim>\<open>pgit * PAGING_PAGESZ\<close> is computed in \<^verbatim>\<open>int\<close>; from \<open>2 ^ 19\<close> pages on it
  overflows, which is undefined.
\<close>

definition int_pages :: "int \<Rightarrow> addr_t option" where
  "int_pages n = (if - (2 ^ 19) \<le> n \<and> n < 2 ^ 19 then Some (of_int (n * 4096)) else None)"

function vmap_pgd_memset_loop ::
  "memphy_ops \<Rightarrow> krnl_t \<Rightarrow> addr_t \<Rightarrow> int \<Rightarrow> int \<Rightarrow> krnl_t option" where
  "vmap_pgd_memset_loop M k addr pgnum pgit =
     (if pgit < pgnum then do {
        off \<leftarrow> int_pages pgit;
        (_, k') \<leftarrow> pte_set_fpn M k (PAGING_PGN (addr + off)) ((0xdeadbeef + of_int pgit) AND 0xFFFFF);
        vmap_pgd_memset_loop M k' addr pgnum (pgit + 1) }
      else Some k)"
  by pat_completeness auto
termination
  by (relation "measure (\<lambda>(M, k, addr, pgnum, pgit). nat (pgnum - pgit))") auto

declare vmap_pgd_memset_loop.simps [simp del]

definition vmap_pgd_memset :: "memphy_ops \<Rightarrow> krnl_t \<Rightarrow> addr_t \<Rightarrow> u32 \<Rightarrow> (int \<times> krnl_t) option" where
  "vmap_pgd_memset M k addr pgnum = do {
     k' \<leftarrow> vmap_pgd_memset_loop M k addr (sint pgnum) 0;
     Some (0, k') }"

fun vmap_page_range_loop ::
  "memphy_ops \<Rightarrow> krnl_t \<Rightarrow> addr_t \<Rightarrow> int \<Rightarrow> int \<Rightarrow> addr_t list \<Rightarrow> krnl_t option" where
  "vmap_page_range_loop M k addr pgnum pgit [] = Some k"
| "vmap_page_range_loop M k addr pgnum pgit (f # fs) =
     (if pgit < pgnum then do {
        off \<leftarrow> int_pages pgit;
        let pgn = PAGING_PGN (addr + off);
        (_, k1) \<leftarrow> pte_set_fpn M k pgn f;
        m \<leftarrow> mm k1;
        vmap_page_range_loop M (k1\<lparr>mm := Some (m\<lparr>fifo_pgn := enlist_pgn_node (fifo_pgn m) pgn\<rparr>)\<rparr>)
          addr pgnum (pgit + 1) fs }
      else Some k)"

definition vmap_page_range ::
  "memphy_ops \<Rightarrow> krnl_t \<Rightarrow> addr_t \<Rightarrow> u32 \<Rightarrow> addr_t list \<Rightarrow> (addr_t \<times> vm_rg_struct \<times> krnl_t) option" where
  "vmap_page_range M k addr pgnum frames = do {
     len \<leftarrow> int_pages (sint pgnum);
     k' \<leftarrow> vmap_page_range_loop M k addr (sint pgnum) 0 frames;
     Some (0, \<lparr>rg_start = addr, rg_end = addr + len\<rparr>, k') }"

fun alloc_pages_loop :: "memphy_ops \<Rightarrow> memphy_struct \<Rightarrow> nat \<Rightarrow> addr_t list \<times> memphy_struct" where
  "alloc_pages_loop M mp 0 = ([], mp)"
| "alloc_pages_loop M mp (Suc n) =
     (case MEMPHY_get_freefp M mp of (r, f, mp1) \<Rightarrow>
        if r = 0 then (case alloc_pages_loop M mp1 n of (fs, mp2) \<Rightarrow> (f # fs, mp2))
        else ([], mp1))"

definition alloc_pages_range ::
  "memphy_ops \<Rightarrow> memphy_struct \<Rightarrow> u32 \<Rightarrow> addr_t \<times> addr_t list \<times> memphy_struct" where
  "alloc_pages_range M mp req_pgnum =
     (case alloc_pages_loop M mp (nat (sint req_pgnum)) of (fs, mp') \<Rightarrow>
        (if int (length fs) = sint req_pgnum then 0 else of_nat (length fs), fs, mp'))"

text \<open>
  \<^verbatim>\<open>vm_map_ram\<close> allocates no frame: its frame list is \<^verbatim>\<open>NULL\<close> and \<^verbatim>\<open>ret_alloc\<close> is the
  constant \<open>0\<close>, so both error tests are false (\<^verbatim>\<open>ret_alloc < 0\<close> on an unsigned value, and
  the comparison with \<open>-3000\<close>).
\<close>

definition vm_map_ram ::
  "memphy_ops \<Rightarrow> krnl_t \<Rightarrow> addr_t \<Rightarrow> addr_t \<Rightarrow> addr_t \<Rightarrow> u32 \<Rightarrow>
     (addr_t \<times> vm_rg_struct \<times> krnl_t) option" where
  "vm_map_ram M k astart aend mapstart incpgnum =
     (let ret_alloc = (0::addr_t) in
      if ret_alloc < 0 \<and> ret_alloc \<noteq> - 3000 then Some (- 1, \<lparr>rg_start = 0, rg_end = 0\<rparr>, k)
      else if ret_alloc = - 3000 then Some (- 1, \<lparr>rg_start = 0, rg_end = 0\<rparr>, k)
      else do {
        (_, rg, k') \<leftarrow> vmap_page_range M k mapstart incpgnum [];
        Some (0, rg, k') })"

section \<open>Copying a page between devices\<close>

function swap_cp_loop ::
  "memphy_ops \<Rightarrow> memphy_struct \<Rightarrow> addr_t \<Rightarrow> memphy_struct \<Rightarrow> addr_t \<Rightarrow> nat \<Rightarrow>
     memphy_struct \<times> memphy_struct" where
  "swap_cp_loop M src srcfpn dst dstfpn i =
     (if i < PAGING_PAGESZ then
        (case MEMPHY_read M src (srcfpn * of_nat PAGING_PAGESZ + of_nat i) of (_, v, src') \<Rightarrow>
         case MEMPHY_write M dst (dstfpn * of_nat PAGING_PAGESZ + of_nat i) v of (_, dst') \<Rightarrow>
           swap_cp_loop M src' srcfpn dst' dstfpn (Suc i))
      else (src, dst))"
  by pat_completeness auto
termination
  by (relation "measure (\<lambda>(M, src, srcfpn, dst, dstfpn, i). PAGING_PAGESZ - i)") auto

declare swap_cp_loop.simps [simp del]

definition swap_cp_page ::
  "memphy_ops \<Rightarrow> memphy_struct \<Rightarrow> addr_t \<Rightarrow> memphy_struct \<Rightarrow> addr_t \<Rightarrow>
     int \<times> memphy_struct \<times> memphy_struct" where
  "swap_cp_page M src srcfpn dst dstfpn = (0, swap_cp_loop M src srcfpn dst dstfpn 0)"

section \<open>A new memory map\<close>

text \<open>
  \<^verbatim>\<open>init_mm\<close>, where every \<^verbatim>\<open>malloc\<close> succeeds. \<^verbatim>\<open>vma0\<close> comes from \<^verbatim>\<open>malloc\<close> and its
  \<^verbatim>\<open>vm_freerg_list\<close> is not set before \<^verbatim>\<open>enlist_vm_rg_node\<close> puts the first region in front
  of it; \<open>junk\<close> is what that uninitialised pointer refers to.
\<close>

definition init_mm :: "vm_rg_struct list \<Rightarrow> int \<times> mm_struct" where
  "init_mm junk =
     (let vma0 = \<lparr>vm_id = 0, vm_start = 0, vm_end = 0x100000, sbrk = of_nat PAGING_PAGESZ,
                  vm_freerg_list = enlist_vm_rg_node junk (init_vm_rg 0 0x100000)\<rparr>
      in (0, \<lparr>pgd = replicate 512 0, p4d = replicate 512 0, pud = replicate 512 0,
              pmd = replicate 512 0, pt = replicate 512 0, mmap = [vma0],
              symrgtbl = replicate PAGING_MAX_SYMTBL_SZ \<lparr>rg_start = 0, rg_end = 0\<rparr>,
              fifo_pgn = []\<rparr>))"

definition fpn_to_ptr :: "memphy_struct \<Rightarrow> addr_t \<Rightarrow> nat option" where
  "fpn_to_ptr mp fpn =
     (if fpn * of_nat PAGING_PAGESZ \<ge> scast (maxsz mp) then None else Some (frame_base fpn))"

end
