(* ===== verification/PageTable.thy ===== *)
theory PageTable
  imports Mm64
begin

unbundle bit_operations_syntax

text \<open>
  What the page table operations of \<open>Mm64\<close> do to the translation. The tables of all processes
  live in the frames of one device, so the facts are stated for a family \<open>ms\<close> of memory maps
  over one device. \<open>frm m mp q\<close> is the frame the walk reaches along the indices \<open>q\<close> (innermost first):
  paths of length 1 to 4 reach tables, paths of length 5 reach data pages. The invariant
  \<open>vm_inv\<close> says that these frames are pairwise different over all processes and paths, inside
  the device and not free; it is what makes an update of one entry local.
\<close>

section \<open>Frames reached by a walk\<close>

fun frm :: "mm_struct \<Rightarrow> memphy_struct \<Rightarrow> nat list \<Rightarrow> nat option" where
  "frm m mp [] = None"
| "frm m mp (j # p) =
     (case (if p = [] then Some (pgd m ! j) else map_option (\<lambda>f. entry mp f j) (frm m mp p)) of
        None \<Rightarrow> None
      | Some e \<Rightarrow> if PAGING_PTE_PRESENT e then Some (unat (PAGING_PTE_FPN e)) else None)"

definition wf_path :: "nat list \<Rightarrow> bool" where
  "wf_path q \<longleftrightarrow> q \<noteq> [] \<and> length q \<le> 5 \<and> (\<forall>i \<in> set q. i < 512)"

text \<open>The entry \<open>j\<close> of the last-level table at path \<open>q\<close>; \<open>0\<close> where there is no such table.\<close>

definition leaf :: "mm_struct \<Rightarrow> memphy_struct \<Rightarrow> nat list \<Rightarrow> nat \<Rightarrow> u64" where
  "leaf m mp q j = (case frm m mp q of None \<Rightarrow> 0 | Some f \<Rightarrow> entry mp f j)"

type_synonym maps = "nat \<Rightarrow> mm_struct option"

definition frm_of :: "maps \<Rightarrow> memphy_struct \<Rightarrow> nat \<Rightarrow> nat list \<Rightarrow> nat option" where
  "frm_of ms mp k q = (case ms k of None \<Rightarrow> None | Some m \<Rightarrow> if wf_path q then frm m mp q else None)"

definition owned :: "maps \<Rightarrow> memphy_struct \<Rightarrow> nat \<Rightarrow> bool" where
  "owned ms mp f \<longleftrightarrow> (\<exists>k q. frm_of ms mp k q = Some f)"

definition dev_ok :: "memphy_struct \<Rightarrow> bool" where
  "dev_ok mp \<longleftrightarrow> sint (maxsz mp) = int (storage_sz mp) \<and> storage_sz mp \<le> 4096 * 8192 \<and>
     rdmflg mp \<noteq> 0 \<and> distinct (free_fp_list mp) \<and> (\<forall>g \<in> set (free_fp_list mp). unat g < nframes mp)"

definition vm_inv :: "maps \<Rightarrow> memphy_struct \<Rightarrow> bool" where
  "vm_inv ms mp \<longleftrightarrow> dev_ok mp \<and> (\<forall>k m. ms k = Some m \<longrightarrow> length (pgd m) = 512) \<and>
     (\<forall>k q f. frm_of ms mp k q = Some f \<longrightarrow>
        f < nframes mp \<and> of_nat f \<notin> set (free_fp_list mp) \<and> (length q \<le> 4 \<longrightarrow> f \<noteq> 0)) \<and>
     (\<forall>k q k' q' f. frm_of ms mp k q = Some f \<and> frm_of ms mp k' q' = Some f \<longrightarrow> k = k' \<and> q = q')"

section \<open>Basic facts\<close>

lemma wf_path_ConsD: "wf_path (j # p) \<Longrightarrow> p \<noteq> [] \<Longrightarrow> wf_path p"
  by (simp add: wf_path_def)

lemma wf_path_Cons_idx: "wf_path (j # p) \<Longrightarrow> j < 512"
  by (simp add: wf_path_def)

lemma frm_less: "frm m mp q = Some f \<Longrightarrow> f < 8192"
  by (cases q) (auto simp: unat_PTE_FPN split: option.splits if_splits)

lemma vm_invD:
  assumes "vm_inv ms mp"
  shows "dev_ok mp" "ms k = Some m \<Longrightarrow> length (pgd m) = 512"
    "frm_of ms mp k q = Some f \<Longrightarrow> f < nframes mp"
    "frm_of ms mp k q = Some f \<Longrightarrow> of_nat f \<notin> set (free_fp_list mp)"
    "frm_of ms mp k q = Some f \<Longrightarrow> length q \<le> 4 \<Longrightarrow> f \<noteq> 0"
    "frm_of ms mp k q = Some f \<Longrightarrow> frm_of ms mp k' q' = Some f \<Longrightarrow> k = k' \<and> q = q'"
  using assms unfolding vm_inv_def by blast+

lemma frm_ofI: "ms k = Some m \<Longrightarrow> wf_path q \<Longrightarrow> frm m mp q = Some f \<Longrightarrow> frm_of ms mp k q = Some f"
  by (simp add: frm_of_def)

lemma frm_of_SomeD:
  "frm_of ms mp k q = Some f \<Longrightarrow> \<exists>m. ms k = Some m \<and> wf_path q \<and> frm m mp q = Some f"
  by (auto simp: frm_of_def split: option.splits if_splits)

lemma frm_of_other_level:
  assumes "vm_inv ms mp" "frm_of ms mp k q = Some h" "frm_of ms mp k' q' = Some f" "length q \<noteq> length q'"
  shows "h \<noteq> f"
  using assms vm_invD(6) by blast

lemma ownedI: "frm_of ms mp k q = Some f \<Longrightarrow> owned ms mp f"
  by (auto simp: owned_def)

lemma nframes_bound: "dev_ok mp \<Longrightarrow> nframes mp \<le> 8192"
  unfolding dev_ok_def nframes_def by (metis div_le_mono div_mult_self1_is_m zero_less_numeral)

text \<open>A walk only reads the tables on its way.\<close>

lemma frm_cong_le:
  assumes "\<And>p f j. p \<noteq> [] \<Longrightarrow> length p < n \<Longrightarrow> wf_path p \<Longrightarrow> frm m mp p = Some f \<Longrightarrow> j < 512 \<Longrightarrow>
      entry mp' f j = entry mp f j"
  shows "wf_path q \<Longrightarrow> length q \<le> n \<Longrightarrow> frm m mp' q = frm m mp q"
proof (induction q)
  case Nil
  then show ?case by simp
next
  case (Cons j p)
  show ?case
  proof (cases "p = []")
    case True
    then show ?thesis by simp
  next
    case False
    with Cons have IH: "frm m mp' p = frm m mp p" and wf: "wf_path p" "length p < n" "j < 512"
      by (auto dest: wf_path_ConsD wf_path_Cons_idx)
    show ?thesis
    proof (cases "frm m mp p")
      case None
      with IH False show ?thesis by simp
    next
      case (Some f)
      with assms [of p f j] wf False IH show ?thesis by simp
    qed
  qed
qed

lemma frm_cong:
  assumes "\<And>p f j. p \<noteq> [] \<Longrightarrow> length p \<le> 4 \<Longrightarrow> wf_path p \<Longrightarrow> frm m mp p = Some f \<Longrightarrow> j < 512 \<Longrightarrow>
      entry mp' f j = entry mp f j"
  shows "wf_path q \<Longrightarrow> frm m mp' q = frm m mp q"
  using assms by (intro frm_cong_le [where n = 5]) (auto simp: wf_path_def)

section \<open>Entering a frame into a table\<close>

lemma PRESENT_0 [simp]: "\<not> PAGING_PTE_PRESENT 0"
  by (simp add: PRESENT_bit)

text \<open>
  A new entry \<open>e\<close> for frame \<open>g\<close> at index \<open>j\<close> of the table at path \<open>p\<close>: afterwards exactly the path
  \<open>j # p\<close> reaches \<open>g\<close>. Below the last level the frame \<open>g\<close> is a table and has been cleared.
\<close>

lemma frm_set_entry:
  assumes f: "frm m mp p = Some f" and wf: "wf_path (j # p)" and pn: "p \<noteq> []"
    and e: "PAGING_PTE_PRESENT e" "unat (PAGING_PTE_FPN e) = g"
    and fresh: "\<not> PAGING_PTE_PRESENT (entry mp f j)"
    and inj: "\<And>q. wf_path q \<Longrightarrow> frm m mp q = Some f \<Longrightarrow> q = p"
    and g: "\<And>q. wf_path q \<Longrightarrow> frm m mp q \<noteq> Some g"
    and mp': "\<And>h i. i < 512 \<Longrightarrow> h \<noteq> g \<Longrightarrow> entry mp' h i = (if h = f \<and> i = j then e else entry mp h i)"
    and clear: "\<And>i. length p < 4 \<Longrightarrow> i < 512 \<Longrightarrow> entry mp' g i = 0"
  shows "wf_path q \<Longrightarrow> frm m mp' q = (if q = j # p then Some g else frm m mp q)"
proof (induction q)
  case Nil
  then show ?case by simp
next
  case (Cons i q)
  show ?case
  proof (cases "q = []")
    case True
    with pn show ?thesis by auto
  next
    case False
    have wq: "wf_path q" "i < 512" "length q \<le> 4"
      using Cons.prems False by (auto dest: wf_path_ConsD wf_path_Cons_idx simp: wf_path_def)
    have IH: "frm m mp' q = (if q = j # p then Some g else frm m mp q)"
      using wq Cons.IH by blast
    show ?thesis
    proof (cases "q = j # p")
      case True
      have "frm m mp q = None" using True f fresh pn by simp
      moreover have "entry mp' g i = 0" using True wq clear by simp
      ultimately show ?thesis using True IH False by simp
    next
      case q: False
      show ?thesis
      proof (cases "frm m mp q")
        case None
        then have "q \<noteq> p" using f by auto
        with None IH q False show ?thesis by auto
      next
        case (Some h)
        have "h \<noteq> g" using Some g wq by blast
        then have ent: "entry mp' h i = (if h = f \<and> i = j then e else entry mp h i)"
          using wq mp' by blast
        have "h = f \<longleftrightarrow> q = p" using Some f inj [OF wq(1)] by (metis option.inject)
        then have "entry mp' h i = (if i # q = j # p then e else entry mp h i)" using ent by simp
        moreover have "frm m mp' q = Some h" using IH q Some by simp
        ultimately show ?thesis using Some False e by (cases "i # q = j # p") auto
      qed
    qed
  qed
qed

lemma frm_set_dir:
  assumes j: "j < 512" "length (pgd m) = 512"
    and e: "PAGING_PTE_PRESENT e" "unat (PAGING_PTE_FPN e) = g"
    and fresh: "\<not> PAGING_PTE_PRESENT (pgd m ! j)"
    and g: "\<And>q. wf_path q \<Longrightarrow> frm m mp q \<noteq> Some g"
    and mp': "\<And>h i. i < 512 \<Longrightarrow> h \<noteq> g \<Longrightarrow> entry mp' h i = entry mp h i"
    and clear: "\<And>i. i < 512 \<Longrightarrow> entry mp' g i = 0"
  shows "wf_path q \<Longrightarrow> frm (m\<lparr>pgd := (pgd m)[j := e]\<rparr>) mp' q = (if q = [j] then Some g else frm m mp q)"
proof (induction q)
  case Nil
  then show ?case by simp
next
  case (Cons i q)
  show ?case
  proof (cases "q = []")
    case True
    with Cons.prems j e show ?thesis by (auto simp: nth_list_update_if dest: wf_path_Cons_idx)
  next
    case False
    have wq: "wf_path q" "i < 512"
      using Cons.prems False by (auto dest: wf_path_ConsD wf_path_Cons_idx)
    have IH: "frm (m\<lparr>pgd := (pgd m)[j := e]\<rparr>) mp' q = (if q = [j] then Some g else frm m mp q)"
      using wq Cons.IH by blast
    show ?thesis
    proof (cases "q = [j]")
      case True
      then have "frm m mp q = None" using fresh by simp
      with True IH clear wq show ?thesis by simp
    next
      case q: False
      show ?thesis
      proof (cases "frm m mp q")
        case None
        with IH q False show ?thesis by simp
      next
        case (Some h)
        then have "h \<noteq> g" using g wq by blast
        with mp' wq Some IH q False show ?thesis by simp
      qed
    qed
  qed
qed

declare frm.simps [simp del]

text \<open>Adding one frame \<open>g\<close> at one path \<open>r\<close> of one process keeps the invariant.\<close>

lemma vm_inv_add:
  assumes inv: "vm_inv ms mp" and dev: "dev_ok mp'" "nframes mp' = nframes mp"
      "set (free_fp_list mp') \<subseteq> set (free_fp_list mp)"
    and m: "ms k = Some m" "length (pgd m') = 512"
    and new: "\<And>q. wf_path q \<Longrightarrow> frm m' mp' q = (if q = r then Some g else frm m mp q)"
    and oth: "\<And>k' m2 q. k' \<noteq> k \<Longrightarrow> ms k' = Some m2 \<Longrightarrow> wf_path q \<Longrightarrow> frm m2 mp' q = frm m2 mp q"
    and g: "g < nframes mp" "of_nat g \<notin> set (free_fp_list mp')" "\<not> owned ms mp g"
      "length r \<le> 4 \<longrightarrow> g \<noteq> 0" and r: "wf_path r"
  shows "vm_inv (ms(k \<mapsto> m')) mp'"
    and "frm_of (ms(k \<mapsto> m')) mp' k' q = (if k' = k \<and> q = r then Some g else frm_of ms mp k' q)"
proof -
  have F: "frm_of (ms(k \<mapsto> m')) mp' k' q = (if k' = k \<and> q = r then Some g else frm_of ms mp k' q)"
    for k' q
    using new [of q] oth [of k' _ q] m r by (auto simp: frm_of_def split: option.splits)
  then show "frm_of (ms(k \<mapsto> m')) mp' k' q = (if k' = k \<and> q = r then Some g else frm_of ms mp k' q)" .
  have no_g: "frm_of ms mp k' q \<noteq> Some g" for k' q using g(3) by (auto simp: owned_def)
  show "vm_inv (ms(k \<mapsto> m')) mp'"
    unfolding vm_inv_def
  proof (intro conjI allI impI)
    show "dev_ok mp'" by fact
  next
    fix k' m2 assume "(ms(k \<mapsto> m')) k' = Some m2"
    then show "length (pgd m2) = 512" using m vm_invD(2) [OF inv] by (auto split: if_splits)
  next
    fix k' q f assume A: "frm_of (ms(k \<mapsto> m')) mp' k' q = Some f"
    show "f < nframes mp'" "of_nat f \<notin> set (free_fp_list mp')"
      using A g dev vm_invD(3,4) [OF inv] by (auto simp: F split: if_splits)
    show "f \<noteq> 0" if "length q \<le> 4"
      using A that g vm_invD(5) [OF inv] by (auto simp: F split: if_splits)
  next
    fix k1 q1 k2 q2 f
    assume "frm_of (ms(k \<mapsto> m')) mp' k1 q1 = Some f \<and> frm_of (ms(k \<mapsto> m')) mp' k2 q2 = Some f"
    then show "k1 = k2" "q1 = q2"
      using vm_invD(6) [OF inv] no_g by (auto simp: F split: if_splits)
  qed
qed

section \<open>Extension of the translation\<close>

text \<open>
  What a walk that creates tables may change: it adds tables taken from the free list, and
  leaves every last-level entry and every byte of a data page as it was.
\<close>

definition ext :: "maps \<Rightarrow> memphy_struct \<Rightarrow> maps \<Rightarrow> memphy_struct \<Rightarrow> bool" where
  "ext ms mp ms' mp' \<longleftrightarrow> vm_inv ms' mp' \<and>
     storage_sz mp' = storage_sz mp \<and> maxsz mp' = maxsz mp \<and> rdmflg mp' = rdmflg mp \<and>
     set (free_fp_list mp') \<subseteq> set (free_fp_list mp) \<and>
     (\<forall>k q f. frm_of ms mp k q = Some f \<longrightarrow> frm_of ms' mp' k q = Some f) \<and>
     (\<forall>k q f. frm_of ms' mp' k q = Some f \<longrightarrow> frm_of ms mp k q = Some f \<or>
        (length q \<le> 4 \<and> of_nat f \<in> set (free_fp_list mp))) \<and>
     (\<forall>k m. ms k = Some m \<longrightarrow> (\<exists>d. ms' k = Some (m\<lparr>pgd := d\<rparr>) \<and>
        (\<forall>q j. wf_path q \<and> length q = 4 \<and> j < 512 \<longrightarrow>
           leaf (m\<lparr>pgd := d\<rparr>) mp' q j = leaf m mp q j))) \<and>
     (\<forall>k q f a. frm_of ms mp k q = Some f \<and> length q = 5 \<and> a < 4096 \<longrightarrow>
        storage mp' (4096 * f + a) = storage mp (4096 * f + a))"

lemma pgd_id [simp]: "m\<lparr>pgd := pgd m\<rparr> = m"
  by (cases m) simp

lemma ext_refl: "vm_inv ms mp \<Longrightarrow> ext ms mp ms mp"
  unfolding ext_def by (metis pgd_id order_refl)

lemma extD:
  assumes "ext ms mp ms' mp'"
  shows "vm_inv ms' mp'" "storage_sz mp' = storage_sz mp" "maxsz mp' = maxsz mp" "rdmflg mp' = rdmflg mp"
    "set (free_fp_list mp') \<subseteq> set (free_fp_list mp)"
    "frm_of ms mp k q = Some f \<Longrightarrow> frm_of ms' mp' k q = Some f"
    "frm_of ms' mp' k q = Some f \<Longrightarrow> frm_of ms mp k q = Some f \<or>
        (length q \<le> 4 \<and> of_nat f \<in> set (free_fp_list mp))"
    "frm_of ms mp k q = Some f \<Longrightarrow> length q = 5 \<Longrightarrow> a < 4096 \<Longrightarrow>
        storage mp' (4096 * f + a) = storage mp (4096 * f + a)"
  using assms unfolding ext_def by blast+

lemma ext_mapE:
  assumes "ext ms mp ms' mp'" "ms k = Some m"
  obtains d where "ms' k = Some (m\<lparr>pgd := d\<rparr>)"
    "\<And>q j. wf_path q \<Longrightarrow> length q = 4 \<Longrightarrow> j < 512 \<Longrightarrow> leaf (m\<lparr>pgd := d\<rparr>) mp' q j = leaf m mp q j"
proof -
  have "\<forall>k m. ms k = Some m \<longrightarrow> (\<exists>d. ms' k = Some (m\<lparr>pgd := d\<rparr>) \<and>
        (\<forall>q j. wf_path q \<and> length q = 4 \<and> j < 512 \<longrightarrow>
           leaf (m\<lparr>pgd := d\<rparr>) mp' q j = leaf m mp q j))"
    using assms(1) unfolding ext_def by (elim conjE)
  from this [rule_format, OF assms(2)] obtain d where d: "ms' k = Some (m\<lparr>pgd := d\<rparr>)"
    "\<And>q j. wf_path q \<Longrightarrow> length q = 4 \<Longrightarrow> j < 512 \<Longrightarrow> leaf (m\<lparr>pgd := d\<rparr>) mp' q j = leaf m mp q j"
    by (elim exE conjE) metis
  show thesis by (rule that [OF d])
qed

lemma ext_trans:
  assumes a: "ext ms mp ms1 mp1" and b: "ext ms1 mp1 ms2 mp2"
  shows "ext ms mp ms2 mp2"
  unfolding ext_def
proof (intro conjI allI impI)
  show "vm_inv ms2 mp2" using extD(1) [OF b] .
  show "storage_sz mp2 = storage_sz mp" "maxsz mp2 = maxsz mp" "rdmflg mp2 = rdmflg mp"
    using extD(2-4) [OF a] extD(2-4) [OF b] by simp_all
  show "set (free_fp_list mp2) \<subseteq> set (free_fp_list mp)"
    using extD(5) [OF a] extD(5) [OF b] by blast
next
  fix k q f assume "frm_of ms mp k q = Some f"
  then show "frm_of ms2 mp2 k q = Some f" using extD(6) [OF a] extD(6) [OF b] by blast
next
  fix k q f assume "frm_of ms2 mp2 k q = Some f"
  then show "frm_of ms mp k q = Some f \<or> (length q \<le> 4 \<and> of_nat f \<in> set (free_fp_list mp))"
    using extD(7) [OF b] extD(7) [OF a] extD(5) [OF a] by blast
next
  fix k m assume m: "ms k = Some m"
  obtain d where d: "ms1 k = Some (m\<lparr>pgd := d\<rparr>)"
    "\<And>q j. wf_path q \<Longrightarrow> length q = 4 \<Longrightarrow> j < 512 \<Longrightarrow> leaf (m\<lparr>pgd := d\<rparr>) mp1 q j = leaf m mp q j"
    by (rule ext_mapE [OF a m]) blast
  obtain d2 where "ms2 k = Some (m\<lparr>pgd := d\<rparr>\<lparr>pgd := d2\<rparr>)"
    "\<And>q j. wf_path q \<Longrightarrow> length q = 4 \<Longrightarrow> j < 512 \<Longrightarrow>
       leaf (m\<lparr>pgd := d\<rparr>\<lparr>pgd := d2\<rparr>) mp2 q j = leaf (m\<lparr>pgd := d\<rparr>) mp1 q j"
    by (rule ext_mapE [OF b d(1)]) blast
  with d show "\<exists>d. ms2 k = Some (m\<lparr>pgd := d\<rparr>) \<and>
      (\<forall>q j. wf_path q \<and> length q = 4 \<and> j < 512 \<longrightarrow> leaf (m\<lparr>pgd := d\<rparr>) mp2 q j = leaf m mp q j)"
    by (intro exI [of _ d2]) simp
next
  fix k q f and x :: nat assume A: "frm_of ms mp k q = Some f \<and> length q = 5 \<and> x < 4096"
  then have f: "frm_of ms mp k q = Some f" "length q = 5" "x < 4096" by simp_all
  show "storage mp2 (4096 * f + x) = storage mp (4096 * f + x)"
    using extD(8) [OF a f] extD(8) [OF b extD(6) [OF a f(1)] f(2,3)] by simp
qed

section \<open>Entries for a frame\<close>

lemma take_bit_13_word: "unat (g::u64) < 8192 \<Longrightarrow> take_bit 13 g = g"
  by (simp add: word_unat_eq_iff unsigned_take_bit_eq take_bit_nat_eq_self)

lemma init_pte_online [pte_simps]:
  assumes "f \<noteq> 0" "unat f < 8192"
  shows "PAGING_PTE_PRESENT (snd (init_pte e 1 f 0 0 0 0))"
    and "PAGING_PTE_FPN (snd (init_pte e 1 f 0 0 0 0)) = f"
proof -
  show "PAGING_PTE_PRESENT (snd (init_pte e 1 f 0 0 0 0))"
    using assms(1) by (simp add: init_pte_def PRESENT_bit bit_SETVAL bit_CLRBIT bit_SETBIT bit_masks)
  have "PAGING_PTE_FPN (snd (init_pte e 1 f 0 0 0 0)) = take_bit 13 f"
    using assms(1)
    by (intro bit_word_eqI) (auto simp: init_pte_def bit_PTE_FPN bit_SETVAL bit_masks bit_simps)
  with assms(2) show "PAGING_PTE_FPN (snd (init_pte e 1 f 0 0 0 0)) = f"
    by (simp add: take_bit_13_word)
qed

lemma fpn_pte_bits [pte_simps]:
  "PAGING_PTE_PRESENT (fpn_pte f)" "\<not> PAGING_PTE_SWAPPED (fpn_pte f)"
  "PAGING_PTE_FPN (fpn_pte f) = take_bit 13 f"
proof -
  show "PAGING_PTE_PRESENT (fpn_pte f)" "\<not> PAGING_PTE_SWAPPED (fpn_pte f)"
    by (simp_all add: fpn_pte_def PRESENT_bit SWAPPED_bit bit_SETVAL bit_CLRBIT bit_SETBIT bit_masks)
  show "PAGING_PTE_FPN (fpn_pte f) = take_bit 13 f"
    by (intro bit_word_eqI) (auto simp: fpn_pte_def bit_PTE_FPN bit_SETVAL bit_masks bit_simps)
qed

section \<open>One level of the walk\<close>

lemma dev_ok_take:
  assumes "dev_ok mp" "same_bytes mp mp1" "free_fp_list mp1 = remove1 g (free_fp_list mp)"
  shows "dev_ok mp1"
  using assms(1,3)
  by (auto simp: dev_ok_def same_bytesD [OF assms(2)] dest!: subsetD [OF set_remove1_subset])

lemma dev_ok_mem [simp]:
  "dev_ok (set_entry mp f j v) = dev_ok mp" "dev_ok (clear_frame mp f) = dev_ok mp"
  by (simp_all add: dev_ok_def)

lemma free_frame:
  assumes "vm_inv ms mp" "g \<in> set (free_fp_list mp)"
  shows "unat g < nframes mp" "unat g < 8192" "\<not> owned ms mp (unat g)"
proof -
  have d: "dev_ok mp" using assms(1) by (rule vm_invD(1))
  then show "unat g < nframes mp" using assms(2) by (simp add: dev_ok_def)
  with nframes_bound [OF d] show "unat g < 8192" by simp
  show "\<not> owned ms mp (unat g)"
    using assms vm_invD(4) [OF assms(1)] by (fastforce simp: owned_def)
qed

text \<open>
  A new table \<open>g\<close> below the table \<open>f\<close> at path \<open>p\<close>: the invariant holds again and the translation
  is extended.
\<close>

lemma ext_new_table:
  assumes inv: "vm_inv ms mp" and m: "ms k = Some m" and p: "wf_path (j # p)" "p \<noteq> []" "length p \<le> 3"
    and f: "frm m mp p = Some f" and fresh: "\<not> PAGING_PTE_PRESENT (entry mp f j)"
    and g: "g \<in> set (free_fp_list mp)" "g \<noteq> 0"
    and mp1: "free_fp_list mp1 = remove1 g (free_fp_list mp)" "same_bytes mp mp1"
    and e: "PAGING_PTE_PRESENT e" "PAGING_PTE_FPN e = g"
    and mp': "mp' = clear_frame (set_entry mp1 f j e) (unat g)"
  shows "ext ms mp ms mp'" and "frm m mp' (j # p) = Some (unat g)"
proof -
  note gf = free_frame [OF inv g(1)]
  have j: "j < 512" using p(1) by (rule wf_path_Cons_idx)
  have wp: "wf_path p" using p by (simp add: wf_path_ConsD)
  have Ff: "frm_of ms mp k p = Some f" using m wp f by (rule frm_ofI)
  have not_g: "frm_of ms mp k' q \<noteq> Some (unat g)" for k' q
    using gf(3) by (auto simp: owned_def)
  then have fg: "f \<noteq> unat g" using Ff by blast
  have ent: "entry mp' h i = (if h = unat g then 0 else if h = f \<and> i = j then e else entry mp h i)"
    if "i < 512" for h i
    using that j by (auto simp: mp' mem_simps same_bytesD [OF mp1(2)])
  have new: "frm m mp' q = (if q = j # p then Some (unat g) else frm m mp q)" if "wf_path q" for q
  proof (rule frm_set_entry [OF f p(1,2) e(1) _ fresh _ _ _ _ that])
    show "unat (PAGING_PTE_FPN e) = unat g" by (simp add: e)
    show "q = p" if "wf_path q" "frm m mp q = Some f" for q
      using vm_invD(6) [OF inv frm_ofI [of ms k, OF m that] Ff] by simp
    show "frm m mp q \<noteq> Some (unat g)" if "wf_path q" for q
      using not_g [of k q] m that by (simp add: frm_of_def)
  qed (auto simp: ent)
  then show "frm m mp' (j # p) = Some (unat g)" using p(1) by simp
  have oth: "frm m2 mp' q = frm m2 mp q" if "k' \<noteq> k" "ms k' = Some m2" "wf_path q" for k' m2 q
  proof (rule frm_cong [OF _ that(3)])
    fix p' f' i
    assume "wf_path p'" "frm m2 mp p' = Some f'" "i < (512::nat)"
    moreover from this that have F': "frm_of ms mp k' p' = Some f'" by (intro frm_ofI)
    then have "f' \<noteq> f" using vm_invD(6) [OF inv F'] Ff that(1) by blast
    ultimately show "entry mp' f' i = entry mp f' i" using not_g F' by (auto simp: ent)
  qed
  have dev: "dev_ok mp'" "nframes mp' = nframes mp" "free_fp_list mp' = remove1 g (free_fp_list mp)"
    using dev_ok_take [OF vm_invD(1) [OF inv] mp1(2,1)] by (simp_all add: mp' mp1 same_bytesD [OF mp1(2)])
  have dist: "distinct (free_fp_list mp)" using vm_invD(1) [OF inv] by (simp add: dev_ok_def)
  have fresh_path: "frm m mp (j # p) = None" using f fresh p by (simp add: frm.simps)
  have ms: "ms(k \<mapsto> m) = ms" using m by auto
  note add = vm_inv_add [OF inv dev(1,2) _ m vm_invD(2) [OF inv m], of "j # p" "unat g", OF _ new oth gf(1) _ gf(3)
      _ p(1), unfolded ms]
  have add1: "vm_inv ms mp'"
    and F: "frm_of ms mp' k' q = (if k' = k \<and> q = j # p then Some (unat g) else frm_of ms mp k' q)" for k' q
    using add g dist p by (simp_all add: dev(3) set_remove1_subset unat_eq_zero)
  show "ext ms mp ms mp'"
    unfolding ext_def
  proof (intro conjI allI impI)
    show "vm_inv ms mp'" by fact
    show "storage_sz mp' = storage_sz mp" "maxsz mp' = maxsz mp" "rdmflg mp' = rdmflg mp"
      by (simp_all add: mp' same_bytesD [OF mp1(2)])
    show "set (free_fp_list mp') \<subseteq> set (free_fp_list mp)" by (simp add: dev(3) set_remove1_subset)
  next
    fix k' q h assume "frm_of ms mp k' q = Some h"
    moreover have "frm_of ms mp k (j # p) = None" using fresh_path m by (simp add: frm_of_def)
    ultimately show "frm_of ms mp' k' q = Some h" by (auto simp: F)
  next
    fix k' q h assume "frm_of ms mp' k' q = Some h"
    then show "frm_of ms mp k' q = Some h \<or> (length q \<le> 4 \<and> of_nat h \<in> set (free_fp_list mp))"
      using g p by (auto simp: F split: if_splits)
  next
    fix k' m2 assume m2: "ms k' = Some m2"
    have "leaf m2 mp' q i = leaf m2 mp q i" if "wf_path q" "length q = 4" "i < 512" for q i
    proof (cases "k' = k \<and> q = j # p")
      case True
      with that m m2 new fresh_path show ?thesis by (simp add: leaf_def ent)
    next
      case False
      then have same: "frm m2 mp' q = frm m2 mp q"
        using m m2 new [OF that(1)] oth [OF _ m2 that(1)] by (cases "k' = k") auto
      have "entry mp' h i = entry mp h i" if "frm m2 mp q = Some h" for h
      proof -
        have h: "frm_of ms mp k' q = Some h" using m2 \<open>wf_path q\<close> that by (rule frm_ofI)
        then have "h \<noteq> f"
          using frm_of_other_level [OF inv h Ff] \<open>length q = 4\<close> p(3) by simp
        with not_g h \<open>i < 512\<close> show ?thesis by (auto simp: ent)
      qed
      with same show ?thesis by (simp add: leaf_def split: option.splits)
    qed
    then show "\<exists>d. ms k' = Some (m2\<lparr>pgd := d\<rparr>) \<and> (\<forall>q i. wf_path q \<and> length q = 4 \<and> i < 512 \<longrightarrow>
        leaf (m2\<lparr>pgd := d\<rparr>) mp' q i = leaf m2 mp q i)"
      using m2 by (intro exI [of _ "pgd m2"]) simp
  next
    fix k' q h and a :: nat assume A: "frm_of ms mp k' q = Some h \<and> length q = 5 \<and> a < 4096"
    then have "h \<noteq> f" using frm_of_other_level [OF inv _ Ff, of k' q h] p(3) by simp
    moreover have "h \<noteq> unat g" using A not_g by blast
    ultimately show "storage mp' (4096 * h + a) = storage mp (4096 * h + a)"
      using A j by (auto simp: mp' clear_frame_def set_entry_def st64_def st_bytes_apply same_bytesD [OF mp1(2)])
  qed
qed

text \<open>The same for a new table entered into the directory of the process.\<close>

lemma ext_new_dir:
  assumes inv: "vm_inv ms mp" and m: "ms k = Some m" and j: "j < 512"
    and fresh: "\<not> PAGING_PTE_PRESENT (pgd m ! j)"
    and g: "g \<in> set (free_fp_list mp)" "g \<noteq> 0"
    and mp1: "free_fp_list mp1 = remove1 g (free_fp_list mp)" "same_bytes mp mp1"
    and e: "PAGING_PTE_PRESENT e" "PAGING_PTE_FPN e = g"
    and m': "m' = m\<lparr>pgd := (pgd m)[j := e]\<rparr>" and mp': "mp' = clear_frame mp1 (unat g)"
  shows "ext ms mp (ms(k \<mapsto> m')) mp'" and "frm m' mp' [j] = Some (unat g)"
proof -
  note gf = free_frame [OF inv g(1)]
  have len: "length (pgd m) = 512" using vm_invD(2) [OF inv m] .
  have wj: "wf_path [j]" using j by (simp add: wf_path_def)
  have not_g: "frm_of ms mp k' q \<noteq> Some (unat g)" for k' q
    using gf(3) by (auto simp: owned_def)
  have ent: "entry mp' h i = (if h = unat g then 0 else entry mp h i)" if "i < 512" for h i
    using that by (auto simp: mp' mem_simps same_bytesD [OF mp1(2)])
  have new: "frm m' mp' q = (if q = [j] then Some (unat g) else frm m mp q)" if "wf_path q" for q
    unfolding m'
  proof (rule frm_set_dir [OF j len e(1) _ fresh _ _ _ that])
    show "unat (PAGING_PTE_FPN e) = unat g" by (simp add: e)
    show "frm m mp q \<noteq> Some (unat g)" if "wf_path q" for q
      using not_g [of k q] m that by (simp add: frm_of_def)
  qed (auto simp: ent)
  then show "frm m' mp' [j] = Some (unat g)" using wj by simp
  have oth: "frm m2 mp' q = frm m2 mp q" if "ms k' = Some m2" "wf_path q" for k' m2 q
  proof (rule frm_cong [OF _ that(2)])
    fix p' f' i
    assume A: "wf_path p'" "frm m2 mp p' = Some f'" "i < (512::nat)"
    with that have "frm_of ms mp k' p' = Some f'" by (intro frm_ofI)
    with not_g A show "entry mp' f' i = entry mp f' i" by (auto simp: ent)
  qed
  have dev: "dev_ok mp'" "nframes mp' = nframes mp" "free_fp_list mp' = remove1 g (free_fp_list mp)"
    using dev_ok_take [OF vm_invD(1) [OF inv] mp1(2,1)] by (simp_all add: mp' mp1 same_bytesD [OF mp1(2)])
  have dist: "distinct (free_fp_list mp)" using vm_invD(1) [OF inv] by (simp add: dev_ok_def)
  have fresh_path: "frm m mp [j] = None" using fresh by (simp add: frm.simps)
  have len': "length (pgd m') = 512" by (simp add: m' len)
  note add = vm_inv_add [OF inv dev(1,2) _ m len', of "[j]" "unat g", OF _ new oth gf(1) _ gf(3)
      _ wj]
  have add1: "vm_inv (ms(k \<mapsto> m')) mp'"
    and F: "frm_of (ms(k \<mapsto> m')) mp' k' q =
      (if k' = k \<and> q = [j] then Some (unat g) else frm_of ms mp k' q)" for k' q
    using add g dist by (simp_all add: dev(3) set_remove1_subset unat_eq_zero)
  show "ext ms mp (ms(k \<mapsto> m')) mp'"
    unfolding ext_def
  proof (intro conjI allI impI)
    show "vm_inv (ms(k \<mapsto> m')) mp'" by fact
    show "storage_sz mp' = storage_sz mp" "maxsz mp' = maxsz mp" "rdmflg mp' = rdmflg mp"
      by (simp_all add: mp' same_bytesD [OF mp1(2)])
    show "set (free_fp_list mp') \<subseteq> set (free_fp_list mp)" by (simp add: dev(3) set_remove1_subset)
  next
    fix k' q h assume "frm_of ms mp k' q = Some h"
    moreover have "frm_of ms mp k [j] = None" using fresh_path m by (simp add: frm_of_def)
    ultimately show "frm_of (ms(k \<mapsto> m')) mp' k' q = Some h" by (auto simp: F)
  next
    fix k' q h assume "frm_of (ms(k \<mapsto> m')) mp' k' q = Some h"
    then show "frm_of ms mp k' q = Some h \<or> (length q \<le> 4 \<and> of_nat h \<in> set (free_fp_list mp))"
      using g by (auto simp: F split: if_splits)
  next
    fix k' m2 assume m2: "ms k' = Some m2"
    define m3 where "m3 = (if k' = k then m' else m2)"
    have "leaf m3 mp' q i = leaf m2 mp q i" if q: "wf_path q" "length q = 4" "i < 512" for q i
    proof -
      have same: "frm m3 mp' q = frm m2 mp q"
        using q m m2 new [OF q(1)] oth [OF m2 q(1)] by (auto simp: m3_def)
      have "entry mp' h i = entry mp h i" if "frm m2 mp q = Some h" for h
        using not_g [of k' q] frm_ofI [of ms k', OF m2 q(1) that] q(3) by (auto simp: ent)
      with same show ?thesis by (simp add: leaf_def split: option.splits)
    qed
    moreover have "m3 = m2\<lparr>pgd := pgd m3\<rparr>" using m m2 by (auto simp: m3_def m')
    moreover have "(ms(k \<mapsto> m')) k' = Some m3" using m2 by (simp add: m3_def)
    ultimately show "\<exists>d. (ms(k \<mapsto> m')) k' = Some (m2\<lparr>pgd := d\<rparr>) \<and>
        (\<forall>q i. wf_path q \<and> length q = 4 \<and> i < 512 \<longrightarrow> leaf (m2\<lparr>pgd := d\<rparr>) mp' q i = leaf m2 mp q i)"
      by (intro exI [of _ "pgd m3"]) metis
  next
    fix k' q h and a :: nat assume A: "frm_of ms mp k' q = Some h \<and> length q = 5 \<and> a < 4096"
    then have "h \<noteq> unat g" using not_g by blast
    then show "storage mp' (4096 * h + a) = storage mp (4096 * h + a)"
      using A by (auto simp: mp' clear_frame_def same_bytesD [OF mp1(2)])
  qed
qed

lemma ensure_next_ok:
  assumes M: "memphy_ok M" and inv: "vm_inv ms mp" and m: "ms k = Some m"
    and p: "wf_path p" "length p \<le> 3" and t: "frm m mp p = Some (unat t)" and i: "unat i < 512"
    and nz: "0 \<notin> set (free_fp_list mp)"
  obtains (none) "ensure_next True M mp t i = Some (None, mp)" "free_fp_list mp = []"
    | (step) t' mp' where "ensure_next True M mp t i = Some (Some t', mp')" "ext ms mp ms mp'"
        "frm m mp' (unat i # p) = Some (unat t')" "length (free_fp_list mp) \<le> Suc (length (free_fp_list mp'))"
proof -
  have Ft: "frm_of ms mp k p = Some (unat t)" using m p(1) t by (rule frm_ofI)
  have tn: "unat t < nframes mp" using vm_invD(3) [OF inv Ft] .
  have ea: "entry_addr t i = 4096 * unat t + 8 * unat i" using frm_less [OF t] by (simp add: entry_addr_small)
  have wip: "wf_path (unat i # p)" "p \<noteq> []" using p i by (auto simp: wf_path_def)
  let ?e = "entry mp (unat t) (unat i)"
  show thesis
  proof (cases "PAGING_PTE_PRESENT ?e")
    case True
    then have "frm m mp (unat i # p) = Some (unat (PAGING_PTE_FPN ?e))"
      using t wip by (simp add: frm.simps)
    moreover have "ensure_next True M mp t i = Some (Some (PAGING_PTE_FPN ?e), mp)"
      using True tn i by (simp add: ensure_next_def ea load64_entry)
    ultimately show thesis using ext_refl [OF inv] by (intro step [of "PAGING_PTE_FPN ?e" mp]) auto
  next
    case False
    show thesis
    proof (cases rule: get_freefp_cases [OF M, of mp, case_names none frame])
      case (none r f)
      then show thesis using False tn i by (intro that(1)) (simp_all add: ensure_next_def ea load64_entry)
    next
      case (frame g mp1)
      note gf = free_frame [OF inv frame(2)]
      have g0: "g \<noteq> 0" using frame nz by auto
      let ?e' = "snd (init_pte ?e 1 g 0 0 0 0)"
      let ?mp' = "clear_frame (set_entry mp1 (unat t) (unat i) ?e') (unat g)"
      have tg: "unat t \<noteq> unat g" using Ft gf(3) by (auto simp: owned_def)
      have nf: "nframes mp1 = nframes mp" using frame(4) by (rule same_bytesD)
      note e' = init_pte_online [OF g0 gf(2), of ?e]
      have res: "ensure_next True M mp t i = Some (Some g, ?mp')"
        using False tn i gf tg frame(1) nf e'
        by (simp add: ensure_next_def ea load64_entry store64_entry zero_table_clear frame_base_small mem_simps)
      note new = ext_new_table [OF inv m wip p(2) t False frame(2) g0 frame(3,4) e' refl]
      show thesis by (rule step [OF res new]) (use frame in \<open>simp add: length_remove1\<close>)
    qed
  qed
qed

lemma ensure_pgd_ok:
  assumes M: "memphy_ok M" and inv: "vm_inv ms mp" and m: "ms k = Some m" and i: "unat i < 512"
    and nz: "0 \<notin> set (free_fp_list mp)"
  obtains (none) "ensure_pgd True M m mp i = Some (None, m, mp)" "free_fp_list mp = []"
    | (step) t' m' mp' where "ensure_pgd True M m mp i = Some (Some t', m', mp')"
        "ext ms mp (ms(k \<mapsto> m')) mp'" "frm m' mp' [unat i] = Some (unat t')"
        "length (free_fp_list mp) \<le> Suc (length (free_fp_list mp'))"
proof -
  have len: "length (pgd m) = 512" using vm_invD(2) [OF inv m] .
  let ?e = "pgd m ! unat i"
  have rd: "pgd_read m i = Some ?e" using i len by (simp add: pgd_read_def)
  show thesis
  proof (cases "PAGING_PTE_PRESENT ?e")
    case True
    then have "ensure_pgd True M m mp i = Some (Some (PAGING_PTE_FPN ?e), m, mp)"
      "frm m mp [unat i] = Some (unat (PAGING_PTE_FPN ?e))"
      by (simp_all add: ensure_pgd_def rd frm.simps)
    moreover have "ms(k \<mapsto> m) = ms" using m by auto
    ultimately show thesis using ext_refl [OF inv] by (intro step [of "PAGING_PTE_FPN ?e" m mp]) auto
  next
    case False
    show thesis
    proof (cases rule: get_freefp_cases [OF M, of mp, case_names none frame])
      case (none r f)
      then show thesis using False by (intro that(1)) (simp_all add: ensure_pgd_def rd)
    next
      case (frame g mp1)
      note gf = free_frame [OF inv frame(2)]
      have g0: "g \<noteq> 0" using frame nz by auto
      let ?e' = "snd (init_pte ?e 1 g 0 0 0 0)"
      let ?m' = "m\<lparr>pgd := (pgd m)[unat i := ?e']\<rparr>"
      let ?mp' = "clear_frame mp1 (unat g)"
      have nf: "nframes mp1 = nframes mp" using frame(4) by (rule same_bytesD)
      note e' = init_pte_online [OF g0 gf(2), of ?e]
      have "pgd_read ?m' i = Some ?e'" using i len by (simp add: pgd_read_def)
      then have res: "ensure_pgd True M m mp i = Some (Some g, ?m', ?mp')"
        using False gf frame(1) nf e'
        by (simp add: ensure_pgd_def rd zero_table_clear frame_base_small)
      note new = ext_new_dir [OF inv m i False frame(2) g0 frame(3,4) e' refl refl]
      show thesis by (rule step [OF res new]) (use frame in \<open>simp add: length_remove1\<close>)
    qed
  qed
qed

section \<open>The whole walk\<close>

lemma ext_free0: "ext ms mp ms' mp' \<Longrightarrow> 0 \<notin> set (free_fp_list mp) \<Longrightarrow> 0 \<notin> set (free_fp_list mp')"
  using extD(5) by blast

text \<open>
  The walk below a table at path \<open>p\<close>: it ends at the table at path \<open>rev is @ p\<close>, or runs out of free
  frames; it takes at most one frame per level.
\<close>

lemma walk_next_ok:
  assumes M: "memphy_ok M" and m: "ms k = Some m"
  shows "vm_inv ms mp \<Longrightarrow> wf_path p \<Longrightarrow> length p + length is \<le> 4 \<Longrightarrow> frm m mp p = Some (unat t) \<Longrightarrow>
    (\<forall>i \<in> set is. unat i < 512) \<Longrightarrow> 0 \<notin> set (free_fp_list mp) \<Longrightarrow>
    \<exists>r mp'. walk_next True M mp t is = Some (r, mp') \<and> ext ms mp ms mp' \<and>
      (case r of None \<Rightarrow> length (free_fp_list mp) < length is
       | Some t' \<Rightarrow> frm m mp' (rev (map unat is) @ p) = Some (unat t') \<and>
           length (free_fp_list mp) \<le> length is + length (free_fp_list mp'))"
proof (induction "is" arbitrary: mp t p)
  case Nil
  then show ?case using ext_refl by auto
next
  case (Cons i "is")
  have p3: "length p \<le> 3" and i: "unat i < 512" using Cons.prems by auto
  show ?case
  proof (cases rule: ensure_next_ok [OF M Cons.prems(1) m Cons.prems(2) p3 Cons.prems(4) i Cons.prems(6),
        case_names none step])
    case none
    then show ?thesis using ext_refl [OF Cons.prems(1)] by auto
  next
    case (step t1 mp1)
    have "wf_path (unat i # p)" using Cons.prems(2) p3 i by (auto simp: wf_path_def)
    then obtain r mp' where w: "walk_next True M mp1 t1 is = Some (r, mp')" "ext ms mp1 ms mp'"
      "case r of None \<Rightarrow> length (free_fp_list mp1) < length is
       | Some t' \<Rightarrow> frm m mp' (rev (map unat is) @ unat i # p) = Some (unat t') \<and>
           length (free_fp_list mp1) \<le> length is + length (free_fp_list mp')"
      using Cons.IH [OF extD(1) [OF step(2)] _ _ step(3)] Cons.prems ext_free0 [OF step(2)] by auto
    have "walk_next True M mp t (i # is) = Some (r, mp')" using step w by simp
    moreover have "ext ms mp ms mp'" using ext_trans step w by blast
    ultimately show ?thesis using w(3) step(4) by (auto split: option.splits)
  qed
qed

definition pt_path :: "pd_t \<Rightarrow> nat list" where
  "pt_path d = [unat (pmd_idx d), unat (pud_idx d), unat (p4d_idx d), unat (pgd_idx d)]"

definition pd_ok :: "pd_t \<Rightarrow> bool" where
  "pd_ok d \<longleftrightarrow> unat (pgd_idx d) < 512 \<and> unat (p4d_idx d) < 512 \<and> unat (pud_idx d) < 512 \<and>
     unat (pmd_idx d) < 512 \<and> unat (pt_idx d) < 512"

lemma wf_pt_path: "pd_ok d \<Longrightarrow> wf_path (pt_path d) \<and> length (pt_path d) = 4"
  by (simp add: pd_ok_def pt_path_def wf_path_def)

lemma walk_alloc_ok:
  assumes M: "memphy_ok M" and inv: "vm_inv ms (mram k)" and m: "mm k = Some m" "ms i = Some m"
    and d: "pd_ok d" and nz: "0 \<notin> set (free_fp_list (mram k))"
  obtains (none) m' mp' where "walk_alloc True M k d = Some (None, k\<lparr>mm := Some m', mram := mp'\<rparr>)"
      "ext ms (mram k) (ms(i \<mapsto> m')) mp'" "length (free_fp_list (mram k)) < 4"
    | (mapped) t m' mp' where
      "walk_alloc True M k d = Some (Some (4096 * t + 8 * unat (pt_idx d)), k\<lparr>mm := Some m', mram := mp'\<rparr>)"
      "ext ms (mram k) (ms(i \<mapsto> m')) mp'" "frm m' mp' (pt_path d) = Some t"
proof -
  have i0: "unat (pgd_idx d) < 512" using d by (simp add: pd_ok_def)
  show thesis
  proof (cases rule: ensure_pgd_ok [OF M inv m(2) i0 nz, case_names none step])
    case n: none
    moreover have "ms(i \<mapsto> m) = ms" using m by auto
    ultimately show thesis using ext_refl [OF inv] m by (intro none [where m' = m and mp' = "mram k"]) (simp_all add: walk_alloc_def)
  next
    case (step t1 m1 mp1)
    let ?is = "[p4d_idx d, pud_idx d, pmd_idx d]"
    have wf: "wf_path [unat (pgd_idx d)]" using i0 by (simp add: wf_path_def)
    have "(ms(i \<mapsto> m1)) i = Some m1" by simp
    from walk_next_ok [OF M this extD(1) [OF step(2)] wf _ step(3) _ ext_free0 [OF step(2) nz], of ?is] d
    have "\<exists>r mp'. walk_next True M mp1 t1 ?is = Some (r, mp') \<and> ext (ms(i \<mapsto> m1)) mp1 (ms(i \<mapsto> m1)) mp' \<and>
      (case r of None \<Rightarrow> length (free_fp_list mp1) < length ?is
       | Some t' \<Rightarrow> frm m1 mp' (rev (map unat ?is) @ [unat (pgd_idx d)]) = Some (unat t') \<and>
           length (free_fp_list mp1) \<le> length ?is + length (free_fp_list mp'))"
      by (simp only: pd_ok_def list.set) simp
    then obtain r mp' where w: "walk_next True M mp1 t1 ?is = Some (r, mp')"
      "ext (ms(i \<mapsto> m1)) mp1 (ms(i \<mapsto> m1)) mp'"
      "case r of None \<Rightarrow> length (free_fp_list mp1) < length ?is
       | Some t' \<Rightarrow> frm m1 mp' (rev (map unat ?is) @ [unat (pgd_idx d)]) = Some (unat t') \<and>
           length (free_fp_list mp1) \<le> length ?is + length (free_fp_list mp')"
      by blast
    have e: "ext ms (mram k) (ms(i \<mapsto> m1)) mp'" using ext_trans [OF step(2) w(2)] .
    show thesis
    proof (cases r)
      case None
      then show thesis
        using step w m by (intro none [OF _ e]) (simp_all add: walk_alloc_def del: walk_next.simps)
    next
      case (Some t')
      then have f: "frm m1 mp' (pt_path d) = Some (unat t')" using w(3) by (simp add: pt_path_def)
      have "entry_addr t' (pt_idx d) = 4096 * unat t' + 8 * unat (pt_idx d)"
        using frm_less [OF f] by (rule entry_addr_small)
      then show thesis
        using Some step(1) w(1) m by (intro mapped [OF _ e f]) (simp add: walk_alloc_def del: walk_next.simps)
    qed
  qed
qed

section \<open>Page numbers\<close>

lemma unat_field: "unat (drop_bit l ((a::u64) AND GENMASK64 h l)) = unat a div 2 ^ l mod 2 ^ (h + 1 - l)"
  if "h < 64" "l \<le> h"
proof -
  have "drop_bit l (a AND GENMASK64 h l) = take_bit (h + 1 - l) (drop_bit l a)"
    using that by (intro bit_word_eqI) (auto simp: bit_simps bit_GENMASK64)
  then have "unat (drop_bit l (a AND GENMASK64 h l)) = take_bit (h + 1 - l) (drop_bit l (unat a))"
    by (simp only: unsigned_take_bit_eq unat_drop_bit_eq)
  then show ?thesis by (simp only: take_bit_eq_mod drop_bit_eq_div)
qed

lemma get_pd_from_address_ok: "fst (get_pd_from_address a) = 0" "pd_ok (snd (get_pd_from_address a))"
proof -
  have F: "unat (drop_bit l (a AND GENMASK64 h l)) < 512" if "h < 64" "h = l + 8" for h l
    using that by (simp only: unat_field) simp
  have lt: "unat (drop_bit 48 (a AND GENMASK64 56 48)) < 512"
    "unat (drop_bit 39 (a AND GENMASK64 47 39)) < 512" "unat (drop_bit 30 (a AND GENMASK64 38 30)) < 512"
    "unat (drop_bit 21 (a AND GENMASK64 29 21)) < 512" "unat (drop_bit 12 (a AND GENMASK64 20 12)) < 512"
    by (rule F; simp)+
  then show "fst (get_pd_from_address a) = 0"
    unfolding pd_from_address Let_def by (simp add: word_le_nat_alt linorder_not_le)
  show "pd_ok (snd (get_pd_from_address a))"
    using lt by (simp add: pd_from_address Let_def pd_ok_def)
qed

definition page_dir :: "addr_t \<Rightarrow> pd_t" where
  "page_dir pgn = snd (get_pd_from_pagenum pgn)"

lemma get_pd_from_pagenum_eq: "get_pd_from_pagenum pgn = (0, page_dir pgn)"
  by (metis get_pd_from_address_ok(1) pd_from_pagenum page_dir_def prod.collapse)

lemma pd_ok_page_dir [simp]: "pd_ok (page_dir pgn)"
  by (simp add: page_dir_def pd_from_pagenum get_pd_from_address_ok)

lemma page_dir_idx:
  "unat (pt_idx (page_dir pgn)) = unat pgn mod 512"
  "unat (pmd_idx (page_dir pgn)) = unat pgn div 512 mod 512"
  "unat (pud_idx (page_dir pgn)) = unat pgn div 512 ^ 2 mod 512"
  "unat (p4d_idx (page_dir pgn)) = unat pgn div 512 ^ 3 mod 512"
  "unat (pgd_idx (page_dir pgn)) = unat pgn div 512 ^ 4 mod 512"
proof -
  have "drop_bit (12 + l) (push_bit 12 pgn AND GENMASK64 (12 + l + 8) (12 + l)) = take_bit 9 (drop_bit l pgn)"
    if "l \<le> 36" for l
    using that by (intro bit_word_eqI) (auto simp: bit_simps bit_GENMASK64)
  then have F: "unat (drop_bit (12 + l) (push_bit 12 pgn AND GENMASK64 (12 + l + 8) (12 + l))) =
      unat pgn div 2 ^ l mod 512" if "l \<le> 36" for l
    using that by (simp only: unsigned_take_bit_eq unat_drop_bit_eq) (simp add: take_bit_eq_mod drop_bit_eq_div)
  show "unat (pt_idx (page_dir pgn)) = unat pgn mod 512"
    "unat (pmd_idx (page_dir pgn)) = unat pgn div 512 mod 512"
    "unat (pud_idx (page_dir pgn)) = unat pgn div 512 ^ 2 mod 512"
    "unat (p4d_idx (page_dir pgn)) = unat pgn div 512 ^ 3 mod 512"
    "unat (pgd_idx (page_dir pgn)) = unat pgn div 512 ^ 4 mod 512"
    using F [of 0] F [of 9] F [of 18] F [of 27] F [of 36]
    by (simp_all only: page_dir_def pd_from_pagenum pd_from_address Let_def snd_conv pd_t.simps)
      simp_all
qed

text \<open>Two page numbers below \<open>2 ^ 45\<close> with the same indices are equal.\<close>

definition page_path :: "addr_t \<Rightarrow> nat list" where
  "page_path pgn = unat (pt_idx (page_dir pgn)) # pt_path (page_dir pgn)"

lemma base_512:
  fixes n :: nat
  shows "n mod 512 ^ 5 = n mod 512 + 512 * (n div 512 mod 512) + 512 ^ 2 * (n div 512 ^ 2 mod 512) +
    512 ^ 3 * (n div 512 ^ 3 mod 512) + 512 ^ 4 * (n div 512 ^ 4 mod 512)"
proof -
  have step: "x mod 512 ^ Suc k = x mod 512 + 512 * (x div 512 mod 512 ^ k)" for x k :: nat
    using mod_mult2_eq [of x 512 "512 ^ k"] by simp
  have div: "n div 512 ^ k div 512 = n div 512 ^ Suc k" for k
    by (simp add: div_mult2_eq [symmetric] mult.commute)
  show ?thesis
    using step [of n 4] step [of "n div 512" 3] step [of "n div 512 ^ 2" 2] step [of "n div 512 ^ 3" 1]
      div [of 1] div [of 2] div [of 3]
    by simp
qed

lemma page_path_inject:
  assumes "unat p < 2 ^ 45" "unat q < 2 ^ 45"
  shows "page_path p = page_path q \<longleftrightarrow> p = q"
proof
  assume "page_path p = page_path q"
  then have "unat p mod 512 ^ 5 = unat q mod 512 ^ 5"
    unfolding page_path_def pt_path_def base_512 by (simp add: page_dir_idx)
  with assms show "p = q" by (simp add: word_unat_eq_iff)
qed simp

lemma wf_page_path: "wf_path (page_path pgn)" "length (page_path pgn) = 5"
  using pd_ok_page_dir [of pgn] by (auto simp: page_path_def pt_path_def pd_ok_def wf_path_def)

section \<open>Reading an entry\<close>

lemma next_table_frm:
  assumes "dev_ok mp" "PAGING_PTE_PRESENT e" "unat (PAGING_PTE_FPN e) < nframes mp"
  shows "next_table mp e = Some (PAGING_PTE_FPN e)"
proof -
  have small: "unat (PAGING_PTE_FPN e) < 8192" by (rule unat_PTE_FPN)
  have pos: "0 \<le> sint (maxsz mp)" using assms(1) by (simp add: dev_ok_def)
  have "unat (scast (maxsz mp) :: u64) = storage_sz mp"
  proof -
    have "sint (maxsz mp) < 2 ^ 31" using sint_lt [of "maxsz mp"] by simp
    moreover have "uint (scast (maxsz mp) :: u64) = sint (maxsz mp) mod 2 ^ 64"
      by (simp only: scast_eq uint_word_of_int) simp
    ultimately have "uint (scast (maxsz mp) :: u64) = sint (maxsz mp)" using pos by simp
    moreover have "sint (maxsz mp) = int (storage_sz mp)" using assms(1) by (simp add: dev_ok_def)
    ultimately show ?thesis by (simp only: unat_eq_nat_uint nat_int)
  qed
  moreover have "unat (PAGING_PTE_FPN e * of_nat PAGING_PAGESZ) = 4096 * unat (PAGING_PTE_FPN e)"
    using frame_base_small [OF small] by (simp add: frame_base_def)
  ultimately have "PAGING_PTE_FPN e * of_nat PAGING_PAGESZ < scast (maxsz mp)"
    using frame_inside [OF assms(3)] by (simp add: word_less_nat_alt)
  then show ?thesis using assms(2) by (simp add: next_table_def linorder_not_le)
qed

text \<open>
  The whole read walk: \<^verbatim>\<open>pte_get_entry\<close> returns the low 32 bits of the last-level entry,
  \<open>0\<close> where a table on the way is missing.
\<close>

lemma walk_read_Cons:
  assumes inv: "vm_inv ms mp" and m: "ms k = Some m" and q: "wf_path (j # p)" "length (j # p) \<le> 4"
    and e: "if p = [] then e = pgd m ! j else (\<exists>f. frm m mp p = Some f \<and> e = entry mp f j)"
    and i: "unat i < 512"
  shows "walk_read mp e (i # is) =
    (case frm m mp (j # p) of None \<Rightarrow> Some 0 | Some t \<Rightarrow> walk_read mp (entry mp t (unat i)) is)"
proof (cases "PAGING_PTE_PRESENT e")
  case True
  then have f: "frm m mp (j # p) = Some (unat (PAGING_PTE_FPN e))"
    using e by (auto simp: frm.simps split: if_splits)
  have n: "unat (PAGING_PTE_FPN e) < nframes mp"
    using vm_invD(3) [OF inv frm_ofI [of ms k, OF m q(1) f]] .
  note t = next_table_frm [OF vm_invD(1) [OF inv] True n]
  show ?thesis
    using f t load64_entry [OF n i] by (simp add: entry_addr_small unat_PTE_FPN)
next
  case False
  then have "frm m mp (j # p) = None" using e by (auto simp: frm.simps split: if_splits)
  with False show ?thesis by (simp add: next_table_def)
qed

lemma frm_append_None: "frm m mp p = None \<Longrightarrow> p \<noteq> [] \<Longrightarrow> frm m mp (q @ p) = None"
  by (induction q) (simp_all add: frm.simps)

lemma walk_read_path:
  assumes inv: "vm_inv ms mp" and m: "ms k = Some m"
  shows "wf_path (j # p) \<Longrightarrow> length is + length (j # p) \<le> 4 \<Longrightarrow>
    (if p = [] then e = pgd m ! j else (\<exists>f. frm m mp p = Some f \<and> e = entry mp f j)) \<Longrightarrow>
    (\<forall>i \<in> set (is @ [l]). unat i < 512) \<Longrightarrow>
    walk_read mp e (is @ [l]) = Some (leaf m mp (rev (map unat is) @ j # p) (unat l))"
proof (induction "is" arbitrary: e j p)
  case Nil
  then show ?case
    using walk_read_Cons [OF inv m, of j p e l "[]"] by (simp add: leaf_def split: option.splits)
next
  case (Cons i "is")
  have step: "walk_read mp e ((i # is) @ [l]) =
      (case frm m mp (j # p) of None \<Rightarrow> Some 0 | Some t \<Rightarrow> walk_read mp (entry mp t (unat i)) (is @ [l]))"
    using walk_read_Cons [OF inv m, of j p e i "is @ [l]"] Cons.prems by simp
  show ?case
  proof (cases "frm m mp (j # p)")
    case None
    then show ?thesis
      using step frm_append_None [of m mp "j # p" "rev (map unat is) @ [unat i]"]
      by (simp add: leaf_def del: walk_read.simps)
  next
    case (Some t)
    have "wf_path (unat i # j # p)" using Cons.prems by (auto simp: wf_path_def)
    then show ?thesis
      using Some step Cons.IH [of "unat i" "j # p" "entry mp t (unat i)"] Cons.prems
      by (simp del: walk_read.simps)
  qed
qed

lemma pte_get_entry_leaf:
  assumes inv: "vm_inv ms (mram k)" and m: "mm k = Some m" "ms i = Some m"
  shows "pte_get_entry k pgn =
    Some (ucast (leaf m (mram k) (pt_path (page_dir pgn)) (unat (pt_idx (page_dir pgn)))))"
proof -
  let ?d = "page_dir pgn"
  have d: "unat (pgd_idx ?d) < 512" "unat (p4d_idx ?d) < 512" "unat (pud_idx ?d) < 512"
    "unat (pmd_idx ?d) < 512" "unat (pt_idx ?d) < 512"
    using pd_ok_page_dir [of pgn] by (simp_all only: pd_ok_def)
  have rd: "pgd_read m (pgd_idx ?d) = Some (pgd m ! unat (pgd_idx ?d))"
    using d vm_invD(2) [OF inv m(2)] by (simp add: pgd_read_def)
  have "walk_read (mram k) (pgd m ! unat (pgd_idx ?d)) [p4d_idx ?d, pud_idx ?d, pmd_idx ?d, pt_idx ?d] =
      Some (leaf m (mram k) (pt_path ?d) (unat (pt_idx ?d)))"
    using walk_read_path [OF inv m(2), of "unat (pgd_idx ?d)" "[]" "[p4d_idx ?d, pud_idx ?d, pmd_idx ?d]"] d
    by (simp add: wf_path_def pt_path_def del: walk_read.simps)
  then show ?thesis using m rd by (simp add: pte_get_entry_def get_pd_from_pagenum_eq del: walk_read.simps)
qed

section \<open>Setting a last-level entry\<close>

text \<open>
  A last-level entry for the data frame \<open>g\<close>, which no walk reaches yet: exactly one path changes,
  no last-level entry but the one that is set, and no byte of a data page.
\<close>

lemma set_data_entry:
  assumes inv: "vm_inv ms mp" and m: "ms k = Some m" and p: "wf_path (j # p)" "length p = 4"
    and f: "frm m mp p = Some f"
    and g: "unat g < nframes mp" "g \<notin> set (free_fp_list mp)" "\<not> owned ms mp (unat g)"
    and e: "PAGING_PTE_PRESENT e" "PAGING_PTE_FPN e = g"
    and mp': "mp' = set_entry mp f j e"
  shows "vm_inv ms mp'"
    and "frm_of ms mp' k' q = (if k' = k \<and> q = j # p then Some (unat g) else frm_of ms mp k' q)"
    and "ms k' = Some m2 \<Longrightarrow> wf_path r \<Longrightarrow> length r = 4 \<Longrightarrow> i < 512 \<Longrightarrow>
      leaf m2 mp' r i = (if k' = k \<and> i # r = j # p then e else leaf m2 mp r i)"
    and "frm_of ms mp k' q = Some h \<Longrightarrow> length q = 5 \<Longrightarrow> a < 4096 \<Longrightarrow>
      storage mp' (4096 * h + a) = storage mp (4096 * h + a)"
proof -
  have j: "j < 512" using p(1) by (rule wf_path_Cons_idx)
  have wp: "wf_path p" "p \<noteq> []" using p by (auto simp: wf_path_def)
  have Ff: "frm_of ms mp k p = Some f" using m wp(1) f by (rule frm_ofI)
  have ent: "entry mp' h i = (if h = f \<and> i = j then e else entry mp h i)" if "i < 512" for h i
    using that j by (auto simp: mp' mem_simps)
  have f_path: "k' = k \<and> q = p" if "ms k' = Some m2" "wf_path q" "frm m2 mp q = Some f" for k' m2 q
    using vm_invD(6) [OF inv frm_ofI [of ms k', OF that] Ff] .
  have low: "frm m2 mp' q = frm m2 mp q" if "ms k' = Some m2" "wf_path q" "length q \<le> 4" for k' m2 q
  proof (rule frm_cong_le [OF _ that(2,3)])
    fix p' h i assume A: "length p' < 4" "wf_path p'" "frm m2 mp p' = Some h" "i < (512::nat)"
    then have "h \<noteq> f" using f_path [OF that(1) A(2)] p(2) by auto
    with A show "entry mp' h i = entry mp h i" by (simp add: ent)
  qed
  have leaf: "leaf m2 mp' r i = (if k' = k \<and> i # r = j # p then e else leaf m2 mp r i)"
    if "ms k' = Some m2" "wf_path r" "length r = 4" "i < 512" for k' m2 r i
  proof (cases "frm m2 mp r")
    case None
    with low that m f show ?thesis by (auto simp: leaf_def)
  next
    case (Some h)
    have "h = f \<longleftrightarrow> k' = k \<and> r = p" using f_path [OF that(1,2)] Some f m that(1) by auto
    with Some low [OF that(1,2)] that show ?thesis by (auto simp: leaf_def ent)
  qed
  then show "ms k' = Some m2 \<Longrightarrow> wf_path r \<Longrightarrow> length r = 4 \<Longrightarrow> i < 512 \<Longrightarrow>
      leaf m2 mp' r i = (if k' = k \<and> i # r = j # p then e else leaf m2 mp r i)" .
  have five: "frm m2 mp' q = (if k' = k \<and> q = j # p then Some (unat g) else frm m2 mp q)"
    if "ms k' = Some m2" and wq: "wf_path q" for k' m2 q
  proof (cases "length q \<le> 4")
    case True
    with low that p(2) show ?thesis by auto
  next
    case False
    then have "length q = Suc 4" using wq by (simp add: wf_path_def)
    then obtain i r where q: "q = i # r" "length r = 4" by (cases q) auto
    then have q': "wf_path r" "i < 512" using wq by (auto simp: wf_path_def)
    have fr: "frm m2 mpx q = (if PAGING_PTE_PRESENT (leaf m2 mpx r i)
        then Some (unat (PAGING_PTE_FPN (leaf m2 mpx r i))) else None)" for mpx
      using q by (auto simp: frm.simps leaf_def split: option.splits)
    show ?thesis
      using leaf [OF that(1) q'(1) q(2) q'(2)] q e fr [of mp] fr [of mp'] by (auto split: if_splits)
  qed
  have ms: "ms(k \<mapsto> m) = ms" using m by auto
  have dev: "dev_ok mp'" "nframes mp' = nframes mp" "free_fp_list mp' = free_fp_list mp"
    using vm_invD(1) [OF inv] by (simp_all add: mp')
  have new: "frm m mp' q = (if q = j # p then Some (unat g) else frm m mp q)" if "wf_path q" for q
    using five [OF m that] by simp
  note add = vm_inv_add [OF inv dev(1,2) _ m vm_invD(2) [OF inv m], of "j # p" "unat g", OF _ new _ g(1) _ g(3)
      _ p(1), unfolded ms]
  show "vm_inv ms mp'" using add(1) five g p by (simp add: dev)
  show "frm_of ms mp' k' q = (if k' = k \<and> q = j # p then Some (unat g) else frm_of ms mp k' q)"
    using add(2) five g p by (simp add: dev)
  assume A: "frm_of ms mp k' q = Some h" "length q = 5" "a < 4096"
  then have "h \<noteq> f" using frm_of_other_level [OF inv A(1) Ff] p(2) by simp
  with A(3) j show "storage mp' (4096 * h + a) = storage mp (4096 * h + a)"
    by (auto simp: mp' set_entry_def st64_def st_bytes_apply)
qed

text \<open>
  \<open>grows ms mp ms' mp' N\<close>: frames are only added, the data frames at most at the paths \<open>N\<close>, and
  the bytes of every data page stay.
\<close>

definition grows ::
  "maps \<Rightarrow> memphy_struct \<Rightarrow> maps \<Rightarrow> memphy_struct \<Rightarrow> (nat \<times> nat list) set \<Rightarrow> bool" where
  "grows ms mp ms' mp' N \<longleftrightarrow> vm_inv ms' mp' \<and>
     storage_sz mp' = storage_sz mp \<and> maxsz mp' = maxsz mp \<and> rdmflg mp' = rdmflg mp \<and>
     set (free_fp_list mp') \<subseteq> set (free_fp_list mp) \<and>
     (\<forall>k q f. frm_of ms mp k q = Some f \<longrightarrow> (k, q) \<notin> N \<longrightarrow> frm_of ms' mp' k q = Some f) \<and>
     (\<forall>k q. length q = 5 \<longrightarrow> (k, q) \<notin> N \<longrightarrow> frm_of ms' mp' k q = frm_of ms mp k q) \<and>
     (\<forall>k q f a. frm_of ms mp k q = Some f \<and> length q = 5 \<and> a < 4096 \<longrightarrow>
        storage mp' (4096 * f + a) = storage mp (4096 * f + a))"

lemma growsD:
  assumes "grows ms mp ms' mp' N"
  shows "vm_inv ms' mp'" "storage_sz mp' = storage_sz mp" "maxsz mp' = maxsz mp" "rdmflg mp' = rdmflg mp"
    "set (free_fp_list mp') \<subseteq> set (free_fp_list mp)"
    "frm_of ms mp k q = Some f \<Longrightarrow> (k, q) \<notin> N \<Longrightarrow> frm_of ms' mp' k q = Some f"
    "length q = 5 \<Longrightarrow> (k, q) \<notin> N \<Longrightarrow> frm_of ms' mp' k q = frm_of ms mp k q"
    "frm_of ms mp k q = Some f \<Longrightarrow> length q = 5 \<Longrightarrow> a < 4096 \<Longrightarrow>
        storage mp' (4096 * f + a) = storage mp (4096 * f + a)"
  using assms unfolding grows_def by blast+

lemma grows_refl: "vm_inv ms mp \<Longrightarrow> grows ms mp ms mp N"
  by (simp add: grows_def)

lemma ext_grows:
  assumes "ext ms mp ms' mp'"
  shows "grows ms mp ms' mp' {}"
proof -
  have "frm_of ms' mp' k q = frm_of ms mp k q" if "length q = 5" for k q
  proof (cases "frm_of ms mp k q")
    case None
    then show ?thesis
      using extD(7) [OF assms, of k q] that by (cases "frm_of ms' mp' k q") auto
  next
    case (Some f)
    then show ?thesis using extD(6) [OF assms] by simp
  qed
  then show ?thesis using extD [OF assms] unfolding grows_def by blast
qed

lemma ext_not_owned:
  assumes "ext ms mp ms' mp'" "\<not> owned ms mp (unat g)" "g \<notin> set (free_fp_list mp)"
  shows "\<not> owned ms' mp' (unat g)"
  using extD(7) [OF assms(1)] assms(2,3) by (fastforce simp: owned_def)

lemma frm_page_leaf:
  "frm m mp (page_path pgn) =
     (let e = leaf m mp (pt_path (page_dir pgn)) (unat (pt_idx (page_dir pgn)))
      in if PAGING_PTE_PRESENT e then Some (unat (PAGING_PTE_FPN e)) else None)"
  by (auto simp: page_path_def frm.simps leaf_def pt_path_def Let_def split: option.splits)

text \<open>
  \<^verbatim>\<open>pte_set_fpn\<close> for a frame that no walk reaches and that is not free: it fails only
  where fewer than four frames are free, and then changes no translation; otherwise exactly
  the entry of its page is set.
\<close>

lemma pte_set_fpn_ok:
  assumes M: "memphy_ok M" and inv: "vm_inv ms (mram k)" and m: "mm k = Some m" "ms i = Some m"
    and nz: "0 \<notin> set (free_fp_list (mram k))"
    and g: "unat g < nframes (mram k)" "g \<notin> set (free_fp_list (mram k))" "\<not> owned ms (mram k) (unat g)"
  obtains (fail) d mp' where
      "pte_set_fpn M k pgn g = Some (-1, k\<lparr>mm := Some (m\<lparr>pgd := d\<rparr>), mram := mp'\<rparr>)"
      "ext ms (mram k) (ms(i \<mapsto> m\<lparr>pgd := d\<rparr>)) mp'" "length (free_fp_list (mram k)) < 4"
    | (mapped) d mp' where
      "pte_set_fpn M k pgn g = Some (0, k\<lparr>mm := Some (m\<lparr>pgd := d\<rparr>), mram := mp'\<rparr>)"
      "grows ms (mram k) (ms(i \<mapsto> m\<lparr>pgd := d\<rparr>)) mp' {(i, page_path pgn)}"
      "frm_of (ms(i \<mapsto> m\<lparr>pgd := d\<rparr>)) mp' i (page_path pgn) = Some (unat g)"
      "\<And>q j. wf_path q \<Longrightarrow> length q = 4 \<Longrightarrow> j < 512 \<Longrightarrow> leaf (m\<lparr>pgd := d\<rparr>) mp' q j =
         (if j # q = page_path pgn then fpn_pte g else leaf m (mram k) q j)"
proof -
  let ?d = "page_dir pgn"
  have shape: "\<exists>d. m' = m\<lparr>pgd := d\<rparr> \<and> (\<forall>q j. wf_path q \<longrightarrow> length q = 4 \<longrightarrow> j < 512 \<longrightarrow>
      leaf m' mp' q j = leaf m (mram k) q j)" if "ext ms (mram k) (ms(i \<mapsto> m')) mp'" for m' mp'
    by (rule ext_mapE [OF that m(2)]) auto
  show thesis
  proof (cases rule: walk_alloc_ok [OF M inv m pd_ok_page_dir nz, of pgn, case_names none mapped])
    case (none m' mp')
    moreover from shape [OF none(2)] obtain d where "m' = m\<lparr>pgd := d\<rparr>" by blast
    ultimately show thesis
      using m by (intro fail [where d = d and mp' = mp'])
        (simp_all add: pte_set_fpn_def get_pd_from_pagenum_eq ensure_pte_mapping_def)
  next
    case W: (mapped t m' mp')
    from shape [OF W(2)] obtain d where d: "m' = m\<lparr>pgd := d\<rparr>"
      and leaves: "\<And>q j. wf_path q \<Longrightarrow> length q = 4 \<Longrightarrow> j < 512 \<Longrightarrow> leaf m' mp' q j = leaf m (mram k) q j"
      by blast
    let ?ms' = "ms(i \<mapsto> m')"
    have E: "nframes mp' = nframes (mram k)" "g \<notin> set (free_fp_list mp')" "\<not> owned ?ms' mp' (unat g)"
      using extD(2,5) [OF W(2)] g(2) ext_not_owned [OF W(2) g(3,2)] by (auto simp: nframes_def)
    have inv': "vm_inv ?ms' mp'" using extD(1) [OF W(2)] .
    have mi: "?ms' i = Some m'" by simp
    have pp: "wf_path (page_path pgn)" "page_path pgn = unat (pt_idx ?d) # pt_path ?d" "length (pt_path ?d) = 4"
      by (rule wf_page_path(1)) (simp_all add: page_path_def wf_pt_path)
    have j: "unat (pt_idx ?d) < 512" using pp(1,2) wf_path_Cons_idx by simp
    have tn: "t < nframes mp'"
      using vm_invD(3) [OF inv' frm_ofI [of ?ms' i, OF mi _ W(3)]] wf_pt_path by simp
    let ?mp2 = "set_entry mp' t (unat (pt_idx ?d)) (fpn_pte g)"
    have g13: "take_bit 13 g = g"
      using g(1) nframes_bound [OF vm_invD(1) [OF inv]] by (intro take_bit_13_word) simp
    have gn: "unat g < nframes mp'" using g(1) E(1) by simp
    note S = set_data_entry [OF inv' mi pp(1) [unfolded pp(2)] pp(3) W(3) gn E(2,3) fpn_pte_bits(1)
        fpn_pte_bits(3) [of g, unfolded g13] refl, folded pp(2)]
    have res: "pte_set_fpn M k pgn g = Some (0, k\<lparr>mm := Some m', mram := ?mp2\<rparr>)"
      using m W(1) tn j
      by (simp add: pte_set_fpn_def get_pd_from_pagenum_eq ensure_pte_mapping_def store64_entry)
    have "grows ms (mram k) ?ms' ?mp2 {(i, page_path pgn)}"
      unfolding grows_def
    proof (intro conjI allI impI)
      show "vm_inv ?ms' ?mp2" by (rule S(1))
      show "storage_sz ?mp2 = storage_sz (mram k)" "maxsz ?mp2 = maxsz (mram k)"
        "rdmflg ?mp2 = rdmflg (mram k)" "set (free_fp_list ?mp2) \<subseteq> set (free_fp_list (mram k))"
        using extD(2-5) [OF W(2)] by simp_all
      show "frm_of ?ms' ?mp2 k' q = Some f"
        if "frm_of ms (mram k) k' q = Some f" "(k', q) \<notin> {(i, page_path pgn)}" for k' q f
        using S(2) extD(6) [OF W(2) that(1)] that(2) by auto
      show "frm_of ?ms' ?mp2 k' q = frm_of ms (mram k) k' q"
        if "length q = 5" "(k', q) \<notin> {(i, page_path pgn)}" for k' q
        using S(2) growsD(7) [OF ext_grows [OF W(2)] that(1)] that(2) by auto
      show "storage ?mp2 (4096 * f + a) = storage (mram k) (4096 * f + a)"
        if "frm_of ms (mram k) k' q = Some f \<and> length q = 5 \<and> a < 4096" for k' q f a
        using that S(4) [OF extD(6) [OF W(2)]] extD(8) [OF W(2)] by metis
    qed
    moreover have "frm_of ?ms' ?mp2 i (page_path pgn) = Some (unat g)" using S(2) by simp
    moreover have "leaf m' ?mp2 q j = (if j # q = page_path pgn then fpn_pte g else leaf m (mram k) q j)"
      if "wf_path q" "length q = 4" "j < 512" for q j
      using S(3) [OF mi that] leaves [OF that] by simp
    ultimately show thesis using mapped res unfolding d by blast
  qed
qed

end
