(* ===== verification/Device.thy ===== *)
theory Device
  imports PageTable
begin

unbundle bit_operations_syntax

text \<open>
  An instance of the device operations: free frames are taken from and put back at the head of
  the free list, and bytes are accessed in place. It shows that the contract \<open>memphy_ok\<close> that
  stands for the missing \<^verbatim>\<open>mm-memphy.c\<close> can be met; the concrete devices and processes on
  which the theorems about memory are evaluated are defined here too.
\<close>

section \<open>Operations on the head of the free list\<close>

definition list_get_freefp :: "memphy_struct \<Rightarrow> int \<times> addr_t \<times> memphy_struct" where
  "list_get_freefp mp =
     (case free_fp_list mp of [] \<Rightarrow> (-1, 0, mp) | f # fs \<Rightarrow> (0, f, mp\<lparr>free_fp_list := fs\<rparr>))"

definition list_put_freefp :: "memphy_struct \<Rightarrow> addr_t \<Rightarrow> int \<times> memphy_struct" where
  "list_put_freefp mp f = (0, mp\<lparr>free_fp_list := f # free_fp_list mp\<rparr>)"

definition ram_read :: "memphy_struct \<Rightarrow> addr_t \<Rightarrow> int \<times> byte \<times> memphy_struct" where
  "ram_read mp a =
     (if unat a < storage_sz mp then (0, storage mp (unat a), mp) else (-1, 0, mp))"

definition ram_write :: "memphy_struct \<Rightarrow> addr_t \<Rightarrow> byte \<Rightarrow> int \<times> memphy_struct" where
  "ram_write mp a v =
     (if unat a < storage_sz mp then (0, mp\<lparr>storage := (storage mp)(unat a := v)\<rparr>) else (-1, mp))"

definition list_ops :: memphy_ops where
  "list_ops = \<lparr>MEMPHY_get_freefp = list_get_freefp, MEMPHY_put_freefp = list_put_freefp,
     MEMPHY_read = ram_read, MEMPHY_write = ram_write\<rparr>"

lemma list_ops_ok: "memphy_ok list_ops"
  by (auto simp: memphy_ok_def get_ok_def put_ok_def read_ok_def write_ok_def list_ops_def
      list_get_freefp_def list_put_freefp_def ram_read_def ram_write_def same_bytes_def
      split: list.splits)

section \<open>A concrete device and a fresh process\<close>

definition demo_ram :: memphy_struct where
  "demo_ram = \<lparr>storage = (\<lambda>_. 0), storage_sz = 40960, maxsz = 40960, rdmflg = 1, cursor = 0,
     free_fp_list = [1, 2, 3, 4, 5, 6, 7, 8], used_fp_list = []\<rparr>"

definition demo_mm :: mm_struct where
  "demo_mm = snd (init_mm [])"

definition demo_krnl :: krnl_t where
  "demo_krnl = \<lparr>k_ready_queue = None, k_running_list = None, k_mlq_ready_queue = None,
     mm = Some demo_mm, mram = demo_ram, active_mswp = demo_ram\<rparr>"

lemma demo_krnl_fields [simp]: "mm demo_krnl = Some demo_mm" "mram demo_krnl = demo_ram"
  "active_mswp demo_krnl = demo_ram"
  by (simp_all add: demo_krnl_def)

lemma demo_ram_fields [simp]:
  "storage_sz demo_ram = 40960" "rdmflg demo_ram = 1" "free_fp_list demo_ram = [1, 2, 3, 4, 5, 6, 7, 8]"
  "nframes demo_ram = 10" "storage demo_ram a = 0"
  by (simp_all add: demo_ram_def nframes_def)

lemma demo_ram_ok: "dev_ok demo_ram"
  by (simp add: dev_ok_def demo_ram_def nframes_def)

section \<open>Processes without pages\<close>

text \<open>A process with an empty directory reaches no frame; adding one keeps the invariant.\<close>

lemma frm_empty: "pgd m = replicate 512 0 \<Longrightarrow> wf_path q \<Longrightarrow> frm m mp q = None"
proof (induction q)
  case (Cons j p)
  then show ?case by (cases "p = []") (auto simp: frm.simps wf_path_def)
qed (simp add: frm.simps)

lemma frm_of_new_process:
  assumes "ms k = None" "pgd m = replicate 512 0"
  shows "frm_of (ms(k \<mapsto> m)) mp = frm_of ms mp"
  using assms frm_empty by (intro HOL.ext) (simp add: frm_of_def)

lemma vm_inv_new_process:
  assumes "vm_inv ms mp" "ms k = None" "pgd m = replicate 512 0"
  shows "vm_inv (ms(k \<mapsto> m)) mp"
  using assms(1,3) unfolding vm_inv_def frm_of_new_process [of ms k, OF assms(2,3)] by auto

lemma vm_inv_no_process: "dev_ok mp \<Longrightarrow> vm_inv Map.empty mp"
  by (simp add: vm_inv_def frm_of_def)

lemma pgd_init_mm [simp]: "pgd (snd (init_mm junk)) = replicate 512 0"
  by (simp add: init_mm_def Let_def)

definition demo_maps :: maps where
  "demo_maps = [0 \<mapsto> demo_mm]"

lemma demo_maps_inv: "vm_inv demo_maps demo_ram"
  unfolding demo_maps_def
  by (rule vm_inv_new_process) (simp_all add: demo_mm_def vm_inv_no_process demo_ram_ok)

lemma demo_not_owned [simp]: "\<not> owned demo_maps mp f"
  unfolding owned_def demo_maps_def using frm_empty [of demo_mm]
  by (auto simp: frm_of_def demo_mm_def split: option.splits if_splits)

section \<open>The page table as a map from page numbers to frames\<close>

text \<open>
  C16 (set_page_then_get): with four frames free and frame 0 not among them, \<^verbatim>\<open>pte_set_fpn\<close>
  succeeds for any page number and any frame that is neither free nor reachable; afterwards
  \<^verbatim>\<open>pte_get_entry\<close> returns the entry made for that frame, its number can be read back from the
  entry, the entry of every other page of the process is unchanged, and the invariant of
  all processes over the device holds again.
\<close>

theorem set_page_then_get:
  assumes M: "memphy_ok M" and inv: "vm_inv ms (mram k)" and m: "mm k = Some m" "ms i = Some m"
    and free: "0 \<notin> set (free_fp_list (mram k))" "4 \<le> length (free_fp_list (mram k))"
    and g: "unat g < nframes (mram k)" "g \<notin> set (free_fp_list (mram k))" "\<not> owned ms (mram k) (unat g)"
    and pgn: "unat pgn < 2 ^ 45"
  shows "\<exists>k' m'. pte_set_fpn M k pgn g = Some (0, k') \<and> mm k' = Some m' \<and> vm_inv (ms(i \<mapsto> m')) (mram k') \<and>
    (\<exists>e. pte_get_entry k' pgn = Some e \<and> PAGING_PTE_PRESENT (ucast e) \<and>
       \<not> PAGING_PTE_SWAPPED (ucast e) \<and> PAGING_PTE_FPN (ucast e) = g) \<and>
    (\<forall>pgn'. unat pgn' < 2 ^ 45 \<and> pgn' \<noteq> pgn \<longrightarrow> pte_get_entry k' pgn' = pte_get_entry k pgn')"
proof (cases rule: pte_set_fpn_ok [OF M inv m free(1) g, of pgn, case_names fail mapped])
  case (fail d mp')
  with free(2) show ?thesis by simp
next
  case (mapped d mp')
  let ?m' = "m\<lparr>pgd := d\<rparr>"
  let ?k' = "k\<lparr>mm := Some ?m', mram := mp'\<rparr>"
  have inv': "vm_inv (ms(i \<mapsto> ?m')) (mram ?k')" using growsD(1) [OF mapped(2)] by simp
  have get: "pte_get_entry ?k' p = Some (ucast (if p = pgn then fpn_pte g
      else leaf m (mram k) (pt_path (page_dir p)) (unat (pt_idx (page_dir p)))))" if "unat p < 2 ^ 45" for p
  proof -
    have "unat (pt_idx (page_dir p)) < 512" using pd_ok_page_dir [of p] by (simp only: pd_ok_def)
    then show ?thesis
      using pte_get_entry_leaf [OF inv', of ?m' i p] mapped(4) wf_pt_path [OF pd_ok_page_dir, of p]
        page_path_inject [OF that pgn]
      by (auto simp: page_path_def)
  qed
  have g13: "take_bit 13 g = g"
    using g(1) nframes_bound [OF vm_invD(1) [OF inv]] by (intro take_bit_13_word) simp
  have up: "bit (ucast (ucast (fpn_pte g) :: u32) :: u64) n = bit (fpn_pte g) n" if "n \<le> 31" for n
    using that by (simp add: bit_simps)
  have "PAGING_PTE_FPN (ucast (ucast (fpn_pte g) :: u32)) = PAGING_PTE_FPN (fpn_pte g)"
    by (rule bit_word_eqI) (use up in \<open>auto simp: bit_PTE_FPN\<close>)
  then have "PAGING_PTE_PRESENT (ucast (ucast (fpn_pte g) :: u32))"
    "\<not> PAGING_PTE_SWAPPED (ucast (ucast (fpn_pte g) :: u32))"
    "PAGING_PTE_FPN (ucast (ucast (fpn_pte g) :: u32)) = g"
    using up fpn_pte_bits [of g] g13 by (simp_all add: PRESENT_bit SWAPPED_bit)
  then show ?thesis
    using mapped(1) inv' get get [OF pgn] pte_get_entry_leaf [OF inv m]
    by (intro exI [of _ ?k'] exI [of _ ?m']) auto
qed

theorem set_page_then_get_witness:
  "memphy_ok list_ops \<and> vm_inv demo_maps (mram demo_krnl) \<and>
   (\<exists>k' e. pte_set_fpn list_ops demo_krnl 5 9 = Some (0, k') \<and>
      pte_get_entry k' 5 = Some e \<and> PAGING_PTE_FPN (ucast e) = 9)"
proof -
  have "\<exists>k' m'. pte_set_fpn list_ops demo_krnl 5 9 = Some (0, k') \<and> mm k' = Some m' \<and>
      vm_inv (demo_maps(0 \<mapsto> m')) (mram k') \<and>
      (\<exists>e. pte_get_entry k' 5 = Some e \<and> PAGING_PTE_PRESENT (ucast e) \<and>
         \<not> PAGING_PTE_SWAPPED (ucast e) \<and> PAGING_PTE_FPN (ucast e) = 9) \<and>
      (\<forall>pgn'. unat pgn' < 2 ^ 45 \<and> pgn' \<noteq> 5 \<longrightarrow> pte_get_entry k' pgn' = pte_get_entry demo_krnl pgn')"
    by (rule set_page_then_get [OF list_ops_ok, of demo_maps demo_krnl demo_mm 0 9 5])
      (simp_all add: demo_maps_inv, simp add: demo_maps_def)
  then show ?thesis using list_ops_ok demo_maps_inv by auto
qed

text \<open>
  The directory indices of a page number are always accepted, are below
  512, and put together in base 512 give back every page number below \<open>2 ^ 45\<close>, so
  different pages have different paths.
\<close>

theorem page_number_split:
  "case get_pd_from_pagenum pgn of (r, d) \<Rightarrow> r = 0 \<and> unat (pgd_idx d) < 512 \<and> unat (p4d_idx d) < 512 \<and>
     unat (pud_idx d) < 512 \<and> unat (pmd_idx d) < 512 \<and> unat (pt_idx d) < 512 \<and>
     unat (pt_idx d) + 512 * unat (pmd_idx d) + 512 ^ 2 * unat (pud_idx d) +
       512 ^ 3 * unat (p4d_idx d) + 512 ^ 4 * unat (pgd_idx d) = unat pgn mod 2 ^ 45"
proof -
  have "(2::nat) ^ 45 = 512 ^ 5" by simp
  then have "unat (pt_idx (page_dir pgn)) + 512 * unat (pmd_idx (page_dir pgn)) +
      512 ^ 2 * unat (pud_idx (page_dir pgn)) + 512 ^ 3 * unat (p4d_idx (page_dir pgn)) +
      512 ^ 4 * unat (pgd_idx (page_dir pgn)) = unat pgn mod 2 ^ 45"
    by (simp only: base_512 page_dir_idx)
  moreover have "pd_ok (page_dir pgn)" by simp
  ultimately show ?thesis by (simp only: get_pd_from_pagenum_eq pd_ok_def prod.case)
qed

section \<open>Copying and allocating frames\<close>

lemma unat_page_byte:
  assumes "f < 2 ^ 51" "i < 4096"
  shows "unat (of_nat f * of_nat PAGING_PAGESZ + of_nat i :: addr_t) = 4096 * f + i"
proof -
  have "(of_nat f * of_nat PAGING_PAGESZ + of_nat i :: addr_t) = of_nat (4096 * f + i)"
    by (simp add: PAGING_PAGESZ_def mult.commute)
  moreover have "4096 * f + i < 2 ^ 64" using assms by simp
  ultimately show ?thesis by (simp only: unat_of_nat) simp
qed

text \<open>The bytes of a device after its frame \<open>g\<close> has received frame \<open>f\<close> of \<open>src\<close> from byte \<open>i\<close> on.\<close>

definition copied :: "memphy_struct \<Rightarrow> nat \<Rightarrow> memphy_struct \<Rightarrow> nat \<Rightarrow> nat \<Rightarrow> memphy_struct" where
  "copied src f dst g i = dst\<lparr>storage := (\<lambda>a. if 4096 * g + i \<le> a \<and> a < 4096 * g + 4096
     then storage src (4096 * f + (a - 4096 * g)) else storage dst a)\<rparr>"

lemma swap_cp_loop_copied:
  assumes M: "memphy_ok M" and f: "f < nframes src" "f < 2 ^ 51" and g: "g < 2 ^ 51" and src: "rdmflg src \<noteq> 0"
  shows "g < nframes dst \<Longrightarrow> rdmflg dst \<noteq> 0 \<Longrightarrow> i \<le> 4096 \<Longrightarrow>
    swap_cp_loop M src (of_nat f) dst (of_nat g) i = (src, copied src f dst g i)"
proof (induction "4096 - i" arbitrary: i dst)
  case 0
  then have "copied src f dst g i = dst" by (auto simp: copied_def fun_eq_iff intro!: memphy_struct.equality)
  with 0 show ?case by (subst swap_cp_loop.simps) (simp add: PAGING_PAGESZ_def)
next
  case (Suc n)
  then have i: "i < 4096" by simp
  have rd: "MEMPHY_read M src (of_nat f * of_nat PAGING_PAGESZ + of_nat i) = (0, storage src (4096 * f + i), src)"
    using M src i frame_inside [OF f(1)] unat_page_byte [OF f(2) i]
    unfolding memphy_ok_def read_ok_def by simp
  let ?dst = "dst\<lparr>storage := (storage dst)(4096 * g + i := storage src (4096 * f + i))\<rparr>"
  have wr: "MEMPHY_write M dst (of_nat g * of_nat PAGING_PAGESZ + of_nat i) (storage src (4096 * f + i)) = (0, ?dst)"
    using M Suc.prems i frame_inside [OF Suc.prems(1)] unat_page_byte [OF g i]
    unfolding memphy_ok_def write_ok_def by simp
  have "swap_cp_loop M src (of_nat f) ?dst (of_nat g) (Suc i) = (src, copied src f ?dst g (Suc i))"
    using Suc.prems i by (intro Suc.hyps(1)) (use Suc.hyps(2) in \<open>simp_all add: nframes_def\<close>)
  moreover have "copied src f ?dst g (Suc i) = copied src f dst g i"
    using i by (auto simp: copied_def fun_eq_iff intro!: memphy_struct.equality)
  ultimately show ?case
    using rd wr i by (subst swap_cp_loop.simps) (simp add: PAGING_PAGESZ_def)
qed

lemma swap_cp_page_copied:
  assumes "memphy_ok M" "rdmflg src \<noteq> 0" "rdmflg dst \<noteq> 0" "unat f < nframes src" "unat g < nframes dst"
    "unat f < 2 ^ 51" "unat g < 2 ^ 51"
  shows "swap_cp_page M src f dst g = (0, src, copied src (unat f) dst (unat g) 0)"
  using swap_cp_loop_copied [of M "unat f" src "unat g" dst 0] assms by (simp add: swap_cp_page_def)

text \<open>
  Copying a page between two random-access devices returns 0, leaves the
  source device as it was, gives the target frame exactly the bytes of the source frame and
  changes no other byte of the target device.
\<close>

theorem swap_copies_frame:
  assumes "memphy_ok M" "rdmflg src \<noteq> 0" "rdmflg dst \<noteq> 0" "unat f < nframes src" "unat g < nframes dst"
    "unat f < 2 ^ 51" "unat g < 2 ^ 51"
  shows "\<exists>dst'. swap_cp_page M src f dst g = (0, src, dst') \<and>
    (\<forall>a < 4096. storage dst' (4096 * unat g + a) = storage src (4096 * unat f + a)) \<and>
    (\<forall>a. a div 4096 \<noteq> unat g \<longrightarrow> storage dst' a = storage dst a) \<and>
    free_fp_list dst' = free_fp_list dst \<and> storage_sz dst' = storage_sz dst"
proof -
  have "swap_cp_page M src f dst g = (0, src, copied src (unat f) dst (unat g) 0)"
    using assms by (rule swap_cp_page_copied)
  moreover have "a div 4096 = unat g" if "4096 * unat g \<le> a" "a < 4096 * unat g + 4096" for a
    using that by (intro div_nat_eqI) simp_all
  ultimately show ?thesis
    by (intro exI [of _ "copied src (unat f) dst (unat g) 0"]) (auto simp: copied_def)
qed

theorem swap_copies_frame_witness:
  "memphy_ok list_ops \<and> unat (2::addr_t) < nframes demo_ram \<and> unat (3::addr_t) < nframes demo_ram \<and>
   (\<exists>dst'. swap_cp_page list_ops (demo_ram\<lparr>storage := (\<lambda>a. of_nat a)\<rparr>) 2 demo_ram 3 =
        (0, demo_ram\<lparr>storage := (\<lambda>a. of_nat a)\<rparr>, dst') \<and>
      storage dst' (4096 * 3 + 77) = of_nat (4096 * 2 + 77))"
proof -
  let ?src = "demo_ram\<lparr>storage := (\<lambda>a. of_nat a)\<rparr>"
  have "nframes ?src = 10" by (simp add: nframes_def)
  then have "\<exists>dst'. swap_cp_page list_ops ?src 2 demo_ram 3 = (0, ?src, dst') \<and>
    (\<forall>a < 4096. storage dst' (4096 * unat (3::addr_t) + a) = storage ?src (4096 * unat (2::addr_t) + a)) \<and>
    (\<forall>a. a div 4096 \<noteq> unat (3::addr_t) \<longrightarrow> storage dst' a = storage demo_ram a) \<and>
    free_fp_list dst' = free_fp_list demo_ram \<and> storage_sz dst' = storage_sz demo_ram"
    by (intro swap_copies_frame [OF list_ops_ok]) simp_all
  then obtain dst' where "swap_cp_page list_ops ?src 2 demo_ram 3 = (0, ?src, dst')"
    and "\<forall>a < 4096. storage dst' (4096 * unat (3::addr_t) + a) = storage ?src (4096 * unat (2::addr_t) + a)"
    by blast
  from this(1) this(2) [rule_format, of 77] show ?thesis
    using list_ops_ok by (intro conjI exI [of _ dst']) simp_all
qed

lemma same_bytes_trans: "same_bytes a b \<Longrightarrow> same_bytes b c \<Longrightarrow> same_bytes a c"
  by (simp add: same_bytes_def)

lemma alloc_pages_loop_frames:
  assumes M: "memphy_ok M"
  shows "alloc_pages_loop M mp n = (fs, mp') \<Longrightarrow> length fs = min n (length (free_fp_list mp)) \<and>
    mset fs + mset (free_fp_list mp') = mset (free_fp_list mp) \<and> same_bytes mp mp'"
proof (induction n arbitrary: mp fs mp')
  case 0
  then show ?case by (simp add: same_bytes_def)
next
  case (Suc n)
  show ?case
  proof (cases rule: get_freefp_cases [OF M, of mp, case_names none frame])
    case (none r f)
    with Suc.prems show ?thesis by (simp add: same_bytes_def)
  next
    case (frame f mp1)
    obtain fs2 mp2 where l: "alloc_pages_loop M mp1 n = (fs2, mp2)" by fastforce
    note IH = Suc.IH [OF l]
    have "fs = f # fs2" "mp' = mp2" using Suc.prems frame l by simp_all
    moreover have "length (free_fp_list mp) = Suc (length (free_fp_list mp1))"
      using frame(2,3) by (auto simp: length_remove1 dest: length_pos_if_in_set)
    moreover have "mset (free_fp_list mp) = add_mset f (mset (free_fp_list mp1))"
      using frame(2,3) by simp
    ultimately show ?thesis using IH same_bytes_trans [OF frame(4)] by auto
  qed
qed

text \<open>
  C28 (alloc_pages_takes_frames): \<^verbatim>\<open>alloc_pages_range\<close> takes as many frames as are asked for and
  free, moves exactly these out of the free list and changes no byte. Its status is \<open>0\<close> both where
  all frames were found and where none was, so the status alone does not tell the two apart.
\<close>

theorem alloc_pages_takes_frames:
  assumes "memphy_ok M" "0 \<le> sint req"
  shows "case alloc_pages_range M mp req of (r, fs, mp') \<Rightarrow>
    length fs = min (nat (sint req)) (length (free_fp_list mp)) \<and>
    mset fs + mset (free_fp_list mp') = mset (free_fp_list mp) \<and> same_bytes mp mp' \<and>
    (r = 0 \<longleftrightarrow> length fs = nat (sint req) \<or> fs = [])"
proof -
  obtain fs mp' where l: "alloc_pages_loop M mp (nat (sint req)) = (fs, mp')" by fastforce
  note F = alloc_pages_loop_frames [OF assms(1) l]
  have "sint req < 2 ^ 31" using sint_lt [of req] by simp
  moreover have "length fs \<le> nat (sint req)" using F by simp
  ultimately have "length fs < 2 ^ 64" by simp
  then have "unat (of_nat (length fs) :: addr_t) = length fs" by (simp only: unat_of_nat) simp
  then have "(of_nat (length fs) :: addr_t) = 0 \<longleftrightarrow> fs = []" by (metis length_0_conv unat_0 unat_eq_zero)
  then show ?thesis
    using l F assms(2) by (auto simp: alloc_pages_range_def)
qed

theorem alloc_pages_takes_frames_witness:
  "memphy_ok list_ops \<and> 0 \<le> sint (3::u32) \<and> fst (alloc_pages_range list_ops demo_ram 3) = 0 \<and>
   length (fst (snd (alloc_pages_range list_ops demo_ram 3))) = 3 \<and>
   fst (alloc_pages_range list_ops (demo_ram\<lparr>free_fp_list := []\<rparr>) 3) = 0"
  using alloc_pages_takes_frames [OF list_ops_ok, of 3 demo_ram]
    alloc_pages_takes_frames [OF list_ops_ok, of 3 "demo_ram\<lparr>free_fp_list := []\<rparr>"] list_ops_ok
  by (auto split: prod.splits)

end
