(* ===== verification/MmVm.thy ===== *)
theory MmVm
  imports Device
begin

unbundle bit_operations_syntax

text \<open>
  Virtual memory areas, \<^verbatim>\<open>src/src/mm-vm.c\<close>. An area is named by its position in the list
  \<^verbatim>\<open>mm->mmap\<close>, which stands for the pointer the code passes around.
\<close>

section \<open>Finding an area\<close>

fun vma_walk :: "vm_area_struct list \<Rightarrow> nat \<Rightarrow> int \<Rightarrow> int \<Rightarrow> nat option" where
  "vma_walk [] pos vmait vmaid = None"
| "vma_walk (v # vs) pos vmait vmaid =
     (if vmait < vmaid then vma_walk vs (Suc pos) (vmait + 1) vmaid else Some pos)"

definition get_vma_by_num :: "mm_struct \<Rightarrow> int \<Rightarrow> nat option" where
  "get_vma_by_num m vmaid = (if mmap m = [] then None else vma_walk (mmap m) 0 0 vmaid)"

lemma vma_walk_eq:
  "vma_walk vs pos it n = (if nat (n - it) < length vs then Some (pos + nat (n - it)) else None)"
  by (induction vs pos it n rule: vma_walk.induct) (auto simp: nat_diff_distrib Suc_diff_Suc nat_less_iff)

lemma get_vma_by_num_eq:
  "get_vma_by_num m n = (if nat n < length (mmap m) then Some (nat n) else None)"
  by (auto simp: get_vma_by_num_def vma_walk_eq)

section \<open>Swapping and area limits\<close>

definition mm_swap_page :: "memphy_ops \<Rightarrow> krnl_t \<Rightarrow> addr_t \<Rightarrow> addr_t \<Rightarrow> int \<times> krnl_t" where
  "mm_swap_page M k vicfpn swpfpn =
     (case swap_cp_page M (mram k) vicfpn (active_mswp k) swpfpn of (r, src, dst) \<Rightarrow>
        (r, k\<lparr>mram := src, active_mswp := dst\<rparr>))"

text \<open>\<^verbatim>\<open>malloc\<close> succeeds; the result \<open>None\<close> inside the option is \<^verbatim>\<open>NULL\<close>.\<close>

definition get_vm_area_node_at_brk ::
  "krnl_t \<Rightarrow> int \<Rightarrow> addr_t \<Rightarrow> addr_t \<Rightarrow> vm_rg_struct option option" where
  "get_vm_area_node_at_brk k vmaid sz alignedsz = do {
     m \<leftarrow> mm k;
     (case get_vma_by_num m vmaid of
        None \<Rightarrow> Some None
      | Some v \<Rightarrow>
          (let cur_vma = mmap m ! v in
           if sbrk cur_vma + sz > vm_end cur_vma then Some None
           else Some (Some \<lparr>rg_start = sbrk cur_vma, rg_end = sbrk cur_vma + sz\<rparr>))) }"

definition OVERLAP :: "addr_t \<Rightarrow> addr_t \<Rightarrow> addr_t \<Rightarrow> addr_t \<Rightarrow> bool" where
  "OVERLAP x1 x2 y1 y2 = False"

fun overlap_walk :: "vm_area_struct list \<Rightarrow> nat \<Rightarrow> nat \<Rightarrow> vm_area_struct \<Rightarrow> bool" where
  "overlap_walk [] pos cur cur_area = False"
| "overlap_walk (v # vs) pos cur cur_area =
     (if pos \<noteq> cur \<and> OVERLAP (vm_start cur_area) (vm_end cur_area) (vm_start v) (vm_end v) then True
      else overlap_walk vs (Suc pos) cur cur_area)"

definition validate_overlap_vm_area :: "krnl_t \<Rightarrow> int \<Rightarrow> addr_t \<Rightarrow> addr_t \<Rightarrow> int option" where
  "validate_overlap_vm_area k vmaid vmastart vmaend =
     (if vmastart \<ge> vmaend then Some (-1)
      else do {
        m \<leftarrow> mm k;
        (if mmap m = [] then Some (-1)
         else case get_vma_by_num m vmaid of
           None \<Rightarrow> Some (-1)
         | Some v \<Rightarrow> Some (if overlap_walk (mmap m) 0 v (mmap m ! v) then -1 else 0)) })"

text \<open>
  \<^verbatim>\<open>inc_vma_limit\<close> moves \<^verbatim>\<open>vm_end\<close> by the size rounded up to whole pages. The test
  \<^verbatim>\<open>vm_map_ram(..) < 0\<close> compares an unsigned value with 0.
\<close>

definition page_align :: "addr_t \<Rightarrow> addr_t" where
  "page_align sz = (sz + of_nat PAGING_PAGESZ - 1) AND NOT (of_nat PAGING_PAGESZ - 1)"

definition inc_vma_limit :: "memphy_ops \<Rightarrow> krnl_t \<Rightarrow> int \<Rightarrow> addr_t \<Rightarrow> (int \<times> krnl_t) option" where
  "inc_vma_limit M k vmaid inc_sz =
     (case mm k of None \<Rightarrow> Some (-1, k) | Some m \<Rightarrow>
     (case get_vma_by_num m vmaid of None \<Rightarrow> Some (-1, k) | Some v \<Rightarrow> do {
        let mm64_inc_sz = page_align inc_sz;
        let old_limit = vm_end (mmap m ! v);
        let new_limit = old_limit + mm64_inc_sz;
        let incnumpage = (ucast (mm64_inc_sz div of_nat PAGING_PAGESZ) :: u32);
        (r, ret_rg, k1) \<leftarrow> vm_map_ram M k old_limit new_limit old_limit incnumpage;
        if r < 0 then Some (-1, k1)
        else do {
          m1 \<leftarrow> mm k1;
          Some (0, k1\<lparr>mm := Some (m1\<lparr>mmap := (mmap m1)[v := (mmap m1 ! v)\<lparr>vm_end := new_limit\<rparr>]\<rparr>)\<rparr>) } }))"

section \<open>What growing an area does\<close>

lemma page_align_nat:
  assumes "unat sz < 2 ^ 63"
  shows "unat (page_align sz) = (unat sz + 4095) div 4096 * 4096"
proof -
  have "(sz + 4095) AND NOT 4095 = push_bit 12 (drop_bit 12 (sz + 4095))"
  proof (rule bit_word_eqI)
    fix n assume n: "n < LENGTH(64)"
    have "bit (4095 :: u64) n = bit (mask 12 :: u64) n" by (simp add: mask_eq_exp_minus_1)
    then show "bit ((sz + 4095) AND NOT 4095) n = bit (push_bit 12 (drop_bit 12 (sz + 4095))) n"
      using n by (auto simp: bit_simps)
  qed
  moreover have "unat (sz + 4095) = unat sz + 4095"
    using assms by (simp add: unat_word_ariths)
  moreover have "unat (push_bit 12 (drop_bit 12 (x::u64))) = unat x div 4096 * 4096" for x
  proof -
    have "push_bit 12 (drop_bit 12 x) = x - take_bit 12 x"
      by (metis add_diff_cancel_right' bits_ident)
    moreover have "unat (take_bit 12 x) = unat x mod 4096"
      by (simp only: unsigned_take_bit_eq) (simp add: take_bit_eq_mod)
    moreover have "take_bit 12 x \<le> x" by (simp only: word_le_nat_alt calculation(2) mod_less_eq_dividend)
    ultimately show ?thesis by (simp add: unat_sub minus_mod_eq_div_mult)
  qed
  moreover have "page_align sz = (sz + 4095) AND NOT 4095"
    by (simp add: page_align_def PAGING_PAGESZ_def add.commute)
  ultimately show ?thesis by (simp only:)
qed

lemma page_align_bounds:
  assumes "unat sz < 2 ^ 63"
  shows "unat sz \<le> unat (page_align sz)" "unat (page_align sz) \<le> unat sz + 4095"
proof -
  have "n \<le> (n + 4095) div 4096 * 4096" "(n + 4095) div 4096 * 4096 \<le> n + 4095" for n :: nat by simp_all
  then show "unat sz \<le> unat (page_align sz)" "unat (page_align sz) \<le> unat sz + 4095"
    by (simp_all only: page_align_nat [OF assms])
qed

text \<open>No frame list reaches \<^verbatim>\<open>vmap_page_range\<close>, so \<^verbatim>\<open>vm_map_ram\<close> only computes a region.\<close>

lemma vm_map_ram_eq:
  "vm_map_ram M k astart aend mapstart n =
     (case int_pages (sint n) of None \<Rightarrow> None
      | Some len \<Rightarrow> Some (0, \<lparr>rg_start = mapstart, rg_end = mapstart + len\<rparr>, k))"
  by (simp add: vm_map_ram_def vmap_page_range_def split: option.splits bind_splits)

lemma inc_vma_limit_eq:
  assumes m: "mm k = Some m" and v: "get_vma_by_num m vmaid = Some v" and sz: "unat sz + 4095 < 2 ^ 31"
  shows "inc_vma_limit M k vmaid sz = Some (0, k\<lparr>mm := Some (m\<lparr>mmap :=
    (mmap m)[v := (mmap m ! v)\<lparr>vm_end := vm_end (mmap m ! v) + page_align sz\<rparr>]\<rparr>)\<rparr>)"
proof -
  let ?n = "ucast (page_align sz div of_nat PAGING_PAGESZ) :: u32"
  have "unat (page_align sz) \<le> unat sz + 4095" using sz by (intro page_align_bounds) simp
  then have "unat (page_align sz) div 4096 < 2 ^ 19" using sz by (simp add: less_mult_imp_div_less)
  moreover have "unat (page_align sz div of_nat PAGING_PAGESZ) = unat (page_align sz) div 4096"
    by (simp add: PAGING_PAGESZ_def unat_div)
  ultimately have n: "unat ?n < 2 ^ 19"
    by (simp only: unsigned_ucast_eq) (simp add: take_bit_nat_eq_self)
  have "unat ?n < 2 ^ 31" by (rule order_less_trans [OF n]) simp
  then have "sint ?n = int (unat ?n)" by (rule sint_eq_unat)
  then have "int_pages (sint ?n) = Some (of_int (int (unat ?n) * 4096))"
    using int_pow_bounds [OF n] by (simp only: int_pages_def if_True simp_thms)
  then show ?thesis using m v by (simp add: inc_vma_limit_def Let_def vm_map_ram_eq)
qed

end
