(* ===== verification/LibMem.thy ===== *)
theory LibMem
  imports MmVm
begin

unbundle bit_operations_syntax

text \<open>
  The memory library of a process, \<^verbatim>\<open>src/src/libmem.c\<close>, and the wrappers \<^verbatim>\<open>pgalloc\<close> and
  \<^verbatim>\<open>pgfree\<close> of \<^verbatim>\<open>src/src/mm-vm.c\<close>. The functions \<^verbatim>\<open>__alloc\<close>, \<^verbatim>\<open>__free\<close>, \<^verbatim>\<open>__read\<close> and
  \<^verbatim>\<open>__write\<close> are \<open>mm_alloc\<close>, \<open>mm_free\<close>, \<open>mm_read\<close> and \<open>mm_write\<close>. A value returned through a
  pointer is part of the result and meaningful where the status is \<open>0\<close>. The registers of a
  process are the list \<open>regs\<close>; an index outside it is undefined.
\<close>

section \<open>Regions\<close>

text \<open>
  A region that enters an empty free list keeps the \<^verbatim>\<open>rg_next\<close> it came with, here \<open>rg_next\<close>.
\<close>

definition enlist_vm_freerg_list ::
  "mm_struct \<Rightarrow> vm_rg_struct \<Rightarrow> vm_rg_struct list \<Rightarrow> (int \<times> mm_struct) option" where
  "enlist_vm_freerg_list m rg_elmt rg_next =
     (if rg_start rg_elmt \<ge> rg_end rg_elmt then Some (-1, m)
      else case mmap m of
        [] \<Rightarrow> None
      | v # vs \<Rightarrow>
          (let rest = (if vm_freerg_list v \<noteq> [] then vm_freerg_list v else rg_next)
           in Some (0, m\<lparr>mmap := v\<lparr>vm_freerg_list := rg_elmt # rest\<rparr> # vs\<rparr>)))"

definition get_symrg_byid :: "mm_struct \<Rightarrow> int \<Rightarrow> vm_rg_struct option" where
  "get_symrg_byid m rgid =
     (if rgid < 0 \<or> rgid \<ge> int PAGING_MAX_SYMTBL_SZ then None else Some (symrgtbl m ! nat rgid))"

definition mm_alloc ::
  "memphy_ops \<Rightarrow> krnl_t \<Rightarrow> int \<Rightarrow> int \<Rightarrow> addr_t \<Rightarrow> (int \<times> addr_t \<times> krnl_t) option" where
  "mm_alloc M k vmaid rgid sz =
     (if rgid < 0 \<or> rgid \<ge> int PAGING_MAX_SYMTBL_SZ then Some (-1, 0, k)
      else do {
        m \<leftarrow> mm k;
        (case get_vma_by_num m vmaid of
           None \<Rightarrow> Some (-1, 0, k)
         | Some v \<Rightarrow>
             (let rgnode = symrgtbl m ! nat rgid in
              if rg_start rgnode \<noteq> 0 \<or> rg_end rgnode \<noteq> 0 then Some (-1, 0, k)
              else do {
                let alloc_end = sbrk (mmap m ! v) + sz;
                (r, k1) \<leftarrow> (if alloc_end > vm_end (mmap m ! v)
                            then inc_vma_limit M k vmaid (alloc_end - sbrk (mmap m ! v))
                            else Some (0, k));
                if r \<noteq> 0 then Some (-1, 0, k1)
                else do {
                  m1 \<leftarrow> mm k1;
                  let start = (if sbrk (mmap m1 ! v) = 0 then of_nat PAGING_PAGESZ else sbrk (mmap m1 ! v));
                  let m2 = m1\<lparr>symrgtbl := (symrgtbl m1)[nat rgid := \<lparr>rg_start = start, rg_end = start + sz\<rparr>],
                              mmap := (mmap m1)[v := (mmap m1 ! v)\<lparr>sbrk := start + sz\<rparr>]\<rparr>;
                  Some (0, start, k1\<lparr>mm := Some m2\<rparr>) } })) })"

definition mm_free :: "krnl_t \<Rightarrow> int \<Rightarrow> int \<Rightarrow> (int \<times> krnl_t) option" where
  "mm_free k vmaid rgid =
     (if rgid < 0 \<or> rgid \<ge> int PAGING_MAX_SYMTBL_SZ then Some (-1, k)
      else do {
        m \<leftarrow> mm k;
        let rgnode = symrgtbl m ! nat rgid;
        if rg_start rgnode = 0 \<and> rg_end rgnode = 0 then Some (-1, k)
        else if rg_start rgnode \<ge> rg_end rgnode then Some (-1, k)
        else Some (0, k\<lparr>mm := Some (m\<lparr>symrgtbl :=
               (symrgtbl m)[nat rgid := \<lparr>rg_start = 0, rg_end = 0\<rparr>]\<rparr>)\<rparr>) })"

section \<open>The calls of a process\<close>

text \<open>The register number is unsigned and becomes the \<^verbatim>\<open>int\<close> region number.\<close>

definition liballoc ::
  "memphy_ops \<Rightarrow> krnl_t \<Rightarrow> pcb_t \<Rightarrow> addr_t \<Rightarrow> u32 \<Rightarrow> (int \<times> krnl_t \<times> pcb_t) option" where
  "liballoc M k proc sz reg_index = do {
     (val, addr, k1) \<leftarrow> mm_alloc M k 0 (sint reg_index) sz;
     if val = 0 then
       (if unat reg_index < length (regs proc)
        then Some (val, k1, proc\<lparr>regs := (regs proc)[unat reg_index := addr]\<rparr>) else None)
     else Some (val, k1, proc) }"

definition libfree :: "krnl_t \<Rightarrow> pcb_t \<Rightarrow> u32 \<Rightarrow> (int \<times> krnl_t) option" where
  "libfree k proc reg_index =
     (if unat reg_index < length (regs proc) then
        (if regs proc ! unat reg_index = 0 then Some (-1, k) else mm_free k 0 (sint reg_index))
      else None)"

definition pgalloc :: "memphy_ops \<Rightarrow> krnl_t \<Rightarrow> u32 \<Rightarrow> u32 \<Rightarrow> (int \<times> krnl_t) option" where
  "pgalloc M k sz reg_index = do {
     (val, addr, k1) \<leftarrow> mm_alloc M k 0 (sint reg_index) (ucast sz);
     Some (val, k1) }"

definition pgfree :: "krnl_t \<Rightarrow> u32 \<Rightarrow> (int \<times> krnl_t) option" where
  "pgfree k reg_index = mm_free k 0 (sint reg_index)"

section \<open>Pages\<close>

definition pg_getpage :: "memphy_ops \<Rightarrow> krnl_t \<Rightarrow> int \<Rightarrow> (int \<times> u32 \<times> krnl_t) option" where
  "pg_getpage M k pgn =
     (if pgn < 0 \<or> pgn \<ge> uint PAGING_MAX_PGN then Some (-1, 0, k)
      else do {
        pte \<leftarrow> pte_get_entry k (of_int pgn);
        if PAGING_PTE_PRESENT (ucast pte) then Some (0, ucast (PAGING_PTE_FPN (ucast pte)), k)
        else (case MEMPHY_get_freefp M (mram k) of (r, new_fpn, mp1) \<Rightarrow>
          if r = 0 then do {
            (s, k2) \<leftarrow> pte_set_fpn M (k\<lparr>mram := mp1\<rparr>) (of_int pgn) new_fpn;
            if s = 0 then do {
              m \<leftarrow> mm k2;
              Some (0, ucast new_fpn, k2\<lparr>mm := Some (m\<lparr>fifo_pgn :=
                (case fifo_pgn m of [] \<Rightarrow> [of_int pgn] | l \<Rightarrow> of_int pgn # l)\<rparr>)\<rparr>) }
            else (case MEMPHY_put_freefp M (mram k2) new_fpn of (_, mp3) \<Rightarrow>
              Some (-1, 0, k2\<lparr>mram := mp3\<rparr>)) }
          else Some (-1, 0, k\<lparr>mram := mp1\<rparr>)) })"

text \<open>
  The physical address is computed in \<^verbatim>\<open>int\<close> and extended with its sign to \<^verbatim>\<open>addr_t\<close>; \<open>off\<close> is
  below the page size.
\<close>

definition phyaddr :: "u32 \<Rightarrow> addr_t \<Rightarrow> addr_t option" where
  "phyaddr fpn off = do { b \<leftarrow> int_pages (sint fpn); Some (b + off) }"

definition pg_getval :: "memphy_ops \<Rightarrow> krnl_t \<Rightarrow> u32 \<Rightarrow> (int \<times> byte \<times> krnl_t) option" where
  "pg_getval M k addr = do {
     let pgn = uint (PAGING_PGN (ucast addr));
     let off = PAGING_OFFST (ucast addr);
     (r, fpn, k1) \<leftarrow> pg_getpage M k pgn;
     if r \<noteq> 0 then Some (-1, 0, k1)
     else do {
       a \<leftarrow> phyaddr fpn off;
       (case MEMPHY_read M (mram k1) a of (s, v, mp) \<Rightarrow>
          if s \<noteq> 0 then Some (-1, v, k1\<lparr>mram := mp\<rparr>) else Some (0, v, k1\<lparr>mram := mp\<rparr>)) } }"

definition pg_setval :: "memphy_ops \<Rightarrow> krnl_t \<Rightarrow> u32 \<Rightarrow> byte \<Rightarrow> (int \<times> krnl_t) option" where
  "pg_setval M k addr v = do {
     let pgn = uint (PAGING_PGN (ucast addr));
     let off = PAGING_OFFST (ucast addr);
     (r, fpn, k1) \<leftarrow> pg_getpage M k pgn;
     if r \<noteq> 0 then Some (-1, k1)
     else do {
       a \<leftarrow> phyaddr fpn off;
       (case MEMPHY_write M (mram k1) a v of (s, mp) \<Rightarrow>
          if s \<noteq> 0 then Some (-1, k1\<lparr>mram := mp\<rparr>) else Some (0, k1\<lparr>mram := mp\<rparr>)) } }"

section \<open>Reading and writing a region\<close>

text \<open>
  The address of an offset in a region, allocating 100 bytes for a region that is not
  allocated: the common beginning of \<^verbatim>\<open>__read\<close> and \<^verbatim>\<open>__write\<close>. \<open>None\<close> inside the option is
  their \<^verbatim>\<open>return -1\<close>.
\<close>

definition region_addr ::
  "memphy_ops \<Rightarrow> krnl_t \<Rightarrow> int \<Rightarrow> int \<Rightarrow> addr_t \<Rightarrow> (addr_t option \<times> krnl_t) option" where
  "region_addr M k vmaid rgid offset =
     (if rgid < 0 \<or> rgid \<ge> int PAGING_MAX_SYMTBL_SZ then Some (None, k)
      else do {
        m \<leftarrow> mm k;
        let currg = symrgtbl m ! nat rgid;
        (r, k1) \<leftarrow> (if rg_start currg = 0 \<and> rg_end currg = 0
                    then do { (val, _, k1) \<leftarrow> mm_alloc M k vmaid rgid 100; Some (val, k1) }
                    else Some (0, k));
        if r \<noteq> 0 then Some (None, k1)
        else do {
          m1 \<leftarrow> mm k1;
          let rg = symrgtbl m1 ! nat rgid;
          if rg_start rg \<ge> rg_end rg then Some (None, k1)
          else if offset \<ge> rg_end rg - rg_start rg then Some (None, k1)
          else Some (Some (rg_start rg + offset), k1) } })"

definition mm_read ::
  "memphy_ops \<Rightarrow> krnl_t \<Rightarrow> int \<Rightarrow> int \<Rightarrow> addr_t \<Rightarrow> (int \<times> byte \<times> krnl_t) option" where
  "mm_read M k vmaid rgid offset = do {
     (a, k1) \<leftarrow> region_addr M k vmaid rgid offset;
     (case a of None \<Rightarrow> Some (-1, 0, k1) | Some t \<Rightarrow> pg_getval M k1 (ucast t)) }"

definition mm_write ::
  "memphy_ops \<Rightarrow> krnl_t \<Rightarrow> int \<Rightarrow> int \<Rightarrow> addr_t \<Rightarrow> byte \<Rightarrow> (int \<times> krnl_t) option" where
  "mm_write M k vmaid rgid offset v = do {
     (a, k1) \<leftarrow> region_addr M k vmaid rgid offset;
     (case a of None \<Rightarrow> Some (-1, k1) | Some t \<Rightarrow> pg_setval M k1 (ucast t) v) }"

text \<open>
  \<^verbatim>\<open>*destination = data\<close> extends the sign of the \<^verbatim>\<open>char\<close>; the destination keeps its value
  where the read fails.
\<close>

definition libread ::
  "memphy_ops \<Rightarrow> krnl_t \<Rightarrow> u32 \<Rightarrow> addr_t \<Rightarrow> u32 \<Rightarrow> (int \<times> u32 \<times> krnl_t) option" where
  "libread M k source offset destination = do {
     (val, data, k1) \<leftarrow> mm_read M k 0 (sint source) offset;
     Some (val, if val = 0 then scast data else destination, k1) }"

definition libwrite :: "memphy_ops \<Rightarrow> krnl_t \<Rightarrow> byte \<Rightarrow> u32 \<Rightarrow> addr_t \<Rightarrow> (int \<times> krnl_t) option" where
  "libwrite M k data destination offset = mm_write M k 0 (sint destination) offset data"

section \<open>Page replacement and free regions\<close>

definition find_victim_page :: "mm_struct \<Rightarrow> int \<times> addr_t option \<times> mm_struct" where
  "find_victim_page m =
     (case fifo_pgn m of
        [] \<Rightarrow> (-1, None, m)
      | pg # rest \<Rightarrow> (0, Some pg, m\<lparr>fifo_pgn := rest\<rparr>))"

fun take_free_rg :: "addr_t \<Rightarrow> vm_rg_struct list \<Rightarrow> (vm_rg_struct \<times> vm_rg_struct list) option" where
  "take_free_rg sz [] = None"
| "take_free_rg sz (rgit # rest) =
     (if rg_start rgit + sz \<le> rg_end rgit then
        Some (\<lparr>rg_start = rg_start rgit, rg_end = rg_start rgit + sz\<rparr>,
          if rg_start rgit + sz < rg_end rgit then rgit\<lparr>rg_start := rg_start rgit + sz\<rparr> # rest
          else (case rest of
                  nextrg # rgs \<Rightarrow> rgit\<lparr>rg_start := rg_start nextrg, rg_end := rg_end nextrg\<rparr> # rgs
                | [] \<Rightarrow> [rgit\<lparr>rg_start := rg_end rgit\<rparr>]))
      else (case take_free_rg sz rest of
              None \<Rightarrow> None | Some (newrg, rest') \<Rightarrow> Some (newrg, rgit # rest')))"

text \<open>The region found is \<open>None\<close> where \<^verbatim>\<open>newrg\<close> is left as the caller passed it.\<close>

definition get_free_vmrg_area ::
  "krnl_t \<Rightarrow> int \<Rightarrow> u32 \<Rightarrow> (int \<times> vm_rg_struct option \<times> krnl_t) option" where
  "get_free_vmrg_area k vmaid sz = do {
     m \<leftarrow> mm k;
     (case get_vma_by_num m vmaid of
        None \<Rightarrow> Some (-1, None, k)
      | Some v \<Rightarrow>
          (if vm_freerg_list (mmap m ! v) = [] then Some (-1, None, k)
           else case take_free_rg (scast sz) (vm_freerg_list (mmap m ! v)) of
             None \<Rightarrow> Some (-1, Some \<lparr>rg_start = - 1, rg_end = - 1\<rparr>, k)
           | Some (newrg, rgs) \<Rightarrow>
               Some (0, Some newrg, k\<lparr>mm := Some (m\<lparr>mmap :=
                 (mmap m)[v := (mmap m ! v)\<lparr>vm_freerg_list := rgs\<rparr>]\<rparr>)\<rparr>))) }"

end
