(* ===== verification/Region.thy ===== *)
theory Region
  imports LibMem
begin

unbundle bit_operations_syntax

text \<open>
  What \<^verbatim>\<open>__alloc\<close> and \<^verbatim>\<open>__free\<close> do to the regions of a process. The interface \<open>region_table\<close>
  says what a table of regions above a growing break promises; that live regions never
  overlap follows from it once, and the interpretation discharges it for the code.
\<close>

section \<open>The interface\<close>

locale region_table =
  fixes inv :: "'s \<Rightarrow> bool"
    and region :: "'s \<Rightarrow> nat \<Rightarrow> (nat \<times> nat) option"
    and brk :: "'s \<Rightarrow> nat"
    and cap :: "'s \<Rightarrow> nat"
    and limit :: nat
    and step :: "'op \<Rightarrow> 's \<Rightarrow> 's option"
    and need :: "'op \<Rightarrow> nat"
  assumes step_total: "inv s \<Longrightarrow> cap s + need p < limit \<Longrightarrow>
      \<exists>s'. step p s = Some s' \<and> inv s' \<and> cap s' \<le> cap s + need p"
    and region_below: "inv s \<Longrightarrow> region s i = Some (a, b) \<Longrightarrow> 0 < a \<and> a \<le> b \<and> b \<le> brk s"
    and step_region: "inv s \<Longrightarrow> cap s + need p < limit \<Longrightarrow> step p s = Some s' \<Longrightarrow>
      region s' i = region s i \<or> region s' i = None \<or>
      (region s i = None \<and> region s' i = Some (brk s, brk s') \<and> (\<forall>j. j \<noteq> i \<longrightarrow> region s' j = region s j))"
    and step_brk: "inv s \<Longrightarrow> cap s + need p < limit \<Longrightarrow> step p s = Some s' \<Longrightarrow> brk s \<le> brk s'"
begin

definition apart :: "'s \<Rightarrow> bool" where
  "apart s \<longleftrightarrow> (\<forall>i j a b c d. i \<noteq> j \<and> region s i = Some (a, b) \<and> region s j = Some (c, d) \<longrightarrow> b \<le> c \<or> d \<le> a)"

fun run :: "'op list \<Rightarrow> 's \<Rightarrow> 's option" where
  "run [] s = Some s"
| "run (p # ps) s = (case step p s of None \<Rightarrow> None | Some s' \<Rightarrow> run ps s')"

lemma step_apart:
  assumes "inv s" "cap s + need p < limit" "step p s = Some s'" "apart s"
  shows "apart s'"
  unfolding apart_def
proof (intro allI impI, elim conjE)
  fix i j a b c d
  assume ij: "i \<noteq> j" "region s' i = Some (a, b)" "region s' j = Some (c, d)"
  note R = step_region [OF assms(1-3)]
  consider "region s i = Some (a, b)" "region s j = Some (c, d)"
    | "region s j = Some (c, d)" "a = brk s"
    | "region s i = Some (a, b)" "c = brk s"
    using R [of i] R [of j] ij by (metis option.distinct(1) option.inject prod.inject)
  then show "b \<le> c \<or> d \<le> a"
  proof cases
    case 1
    then show ?thesis using assms(4) ij(1) unfolding apart_def by blast
  next
    case 2
    then show ?thesis using region_below [OF assms(1)] by blast
  next
    case 3
    then show ?thesis using region_below [OF assms(1)] by blast
  qed
qed

lemma run_apart:
  "inv s \<Longrightarrow> apart s \<Longrightarrow> cap s + sum_list (map need ps) < limit \<Longrightarrow>
   \<exists>s'. run ps s = Some s' \<and> inv s' \<and> apart s' \<and> brk s \<le> brk s'"
proof (induction ps arbitrary: s)
  case Nil
  then show ?case by simp
next
  case (Cons p ps)
  then have c: "cap s + need p < limit" by simp
  from step_total [OF Cons.prems(1) c] obtain s1 where
    s1: "step p s = Some s1" "inv s1" "cap s1 \<le> cap s + need p" by blast
  have "apart s1" using step_apart [OF Cons.prems(1) c s1(1) Cons.prems(2)] .
  moreover have "cap s1 + sum_list (map need ps) < limit" using Cons.prems(3) s1(3) by simp
  ultimately obtain s' where "run ps s1 = Some s'" "inv s'" "apart s'" "brk s1 \<le> brk s'"
    using Cons.IH [OF s1(2)] by blast
  with s1(1) step_brk [OF Cons.prems(1) c s1(1)] show ?case by auto
qed

end

section \<open>Regions of a process\<close>

definition rg_used :: "vm_rg_struct \<Rightarrow> bool" where
  "rg_used r \<longleftrightarrow> \<not> (rg_start r = 0 \<and> rg_end r = 0)"

definition rg_inv :: "mm_struct \<Rightarrow> bool" where
  "rg_inv m \<longleftrightarrow> mmap m \<noteq> [] \<and> length (symrgtbl m) = PAGING_MAX_SYMTBL_SZ \<and>
     4096 \<le> unat (sbrk (mmap m ! 0)) \<and> unat (sbrk (mmap m ! 0)) \<le> unat (vm_end (mmap m ! 0)) \<and>
     (\<forall>i < PAGING_MAX_SYMTBL_SZ. rg_used (symrgtbl m ! i) \<longrightarrow>
        4096 \<le> unat (rg_start (symrgtbl m ! i)) \<and>
        unat (rg_start (symrgtbl m ! i)) \<le> unat (rg_end (symrgtbl m ! i)) \<and>
        unat (rg_end (symrgtbl m ! i)) \<le> unat (sbrk (mmap m ! 0)))"

text \<open>The memory map after a successful allocation in the first area.\<close>

definition alloc_mm :: "mm_struct \<Rightarrow> nat \<Rightarrow> addr_t \<Rightarrow> mm_struct" where
  "alloc_mm m i sz =
     (let v = mmap m ! 0 in
      m\<lparr>symrgtbl := (symrgtbl m)[i := \<lparr>rg_start = sbrk v, rg_end = sbrk v + sz\<rparr>],
        mmap := (mmap m)[0 := v\<lparr>vm_end := (if sbrk v + sz > vm_end v then vm_end v + page_align sz else vm_end v),
                                sbrk := sbrk v + sz\<rparr>]\<rparr>)"

definition alloc_fits :: "mm_struct \<Rightarrow> addr_t \<Rightarrow> bool" where
  "alloc_fits m sz \<longleftrightarrow> unat sz + 4095 < 2 ^ 31 \<and> unat (vm_end (mmap m ! 0)) + unat sz + 4095 < 2 ^ 62"

lemma mm_alloc_eq:
  assumes m: "mm k = Some m" and inv: "rg_inv m" and i: "0 \<le> rgid" "rgid < int PAGING_MAX_SYMTBL_SZ"
    and free: "\<not> rg_used (symrgtbl m ! nat rgid)" and sz: "unat sz + 4095 < 2 ^ 31"
  shows "mm_alloc M k 0 rgid sz =
    Some (0, sbrk (mmap m ! 0), k\<lparr>mm := Some (alloc_mm m (nat rgid) sz)\<rparr>)"
proof -
  have ne: "mmap m \<noteq> []" and s: "sbrk (mmap m ! 0) \<noteq> 0" using inv by (auto simp: rg_inv_def)
  have v: "get_vma_by_num m 0 = Some 0" using ne by (simp add: get_vma_by_num_eq)
  show ?thesis
    using m i free v s ne inc_vma_limit_eq [OF m v sz]
    by (simp add: mm_alloc_def rg_used_def alloc_mm_def Let_def)
qed

lemma mm_alloc_err:
  assumes "mm k = Some m" "mmap m \<noteq> []"
    and "rgid < 0 \<or> rgid \<ge> int PAGING_MAX_SYMTBL_SZ \<or> rg_used (symrgtbl m ! nat rgid)"
  shows "mm_alloc M k 0 rgid sz = Some (-1, 0, k)"
  using assms by (auto simp: mm_alloc_def rg_used_def get_vma_by_num_eq Let_def)

text \<open>Allocation without wrap-around: the new break, the new limit and the invariant.\<close>

lemma alloc_mm_nat:
  assumes inv: "rg_inv m" and fits: "alloc_fits m sz"
  shows "unat (sbrk (mmap m ! 0) + sz) = unat (sbrk (mmap m ! 0)) + unat sz"
    and "unat (sbrk (mmap (alloc_mm m i sz) ! 0)) = unat (sbrk (mmap m ! 0)) + unat sz"
    and "unat (vm_end (mmap (alloc_mm m i sz) ! 0)) \<le> unat (vm_end (mmap m ! 0)) + unat sz + 4095"
    and "unat (sbrk (mmap m ! 0)) + unat sz \<le> unat (vm_end (mmap (alloc_mm m i sz) ! 0))"
proof -
  let ?v = "mmap m ! 0"
  have ne: "mmap m \<noteq> []" and brk: "unat (sbrk ?v) \<le> unat (vm_end ?v)" using inv by (auto simp: rg_inv_def)
  have b: "unat sz + 4095 < 2 ^ 31" "unat (vm_end ?v) + unat sz + 4095 < 2 ^ 62"
    using fits by (simp_all add: alloc_fits_def)
  have szb: "unat sz < 2 ^ 63" using b(1) by simp
  note pa = page_align_bounds [OF szb]
  show sum: "unat (sbrk ?v + sz) = unat (sbrk ?v) + unat sz"
    using brk b by (intro unat_add_lem [THEN iffD1]) simp
  then show "unat (sbrk (mmap (alloc_mm m i sz) ! 0)) = unat (sbrk ?v) + unat sz"
    using ne by (simp add: alloc_mm_def Let_def)
  have grow: "unat (vm_end ?v + page_align sz) = unat (vm_end ?v) + unat (page_align sz)"
    using b pa by (intro unat_add_lem [THEN iffD1]) simp
  show "unat (vm_end (mmap (alloc_mm m i sz) ! 0)) \<le> unat (vm_end ?v) + unat sz + 4095"
    using ne grow pa by (simp add: alloc_mm_def Let_def)
  show "unat (sbrk ?v) + unat sz \<le> unat (vm_end (mmap (alloc_mm m i sz) ! 0))"
    using ne grow pa brk sum by (auto simp: alloc_mm_def Let_def word_less_nat_alt)
qed

lemma rg_inv_alloc:
  assumes inv: "rg_inv m" and fits: "alloc_fits m sz" and i: "i < PAGING_MAX_SYMTBL_SZ"
  shows "rg_inv (alloc_mm m i sz)"
proof -
  note A = alloc_mm_nat [OF inv fits]
  have ne: "mmap (alloc_mm m i sz) \<noteq> []" "length (symrgtbl (alloc_mm m i sz)) = PAGING_MAX_SYMTBL_SZ"
    using inv by (simp_all add: rg_inv_def alloc_mm_def Let_def)
  have tbl: "symrgtbl (alloc_mm m i sz) ! j = (if j = i
      then \<lparr>rg_start = sbrk (mmap m ! 0), rg_end = sbrk (mmap m ! 0) + sz\<rparr> else symrgtbl m ! j)"
    if "j < PAGING_MAX_SYMTBL_SZ" for j
    using inv that by (auto simp: rg_inv_def alloc_mm_def Let_def)
  show ?thesis
    unfolding rg_inv_def
    using ne inv A(2) [of i] A(4) [of i] by (auto simp: tbl A(1) rg_inv_def)
qed

definition free_mm :: "mm_struct \<Rightarrow> nat \<Rightarrow> mm_struct" where
  "free_mm m i = m\<lparr>symrgtbl := (symrgtbl m)[i := \<lparr>rg_start = 0, rg_end = 0\<rparr>]\<rparr>"

lemma mm_free_cases:
  assumes "mm k = Some m"
  obtains (error) "mm_free k 0 rgid = Some (-1, k)"
      "rgid < 0 \<or> rgid \<ge> int PAGING_MAX_SYMTBL_SZ \<or> rg_end (symrgtbl m ! nat rgid) \<le> rg_start (symrgtbl m ! nat rgid)"
    | (freed) "mm_free k 0 rgid = Some (0, k\<lparr>mm := Some (free_mm m (nat rgid))\<rparr>)"
      "0 \<le> rgid" "rgid < int PAGING_MAX_SYMTBL_SZ" "rg_start (symrgtbl m ! nat rgid) < rg_end (symrgtbl m ! nat rgid)"
proof (cases "rgid < 0 \<or> rgid \<ge> int PAGING_MAX_SYMTBL_SZ \<or>
    rg_end (symrgtbl m ! nat rgid) \<le> rg_start (symrgtbl m ! nat rgid)")
  case True
  with assms show thesis by (intro error) (auto simp: mm_free_def Let_def)
next
  case False
  with assms show thesis by (intro freed) (auto simp: mm_free_def free_mm_def Let_def)
qed

lemma rg_inv_free: "rg_inv m \<Longrightarrow> i < PAGING_MAX_SYMTBL_SZ \<Longrightarrow> rg_inv (free_mm m i)"
  by (auto simp: rg_inv_def free_mm_def rg_used_def nth_list_update)

section \<open>Sequences of allocations and releases\<close>

datatype rg_op = Rg_alloc int addr_t | Rg_free int

definition rg_step :: "memphy_ops \<Rightarrow> rg_op \<Rightarrow> krnl_t \<Rightarrow> krnl_t option" where
  "rg_step M p k = (case p of
     Rg_alloc i n \<Rightarrow> map_option (\<lambda>(_, _, k'). k') (mm_alloc M k 0 i n)
   | Rg_free i \<Rightarrow> map_option snd (mm_free k 0 i))"

definition rg_need :: "rg_op \<Rightarrow> nat" where
  "rg_need p = (case p of Rg_alloc i n \<Rightarrow> (if unat n + 4095 < 2 ^ 31 then unat n + 4095 else 2 ^ 62)
   | Rg_free i \<Rightarrow> 0)"

definition rg_state :: "krnl_t \<Rightarrow> bool" where
  "rg_state k = (case mm k of None \<Rightarrow> False | Some m \<Rightarrow> rg_inv m)"

definition rg_region :: "krnl_t \<Rightarrow> nat \<Rightarrow> (nat \<times> nat) option" where
  "rg_region k i = (case mm k of None \<Rightarrow> None | Some m \<Rightarrow>
     if i < PAGING_MAX_SYMTBL_SZ \<and> rg_used (symrgtbl m ! i)
     then Some (unat (rg_start (symrgtbl m ! i)), unat (rg_end (symrgtbl m ! i))) else None)"

definition rg_brk :: "krnl_t \<Rightarrow> nat" where
  "rg_brk k = (case mm k of None \<Rightarrow> 0 | Some m \<Rightarrow> unat (sbrk (mmap m ! 0)))"

definition rg_cap :: "krnl_t \<Rightarrow> nat" where
  "rg_cap k = (case mm k of None \<Rightarrow> 0 | Some m \<Rightarrow> unat (vm_end (mmap m ! 0)))"

lemma rg_step_cases:
  assumes "rg_state k" "rg_cap k + rg_need p < 2 ^ 62"
  obtains (same) m where "mm k = Some m" "rg_inv m" "rg_step M p k = Some k"
    | (alloc) m i n where "mm k = Some m" "rg_inv m" "p = Rg_alloc (int i) n" "i < PAGING_MAX_SYMTBL_SZ"
        "\<not> rg_used (symrgtbl m ! i)" "alloc_fits m n" "rg_need p = unat n + 4095"
        "rg_step M p k = Some (k\<lparr>mm := Some (alloc_mm m i n)\<rparr>)"
    | (free) m i where "mm k = Some m" "rg_inv m" "i < PAGING_MAX_SYMTBL_SZ"
        "rg_step M p k = Some (k\<lparr>mm := Some (free_mm m i)\<rparr>)"
proof -
  obtain m where m: "mm k = Some m" "rg_inv m"
    using assms(1) by (auto simp: rg_state_def split: option.splits)
  have ne: "mmap m \<noteq> []" using m(2) by (simp add: rg_inv_def)
  show thesis
  proof (cases p)
    case (Rg_alloc i n)
    then have n: "unat n + 4095 < 2 ^ 31" "rg_need p = unat n + 4095"
      using assms(2) by (auto simp: rg_need_def split: if_splits)
    then have fits: "alloc_fits m n" using assms(2) m by (simp add: alloc_fits_def rg_cap_def)
    show thesis
    proof (cases "i < 0 \<or> i \<ge> int PAGING_MAX_SYMTBL_SZ \<or> rg_used (symrgtbl m ! nat i)")
      case True
      then show thesis
        using same m Rg_alloc mm_alloc_err [OF m(1) ne True, of M n] by (simp add: rg_step_def)
    next
      case False
      with mm_alloc_eq [OF m _ _ _ n(1), of i M] Rg_alloc show thesis
        by (intro alloc [where i = "nat i" and n = n and m = m]) (use n(2) in \<open>auto simp: m fits rg_step_def\<close>)
    qed
  next
    case (Rg_free i)
    show thesis
    proof (cases rule: mm_free_cases [OF m(1), of i, case_names error freed])
      case error
      then show thesis using same m Rg_free by (simp add: rg_step_def)
    next
      case freed
      then show thesis using free [of m "nat i"] m Rg_free by (simp add: rg_step_def)
    qed
  qed
qed

interpretation rt: region_table rg_state rg_region rg_brk rg_cap "2 ^ 62" "rg_step M" rg_need for M
proof
  fix s p assume A: "rg_state s" "rg_cap s + rg_need p < 2 ^ 62"
  show "\<exists>s'. rg_step M p s = Some s' \<and> rg_state s' \<and> rg_cap s' \<le> rg_cap s + rg_need p"
  proof (cases rule: rg_step_cases [OF A, of M, case_names same alloc free])
    case (alloc m i n)
    then show ?thesis
      using alloc_mm_nat(3) [OF alloc(2,6), of i] rg_inv_alloc [OF alloc(2,6,4)]
      by (simp add: rg_state_def rg_cap_def)
  next
    case (free m i)
    then show ?thesis using rg_inv_free [of m i] by (simp add: rg_state_def rg_cap_def free_mm_def)
  qed (simp add: A)
next
  fix s i a b assume "rg_state s" "rg_region s i = Some (a, b)"
  then show "0 < a \<and> a \<le> b \<and> b \<le> rg_brk s"
    by (fastforce simp: rg_state_def rg_region_def rg_brk_def rg_inv_def split: option.splits if_splits)
next
  fix s p s' i assume A: "rg_state s" "rg_cap s + rg_need p < 2 ^ 62" and s': "rg_step M p s = Some s'"
  show "rg_region s' i = rg_region s i \<or> rg_region s' i = None \<or>
      (rg_region s i = None \<and> rg_region s' i = Some (rg_brk s, rg_brk s') \<and>
       (\<forall>j. j \<noteq> i \<longrightarrow> rg_region s' j = rg_region s j))"
  proof (cases rule: rg_step_cases [OF A, of M, case_names same alloc free])
    case (alloc m j n)
    note N = alloc_mm_nat [OF alloc(2,6)]
    have len: "length (symrgtbl m) = PAGING_MAX_SYMTBL_SZ" "mmap m \<noteq> []" using alloc(2) by (simp_all add: rg_inv_def)
    have r: "rg_region s' l = (if l = j then (if rg_used \<lparr>rg_start = sbrk (mmap m ! 0), rg_end = sbrk (mmap m ! 0) + n\<rparr>
        then Some (rg_brk s, rg_brk s') else None) else rg_region s l)" for l
      using s' alloc len N(1) N(2) [of j] by (auto simp: rg_region_def rg_brk_def alloc_mm_def Let_def)
    moreover have "rg_region s j = None" using alloc by (simp add: rg_region_def)
    ultimately show ?thesis by (cases "i = j") (auto split: if_splits)
  next
    case (free m j)
    then have "length (symrgtbl m) = PAGING_MAX_SYMTBL_SZ" by (simp add: rg_inv_def)
    moreover have "s' = s\<lparr>mm := Some (free_mm m j)\<rparr>" using s' free(4) by simp
    ultimately have "rg_region s' i = (if i = j then None else rg_region s i)"
      using free(1,3) by (cases "i = j") (simp_all add: rg_region_def free_mm_def rg_used_def)
    then show ?thesis by simp
  qed (use s' in simp)
next
  fix s p s' assume A: "rg_state s" "rg_cap s + rg_need p < 2 ^ 62" and s': "rg_step M p s = Some s'"
  show "rg_brk s \<le> rg_brk s'"
  proof (cases rule: rg_step_cases [OF A, of M, case_names same alloc free])
    case (alloc m i n)
    then show ?thesis using s' alloc_mm_nat(2) [OF alloc(2,6), of i] by (auto simp: rg_brk_def)
  next
    case (free m i)
    then show ?thesis using s' by (auto simp: rg_brk_def free_mm_def)
  qed (use s' in simp)
qed

section \<open>Properties of allocation\<close>

fun run_rg_ops :: "memphy_ops \<Rightarrow> rg_op list \<Rightarrow> krnl_t \<Rightarrow> krnl_t option" where
  "run_rg_ops M [] k = Some k"
| "run_rg_ops M (p # ps) k = do { k' \<leftarrow> rg_step M p k; run_rg_ops M ps k' }"

lemma run_rg_ops_run: "run_rg_ops M ps k = rt.run M ps k"
  by (induction ps arbitrary: k) (simp_all add: bind_eq_None_conv split: option.splits)

lemma rg_inv_init: "rg_inv (snd (init_mm junk))"
  by (simp add: rg_inv_def init_mm_def Let_def PAGING_PAGESZ_def rg_used_def)

lemma sum_need:
  assumes "\<forall>p \<in> set ps. rg_need p < 2 ^ 31" "length ps < 2 ^ 30"
  shows "2 ^ 20 + sum_list (map rg_need ps) < 2 ^ 62"
proof -
  have "sum_list (map rg_need ps) \<le> length ps * 2 ^ 31"
    using assms(1) by (induction ps) (auto intro: order_less_imp_le add_mono)
  also have "\<dots> \<le> 2 ^ 30 * 2 ^ 31" using assms(2) by (intro mult_right_mono) auto
  finally show ?thesis by simp
qed

text \<open>
  C18 (regions_never_overlap): for a new process, any sequence of fewer than \<open>2 ^ 30\<close> calls of
  \<^verbatim>\<open>__alloc\<close> and \<^verbatim>\<open>__free\<close>, with arbitrary region numbers and sizes below two gigabytes,
  has defined behaviour, and afterwards the regions in use lie between the first page and the
  break, the break is within the area, and two different regions do not overlap.
\<close>

theorem regions_never_overlap:
  assumes k: "mm k = Some (snd (init_mm junk))"
    and sizes: "\<forall>i n. Rg_alloc i n \<in> set ps \<longrightarrow> unat n + 4095 < 2 ^ 31" and len: "length ps < 2 ^ 30"
  shows "\<exists>k' m'. run_rg_ops M ps k = Some k' \<and> mm k' = Some m' \<and> rg_inv m' \<and>
    (\<forall>i j. i < PAGING_MAX_SYMTBL_SZ \<and> j < PAGING_MAX_SYMTBL_SZ \<and> i \<noteq> j \<and>
       rg_used (symrgtbl m' ! i) \<and> rg_used (symrgtbl m' ! j) \<longrightarrow>
       rg_end (symrgtbl m' ! i) \<le> rg_start (symrgtbl m' ! j) \<or>
       rg_end (symrgtbl m' ! j) \<le> rg_start (symrgtbl m' ! i))"
proof -
  have st: "rg_state k" "rt.apart k"
    using k rg_inv_init by (auto simp: rg_state_def rt.apart_def rg_region_def init_mm_def Let_def rg_used_def)
  have "rg_cap k = 2 ^ 20" using k by (simp add: rg_cap_def init_mm_def Let_def)
  moreover have "\<forall>p \<in> set ps. rg_need p < 2 ^ 31"
    using sizes by (auto simp: rg_need_def split: rg_op.splits)
  ultimately have cap: "rg_cap k + sum_list (map rg_need ps) < 2 ^ 62" using sum_need [OF _ len] by simp
  from rt.run_apart [OF st cap, of M] obtain k' where
    k': "run_rg_ops M ps k = Some k'" "rg_state k'" "rt.apart k'" by (auto simp: run_rg_ops_run)
  from k'(2) obtain m' where m': "mm k' = Some m'" "rg_inv m'" by (auto simp: rg_state_def split: option.splits)
  have "rg_end (symrgtbl m' ! i) \<le> rg_start (symrgtbl m' ! j) \<or>
      rg_end (symrgtbl m' ! j) \<le> rg_start (symrgtbl m' ! i)"
    if "i < PAGING_MAX_SYMTBL_SZ" "j < PAGING_MAX_SYMTBL_SZ" "i \<noteq> j"
      "rg_used (symrgtbl m' ! i)" "rg_used (symrgtbl m' ! j)" for i j
    using k'(3) [unfolded rt.apart_def, rule_format, of i j] that m'(1)
    by (simp add: rg_region_def word_le_nat_alt)
  with k'(1) m' show ?thesis by blast
qed

theorem regions_never_overlap_witness:
  "\<exists>k' m'. run_rg_ops list_ops [Rg_alloc 0 300, Rg_alloc 1 5000000, Rg_free 0, Rg_alloc 0 7] demo_krnl = Some k' \<and>
     mm k' = Some m' \<and> rg_inv m' \<and>
     (rg_end (symrgtbl m' ! 0) \<le> rg_start (symrgtbl m' ! 1) \<or> rg_end (symrgtbl m' ! 1) \<le> rg_start (symrgtbl m' ! 0) \<or>
      \<not> rg_used (symrgtbl m' ! 0) \<or> \<not> rg_used (symrgtbl m' ! 1))"
proof -
  let ?ps = "[Rg_alloc 0 300, Rg_alloc 1 5000000, Rg_free 0, Rg_alloc 0 7]"
  from regions_never_overlap [of demo_krnl "[]" ?ps list_ops] obtain k' m' where
    "run_rg_ops list_ops ?ps demo_krnl = Some k'" "mm k' = Some m'" "rg_inv m'"
    and D: "\<forall>i j. i < PAGING_MAX_SYMTBL_SZ \<and> j < PAGING_MAX_SYMTBL_SZ \<and> i \<noteq> j \<and>
       rg_used (symrgtbl m' ! i) \<and> rg_used (symrgtbl m' ! j) \<longrightarrow>
       rg_end (symrgtbl m' ! i) \<le> rg_start (symrgtbl m' ! j) \<or>
       rg_end (symrgtbl m' ! j) \<le> rg_start (symrgtbl m' ! i)"
    by (auto simp: demo_mm_def)
  moreover from D [rule_format, of 0 1] have "rg_end (symrgtbl m' ! 0) \<le> rg_start (symrgtbl m' ! 1) \<or>
      rg_end (symrgtbl m' ! 1) \<le> rg_start (symrgtbl m' ! 0) \<or>
      \<not> rg_used (symrgtbl m' ! 0) \<or> \<not> rg_used (symrgtbl m' ! 1)"
    by (simp add: PAGING_MAX_SYMTBL_SZ_def) blast
  ultimately show ?thesis by blast
qed

text \<open>
  C27 (alloc_free_cycle): \<^verbatim>\<open>__alloc\<close> of an unused region number returns the break; the region
  can then be freed exactly if its size is not zero; and a second allocation after the free starts
  behind the first one: freed space is not used again.
\<close>

theorem alloc_free_cycle:
  assumes m: "mm k = Some m" "rg_inv m" and i: "0 \<le> rgid" "rgid < int PAGING_MAX_SYMTBL_SZ"
    and free: "\<not> rg_used (symrgtbl m ! nat rgid)" and fits: "alloc_fits m sz"
  shows "\<exists>k1. mm_alloc M k 0 rgid sz = Some (0, sbrk (mmap m ! 0), k1) \<and>
    (if sz = 0 then mm_free k1 0 rgid = Some (-1, k1)
     else \<exists>k2 k3. mm_free k1 0 rgid = Some (0, k2) \<and>
            mm_alloc M k2 0 rgid sz = Some (0, sbrk (mmap m ! 0) + sz, k3))"
proof -
  let ?m1 = "alloc_mm m (nat rgid) sz"
  let ?k1 = "k\<lparr>mm := Some ?m1\<rparr>"
  have sz: "unat sz + 4095 < 2 ^ 31" using fits by (simp add: alloc_fits_def)
  have i': "nat rgid < PAGING_MAX_SYMTBL_SZ" using i by simp
  note inv1 = rg_inv_alloc [OF m(2) fits i']
  have a1: "mm_alloc M k 0 rgid sz = Some (0, sbrk (mmap m ! 0), ?k1)"
    by (rule mm_alloc_eq [OF m i free sz])
  have len: "length (symrgtbl m) = PAGING_MAX_SYMTBL_SZ" "mmap m \<noteq> []" using m(2) by (simp_all add: rg_inv_def)
  then have r1: "symrgtbl ?m1 ! nat rgid = \<lparr>rg_start = sbrk (mmap m ! 0), rg_end = sbrk (mmap m ! 0) + sz\<rparr>"
    and b1: "sbrk (mmap ?m1 ! 0) = sbrk (mmap m ! 0) + sz"
    using i' by (simp_all add: alloc_mm_def Let_def)
  have lt: "sbrk (mmap m ! 0) < sbrk (mmap m ! 0) + sz \<longleftrightarrow> sz \<noteq> 0"
    using alloc_mm_nat(1) [OF m(2) fits] by (simp add: word_less_nat_alt unat_gt_0)
  have mk: "mm ?k1 = Some ?m1" by simp
  show ?thesis
  proof (cases "sz = 0")
    case True
    have "mm_free ?k1 0 rgid = Some (-1, ?k1)"
      by (cases rule: mm_free_cases [OF mk, of rgid, case_names error freed]) (use r1 True in simp_all)
    with a1 True show ?thesis by auto
  next
    case False
    let ?m2 = "free_mm ?m1 (nat rgid)"
    let ?k2 = "k\<lparr>mm := Some ?m2\<rparr>"
    have f: "mm_free ?k1 0 rgid = Some (0, ?k2)"
      by (cases rule: mm_free_cases [OF mk, of rgid, case_names error freed])
        (use r1 lt False i in \<open>auto simp: linorder_not_le [symmetric]\<close>)
    have inv2: "rg_inv ?m2" by (rule rg_inv_free [OF inv1 i'])
    have "\<not> rg_used (symrgtbl ?m2 ! nat rgid)"
      using inv1 i' by (simp add: free_mm_def rg_used_def rg_inv_def)
    moreover have "mm ?k2 = Some ?m2" by simp
    ultimately have "\<exists>k3. mm_alloc M ?k2 0 rgid sz = Some (0, sbrk (mmap ?m2 ! 0), k3)"
      using mm_alloc_eq [OF _ inv2 i _ sz, of ?k2 M] by blast
    moreover have "sbrk (mmap ?m2 ! 0) = sbrk (mmap m ! 0) + sz" by (simp add: free_mm_def b1)
    ultimately show ?thesis using a1 f False by auto
  qed
qed

theorem alloc_free_cycle_witness:
  "\<exists>k1 k2 k3. mm_alloc list_ops demo_krnl 0 3 100 = Some (0, 4096, k1) \<and>
     mm_free k1 0 3 = Some (0, k2) \<and> mm_alloc list_ops k2 0 3 100 = Some (0, 4196, k3)"
  using alloc_free_cycle [of demo_krnl demo_mm 3 100 list_ops] rg_inv_init [of "[]"]
  by (auto simp: demo_mm_def init_mm_def Let_def PAGING_MAX_SYMTBL_SZ_def PAGING_PAGESZ_def rg_used_def
      alloc_fits_def)

lemma sint_region:
  assumes "unat (r::u32) < PAGING_MAX_SYMTBL_SZ"
  shows "0 \<le> sint r" "sint r < int PAGING_MAX_SYMTBL_SZ" "nat (sint r) = unat r"
proof -
  have "sint r = int (unat r)" by (rule sint_eq_unat) (use assms in \<open>simp add: PAGING_MAX_SYMTBL_SZ_def\<close>)
  with assms show "0 \<le> sint r" "sint r < int PAGING_MAX_SYMTBL_SZ" "nat (sint r) = unat r"
    by (simp_all only: of_nat_less_iff nat_int of_nat_0_le_iff)
qed

text \<open>
  C29 (liballoc_register_range): the region table has 30 entries and a process 10 registers, and
  \<^verbatim>\<open>liballoc\<close> uses one number for both. Where the region is free the call returns with the
  break in the register for a register number below 10, and writes outside the register array
  for the numbers 10 to 29.
\<close>

theorem liballoc_register_range:
  assumes m: "mm k = Some m" "rg_inv m" and r: "unat r < PAGING_MAX_SYMTBL_SZ"
    and free: "\<not> rg_used (symrgtbl m ! unat r)" and sz: "unat sz + 4095 < 2 ^ 31" and regs: "length (regs proc) = 10"
  shows "if unat r < 10
    then \<exists>k'. liballoc M k proc sz r = Some (0, k', proc\<lparr>regs := (regs proc)[unat r := sbrk (mmap m ! 0)]\<rparr>)
    else liballoc M k proc sz r = None"
proof -
  have "mm_alloc M k 0 (sint r) sz = Some (0, sbrk (mmap m ! 0), k\<lparr>mm := Some (alloc_mm m (unat r) sz)\<rparr>)"
    using mm_alloc_eq [OF m sint_region(1,2) [OF r], of sz M] free sz by (simp add: sint_region(3) [OF r])
  then show ?thesis using regs by (simp add: liballoc_def)
qed

definition demo_proc :: pcb_t where
  "demo_proc = \<lparr>pid = 1, priority = 0, path = ''demo'', code = \<lparr>cs_text = [], cs_size = 0\<rparr>,
     regs = replicate 10 0, pc = 0, prio = 0, bp = 0\<rparr>"

theorem liballoc_register_range_witness:
  "\<not> rg_used (symrgtbl demo_mm ! 12) \<and> liballoc list_ops demo_krnl demo_proc 100 12 = None \<and>
   (\<exists>k'. liballoc list_ops demo_krnl demo_proc 100 3 = Some (0, k', demo_proc\<lparr>regs := (regs demo_proc)[3 := 4096]\<rparr>))"
  using liballoc_register_range [of demo_krnl demo_mm 12 100 demo_proc list_ops]
    liballoc_register_range [of demo_krnl demo_mm 3 100 demo_proc list_ops] rg_inv_init [of "[]"]
  by (simp add: demo_mm_def init_mm_def Let_def PAGING_MAX_SYMTBL_SZ_def PAGING_PAGESZ_def rg_used_def demo_proc_def)

end
