(* ===== verification/ProcMem.thy ===== *)
theory ProcMem
  imports Region
begin

unbundle bit_operations_syntax

text \<open>
  Reading and writing the memory of a process through its pages. The processes \<open>ms\<close> share one
  device; \<open>vbyte\<close> is the byte a process sees at a virtual address of the 22-bit bus. The facts
  about \<^verbatim>\<open>pg_getpage\<close>, \<^verbatim>\<open>pg_getval\<close> and \<^verbatim>\<open>pg_setval\<close> give the interface \<open>byte_memory\<close>, in
  which persistence and isolation are proved for arbitrary interleavings.
\<close>

section \<open>The device and the tables\<close>

lemma frm_pgd: "pgd m = pgd m' \<Longrightarrow> frm m mp q = frm m' mp q"
  by (induction q) (simp_all add: frm.simps)

lemma frm_storage: "storage mp = storage mp' \<Longrightarrow> frm m mp q = frm m mp' q"
  by (induction q) (simp_all add: frm.simps entry_def)

lemma frm_of_pgd: "pgd m = pgd m' \<Longrightarrow> frm_of (ms(i \<mapsto> m)) mp = frm_of (ms(i \<mapsto> m')) mp"
  by (intro HOL.ext) (simp add: frm_of_def frm_pgd [of m m'])

lemma frm_of_storage: "storage mp = storage mp' \<Longrightarrow> frm_of ms mp = frm_of ms mp'"
  by (intro HOL.ext) (simp add: frm_of_def frm_storage [of mp mp'] split: option.splits)

lemma vm_inv_pgd: "pgd m = pgd m' \<Longrightarrow> vm_inv (ms(i \<mapsto> m)) mp = vm_inv (ms(i \<mapsto> m')) mp"
  unfolding vm_inv_def frm_of_pgd [of m m'] by auto

lemma grows_pgd:
  "pgd m = pgd m' \<Longrightarrow> grows ms mp (ms(i \<mapsto> m)) mp' N = grows ms mp (ms(i \<mapsto> m')) mp' N"
  unfolding grows_def frm_of_pgd [of m m'] vm_inv_pgd [of m m'] ..

lemma vm_inv_take:
  assumes inv: "vm_inv ms mp" and g: "g \<in> set (free_fp_list mp)"
    and mp1: "free_fp_list mp1 = remove1 g (free_fp_list mp)" "same_bytes mp mp1"
  shows "vm_inv ms mp1" "g \<notin> set (free_fp_list mp1)" "\<not> owned ms mp1 (unat g)" "unat g < nframes mp1"
    "frm_of ms mp1 = frm_of ms mp"
proof -
  have d: "distinct (free_fp_list mp)" using vm_invD(1) [OF inv] by (simp add: dev_ok_def)
  note gf = free_frame [OF inv g]
  show F: "frm_of ms mp1 = frm_of ms mp" by (rule frm_of_storage) (rule same_bytesD [OF mp1(2)])
  have sub: "set (free_fp_list mp1) \<subseteq> set (free_fp_list mp)" by (simp add: mp1 set_remove1_subset)
  have nf: "nframes mp1 = nframes mp" by (rule same_bytesD [OF mp1(2)])
  show "g \<notin> set (free_fp_list mp1)" using d by (simp add: mp1)
  show "\<not> owned ms mp1 (unat g)" "unat g < nframes mp1" using gf by (simp_all add: owned_def F nf)
  show "vm_inv ms mp1"
    using inv dev_ok_take [OF vm_invD(1) [OF inv] mp1(2,1)] sub unfolding vm_inv_def F nf by blast
qed

lemma vm_inv_put:
  assumes inv: "vm_inv ms mp" and g: "g \<notin> set (free_fp_list mp)" "\<not> owned ms mp (unat g)" "unat g < nframes mp"
    and mp1: "mset (free_fp_list mp1) = add_mset g (mset (free_fp_list mp))" "same_bytes mp mp1"
  shows "vm_inv ms mp1" "frm_of ms mp1 = frm_of ms mp" "set (free_fp_list mp1) = insert g (set (free_fp_list mp))"
proof -
  show F: "frm_of ms mp1 = frm_of ms mp" by (rule frm_of_storage) (rule same_bytesD [OF mp1(2)])
  show set: "set (free_fp_list mp1) = insert g (set (free_fp_list mp))"
    by (metis mp1(1) set_mset_add_mset_insert set_mset_mset)
  have dev: "dev_ok mp" by (rule vm_invD(1) [OF inv])
  have "distinct (free_fp_list mp1) \<longleftrightarrow> distinct (g # free_fp_list mp)"
    using mp1(1) by (intro mset_eq_imp_distinct_iff) simp
  then have "dev_ok mp1" using dev g by (simp add: dev_ok_def set same_bytesD [OF mp1(2)])
  moreover have "of_nat f \<noteq> g" if "frm_of ms mp k q = Some f" for k q f
  proof
    assume "of_nat f = g"
    moreover have "f < 2 ^ 64" using vm_invD(3) [OF inv that] nframes_bound [OF dev] by simp
    ultimately have "f = unat g" by (auto simp: unat_of_nat)
    with that g(2) show False by (auto simp: owned_def)
  qed
  ultimately show "vm_inv ms mp1"
    using inv unfolding vm_inv_def F set same_bytesD(5) [OF mp1(2)] by blast
qed

section \<open>Getting a page\<close>

lemma grows_after_take:
  assumes inv: "vm_inv ms mp" and mp1: "free_fp_list mp1 = remove1 g (free_fp_list mp)" "same_bytes mp mp1"
    and G: "grows ms mp1 ms' mp' N"
  shows "grows ms mp ms' mp' N"
proof -
  have F: "frm_of ms mp1 = frm_of ms mp" by (rule frm_of_storage) (rule same_bytesD [OF mp1(2)])
  have "set (free_fp_list mp1) \<subseteq> set (free_fp_list mp)" by (simp add: mp1 set_remove1_subset)
  with G show ?thesis unfolding grows_def F same_bytesD [OF mp1(2)] by blast
qed

lemma grows_then_put:
  assumes G: "grows ms mp ms' mp' N" and g: "g \<in> set (free_fp_list mp)" "g \<notin> set (free_fp_list mp')"
      "\<not> owned ms' mp' (unat g)" "unat g < nframes mp'"
    and mp2: "mset (free_fp_list mp2) = add_mset g (mset (free_fp_list mp'))" "same_bytes mp' mp2"
  shows "grows ms mp ms' mp2 N"
proof -
  note P = vm_inv_put [OF growsD(1) [OF G] g(2-4) mp2]
  show ?thesis
    unfolding grows_def P(2,3) same_bytesD [OF mp2(2)] using G P(1) g(1) unfolding grows_def by blast
qed

lemma leaf_u32:
  "PAGING_PTE_PRESENT (ucast (ucast e :: u32)) = PAGING_PTE_PRESENT e"
  "PAGING_PTE_FPN (ucast (ucast e :: u32)) = PAGING_PTE_FPN e"
proof -
  have b: "bit (ucast (ucast e :: u32) :: u64) n = bit e n" if "n \<le> 31" for n
    using that by (simp add: bit_simps)
  show "PAGING_PTE_PRESENT (ucast (ucast e :: u32)) = PAGING_PTE_PRESENT e"
    using b by (simp add: PRESENT_bit)
  show "PAGING_PTE_FPN (ucast (ucast e :: u32)) = PAGING_PTE_FPN e"
    by (rule bit_word_eqI) (use b in \<open>auto simp: bit_PTE_FPN\<close>)
qed

text \<open>
  \<^verbatim>\<open>pg_getpage\<close> for a page of the bus: a page that is mapped is found without any change, a
  page that is not mapped gets a frame, and only with fewer than five free frames may it fail.
\<close>

lemma pg_getpage_ok:
  assumes M: "memphy_ok M" and inv: "vm_inv ms (mram k)" and m: "mm k = Some m" "ms i = Some m"
    and nz: "0 \<notin> set (free_fp_list (mram k))" and pgn: "0 \<le> pgn" "pgn < 1024"
  obtains (old) f where "frm_of ms (mram k) i (page_path (of_int pgn)) = Some f"
      "pg_getpage M k pgn = Some (0, of_nat f, k)"
    | (new) f m' mp' where "frm_of ms (mram k) i (page_path (of_int pgn)) = None"
      "pg_getpage M k pgn = Some (0, of_nat f, k\<lparr>mm := Some m', mram := mp'\<rparr>)"
      "frm_of (ms(i \<mapsto> m')) mp' i (page_path (of_int pgn)) = Some f"
      "grows ms (mram k) (ms(i \<mapsto> m')) mp' {(i, page_path (of_int pgn))}"
      "symrgtbl m' = symrgtbl m" "mmap m' = mmap m" "fifo_pgn m' = of_int pgn # fifo_pgn m"
    | (fail) m' mp' where "frm_of ms (mram k) i (page_path (of_int pgn)) = None"
      "pg_getpage M k pgn = Some (-1, 0, k\<lparr>mm := Some m', mram := mp'\<rparr>)"
      "grows ms (mram k) (ms(i \<mapsto> m')) mp' {}" "length (free_fp_list (mram k)) < 5"
      "symrgtbl m' = symrgtbl m" "mmap m' = mmap m" "fifo_pgn m' = fifo_pgn m"
proof -
  let ?p = "of_int pgn :: addr_t"
  let ?mp = "mram k"
  let ?e = "leaf m ?mp (pt_path (page_dir ?p)) (unat (pt_idx (page_dir ?p)))"
  have get: "pte_get_entry k ?p = Some (ucast ?e)" by (rule pte_get_entry_leaf [OF inv m])
  have F: "frm_of ms ?mp i (page_path ?p) =
      (if PAGING_PTE_PRESENT ?e then Some (unat (PAGING_PTE_FPN ?e)) else None)"
    using m by (simp add: frm_of_def frm_page_leaf wf_page_path Let_def)
  have range: "\<not> (pgn < 0 \<or> pgn \<ge> uint PAGING_MAX_PGN)" using pgn by (simp add: PAGING_MAX_PGN_eq)
  show thesis
  proof (cases "PAGING_PTE_PRESENT ?e")
    case True
    have "(ucast (PAGING_PTE_FPN ?e) :: u32) = of_nat (unat (PAGING_PTE_FPN ?e))" by simp
    with True range get F show thesis
      by (intro old [of "unat (PAGING_PTE_FPN ?e)"]) (simp_all add: pg_getpage_def leaf_u32)
  next
    case False
    then have None: "frm_of ms ?mp i (page_path ?p) = None" using F by simp
    show thesis
    proof (cases rule: get_freefp_cases [OF M, of ?mp, case_names none frame])
      case (none r f)
      have "k\<lparr>mm := Some m, mram := ?mp\<rparr> = k" using m by (cases k) simp
      moreover have "ms(i \<mapsto> m) = ms" using m by auto
      ultimately show thesis
        using none range get False grows_refl [OF inv] None
        by (intro fail [where m' = m and mp' = ?mp]) (simp_all add: pg_getpage_def leaf_u32)
    next
      case (frame g mp1)
      note T = vm_inv_take [OF inv frame(2-4)]
      let ?k1 = "k\<lparr>mram := mp1\<rparr>"
      have inv1: "vm_inv ms (mram ?k1)" and m1: "mm ?k1 = Some m" using T(1) m by simp_all
      have nz1: "0 \<notin> set (free_fp_list (mram ?k1))"
        using nz frame(3) notin_set_remove1 by fastforce
      have g: "unat g < nframes (mram ?k1)" "g \<notin> set (free_fp_list (mram ?k1))" "\<not> owned ms (mram ?k1) (unat g)"
        using T by simp_all
      show thesis
      proof (cases rule: pte_set_fpn_ok [OF M inv1 m1 m(2) nz1 g, of ?p, case_names fail mapped])
        case S: (fail d mp2)
        obtain r mp3 where put: "MEMPHY_put_freefp M mp2 g = (r, mp3)" by fastforce
        with M have P: "mset (free_fp_list mp3) = add_mset g (mset (free_fp_list mp2))" "same_bytes mp2 mp3"
          unfolding memphy_ok_def put_ok_def by blast+
        have S2: "ext ms mp1 (ms(i \<mapsto> m\<lparr>pgd := d\<rparr>)) mp2" using S(2) by simp
        have g2: "g \<notin> set (free_fp_list mp2)" "\<not> owned (ms(i \<mapsto> m\<lparr>pgd := d\<rparr>)) mp2 (unat g)" "unat g < nframes mp2"
          using extD(2,5) [OF S2] ext_not_owned [OF S2 T(3,2)] T(2,4) by (auto simp: nframes_def)
        have "grows ms ?mp (ms(i \<mapsto> m\<lparr>pgd := d\<rparr>)) mp3 {}"
          by (rule grows_then_put [OF grows_after_take [OF inv frame(3,4) ext_grows [OF S2]] frame(2) g2 P])
        moreover have "length (free_fp_list ?mp) < 5"
          using S(3) frame(2,3) by (simp add: length_remove1)
        ultimately show thesis
          using range get False None frame(1) S(1) put
          by (intro fail [where m' = "m\<lparr>pgd := d\<rparr>" and mp' = mp3]) (simp_all add: pg_getpage_def leaf_u32)
      next
        case S: (mapped d mp2)
        let ?m' = "m\<lparr>pgd := d, fifo_pgn := ?p # fifo_pgn m\<rparr>"
        have same: "pgd ?m' = pgd (m\<lparr>pgd := d\<rparr>)" by simp
        have "grows ms mp1 (ms(i \<mapsto> ?m')) mp2 {(i, page_path ?p)}"
          using S(2) unfolding grows_pgd [OF same] by simp
        then have "grows ms ?mp (ms(i \<mapsto> ?m')) mp2 {(i, page_path ?p)}"
          by (rule grows_after_take [OF inv frame(3,4)])
        moreover have "frm_of (ms(i \<mapsto> ?m')) mp2 i (page_path ?p) = Some (unat g)"
          using S(3) unfolding frm_of_pgd [OF same] .
        moreover have "(ucast g :: u32) = of_nat (unat g)" by simp
        ultimately show thesis
          using range get False None frame(1) S(1)
          by (intro new [where f = "unat g" and m' = ?m' and mp' = mp2])
            (simp_all add: pg_getpage_def leaf_u32 split: list.splits)
      qed
    qed
  qed
qed

section \<open>Virtual bytes\<close>

definition vaddr :: "u32 \<Rightarrow> nat" where
  "vaddr addr = unat addr mod 2 ^ 22"

definition vbyte :: "maps \<Rightarrow> memphy_struct \<Rightarrow> nat \<Rightarrow> nat \<Rightarrow> byte option" where
  "vbyte ms mp i a =
     map_option (\<lambda>f. storage mp (4096 * f + a mod 4096)) (frm_of ms mp i (page_path (of_nat (a div 4096))))"

lemma vaddr_less: "vaddr addr < 2 ^ 22"
  by (simp add: vaddr_def)

lemma vaddr_page: "uint (PAGING_PGN (ucast addr)) = int (vaddr addr div 4096)"
proof -
  have "unat (PAGING_PGN (ucast addr)) = unat addr div 4096 mod 1024"
    unfolding PGN_take_bit
    by (simp only: unsigned_take_bit_eq unat_drop_bit_eq unat_ucast_up) (simp add: take_bit_eq_mod drop_bit_eq_div)
  also have "\<dots> = vaddr addr div 4096"
    using mod_mult2_eq [of "unat addr" 4096 1024] by (simp add: vaddr_def)
  finally show ?thesis by (metis uint_nat)
qed

lemma vaddr_offset: "unat (PAGING_OFFST (ucast addr)) = vaddr addr mod 4096"
proof -
  have "unat (PAGING_OFFST (ucast addr)) = unat addr mod 4096"
    unfolding OFFST_take_bit
    by (simp only: unsigned_take_bit_eq unat_ucast_up) (simp add: take_bit_eq_mod)
  also have "\<dots> = vaddr addr mod 4096" by (simp add: vaddr_def mod_mod_cancel)
  finally show ?thesis .
qed

lemma page_path_eq:
  "a < 2 ^ 22 \<Longrightarrow> b < 2 ^ 22 \<Longrightarrow>
   page_path (of_nat (a div 4096)) = page_path (of_nat (b div 4096)) \<longleftrightarrow> a div 4096 = b div 4096"
proof -
  assume "a < 2 ^ 22" "b < 2 ^ 22"
  then have l: "a div 4096 < 1024" "b div 4096 < 1024" by (simp_all add: less_mult_imp_div_less)
  have u: "unat (of_nat n :: addr_t) = n" if "n < 1024" for n
    using that by (simp only: unat_of_nat) simp
  have "page_path (of_nat (a div 4096)) = page_path (of_nat (b div 4096)) \<longleftrightarrow>
      (of_nat (a div 4096) :: addr_t) = of_nat (b div 4096)"
    by (rule page_path_inject) (use u l in simp_all)
  also have "\<dots> \<longleftrightarrow> a div 4096 = b div 4096" using u l by (metis word_unat_eq_iff)
  finally show ?thesis .
qed

lemma grows_vbyte:
  assumes G: "grows ms mp ms' mp' N" and b: "(j, page_path (of_nat (b div 4096))) \<notin> N"
  shows "vbyte ms' mp' j b = vbyte ms mp j b"
proof -
  have l: "length (page_path (of_nat (b div 4096))) = 5" by (rule wf_page_path)
  have "frm_of ms' mp' j (page_path (of_nat (b div 4096))) = frm_of ms mp j (page_path (of_nat (b div 4096)))"
    by (rule growsD(7) [OF G l b])
  then show ?thesis
    using growsD(8) [OF G _ l, of j _ "b mod 4096"]
    by (cases "frm_of ms mp j (page_path (of_nat (b div 4096)))") (simp_all add: vbyte_def)
qed

lemma phyaddr_frame:
  assumes "f < 8192" "unat off < 4096"
  shows "\<exists>a. phyaddr (of_nat f) off = Some a \<and> unat a = 4096 * f + unat off"
proof -
  have f: "unat (of_nat f :: u32) = f" using assms(1) by (simp only: unat_of_nat) simp
  then have "sint (of_nat f :: u32) = int f" using sint_eq_unat [of "of_nat f"] assms(1) by simp
  then have "phyaddr (of_nat f) off = Some (of_nat (4096 * f) + off)"
    using assms(1) by (simp add: phyaddr_def int_pages_def mult.commute)
  moreover have "unat (of_nat (4096 * f) + off :: addr_t) = 4096 * f + unat off"
  proof -
    have "unat (of_nat (4096 * f) :: addr_t) = 4096 * f" using assms(1) by (simp only: unat_of_nat) simp
    moreover have "4096 * f + unat off < 2 ^ 64" using assms by simp
    ultimately show ?thesis by (simp add: unat_word_ariths)
  qed
  ultimately show ?thesis by blast
qed

text \<open>Writing a byte of a data frame changes no table.\<close>

definition poke :: "memphy_struct \<Rightarrow> nat \<Rightarrow> byte \<Rightarrow> memphy_struct" where
  "poke mp a v = mp\<lparr>storage := (storage mp)(a := v)\<rparr>"

lemma frm_of_poke:
  assumes inv: "vm_inv ms mp" and f: "frm_of ms mp i q = Some f" "length q = 5" and off: "off < 4096"
  shows "frm_of ms (poke mp (4096 * f + off) v) = frm_of ms mp"
proof (intro HOL.ext)
  fix j r
  show "frm_of ms (poke mp (4096 * f + off) v) j r = frm_of ms mp j r"
  proof (cases "ms j = None \<or> \<not> wf_path r")
    case False
    then obtain m where m: "ms j = Some m" and r: "wf_path r" by auto
    have "frm m (poke mp (4096 * f + off) v) r = frm m mp r"
    proof (rule frm_cong [OF _ r])
      fix p h l assume A: "length p \<le> 4" "wf_path p" "frm m mp p = Some h" "l < (512::nat)"
      have "h \<noteq> f"
        using frm_of_other_level [OF inv frm_ofI [of ms j, OF m A(2,3)] f(1)] A(1) f(2) by simp
      then have "ld64 (storage (poke mp (4096 * f + off) v)) (4096 * h + 8 * l) = ld64 (storage mp) (4096 * h + 8 * l)"
        using A(4) off by (intro ld64_cong) (auto simp: poke_def)
      then show "entry (poke mp (4096 * f + off) v) h l = entry mp h l" by (simp add: entry_def)
    qed
    with m r show ?thesis by (simp add: frm_of_def)
  qed (auto simp: frm_of_def split: option.splits)
qed

lemma poke_fields [simp]:
  "storage_sz (poke mp a v) = storage_sz mp" "maxsz (poke mp a v) = maxsz mp" "rdmflg (poke mp a v) = rdmflg mp"
  "free_fp_list (poke mp a v) = free_fp_list mp" "nframes (poke mp a v) = nframes mp"
  "dev_ok (poke mp a v) = dev_ok mp"
  by (simp_all add: poke_def nframes_def dev_ok_def)

lemma vm_inv_poke:
  assumes inv: "vm_inv ms mp" and f: "frm_of ms mp i q = Some f" "length q = 5" and off: "off < 4096"
  shows "vm_inv ms (poke mp (4096 * f + off) v)"
  using inv unfolding vm_inv_def frm_of_poke [OF inv f off] by simp

lemma frame_byte_eq:
  "x < 4096 \<Longrightarrow> y < 4096 \<Longrightarrow> 4096 * h + x = 4096 * f + y \<longleftrightarrow> h = f \<and> x = (y::nat)"
  by (cases "h < f"; cases "f < h") auto

lemma vbyte_poke:
  assumes inv: "vm_inv ms mp" and a: "a < 2 ^ 22" and b: "b < 2 ^ 22"
    and f: "frm_of ms mp i (page_path (of_nat (a div 4096))) = Some f"
  shows "vbyte ms (poke mp (4096 * f + a mod 4096) v) j b = (if j = i \<and> b = a then Some v else vbyte ms mp j b)"
proof -
  let ?q = "page_path (of_nat (b div 4096))"
  have F: "frm_of ms (poke mp (4096 * f + a mod 4096) v) = frm_of ms mp"
    by (rule frm_of_poke [OF inv f wf_page_path(2)]) simp
  show ?thesis
  proof (cases "frm_of ms mp j ?q")
    case None
    with f show ?thesis by (auto simp: vbyte_def F)
  next
    case (Some h)
    have "h = f \<longleftrightarrow> j = i \<and> b div 4096 = a div 4096"
    proof
      assume "h = f"
      then have "j = i \<and> ?q = page_path (of_nat (a div 4096))" using vm_invD(6) [OF inv Some] f by blast
      then show "j = i \<and> b div 4096 = a div 4096" using page_path_eq [OF b a] by simp
    qed (use Some f in auto)
    moreover have "4096 * h + b mod 4096 = 4096 * f + a mod 4096 \<longleftrightarrow> h = f \<and> b mod 4096 = a mod 4096"
      by (rule frame_byte_eq) simp_all
    moreover have "b = a \<longleftrightarrow> b div 4096 = a div 4096 \<and> b mod 4096 = a mod 4096" by (metis div_mult_mod_eq)
    ultimately have same: "4096 * h + b mod 4096 = 4096 * f + a mod 4096 \<longleftrightarrow> j = i \<and> b = a" by blast
    have "vbyte ms (poke mp (4096 * f + a mod 4096) v) j b =
        Some (((storage mp)(4096 * f + a mod 4096 := v)) (4096 * h + b mod 4096))"
      by (simp only: vbyte_def F Some option.map) (simp add: poke_def)
    moreover have "vbyte ms mp j b = Some (storage mp (4096 * h + b mod 4096))"
      by (simp only: vbyte_def Some option.map)
    ultimately show ?thesis by (simp only: fun_upd_apply same split: if_split) blast
  qed
qed

section \<open>Reading and writing a virtual byte\<close>

text \<open>
  What a step of process \<open>i\<close> at virtual address \<open>a\<close> may do to the memory of all processes: every
  byte that was visible stays, and nothing outside the page of \<open>a\<close> of process \<open>i\<close> becomes visible.
\<close>

definition keeps_bytes :: "maps \<Rightarrow> memphy_struct \<Rightarrow> maps \<Rightarrow> memphy_struct \<Rightarrow> nat \<Rightarrow> nat \<Rightarrow> bool" where
  "keeps_bytes ms mp ms' mp' i a \<longleftrightarrow> vm_inv ms' mp' \<and> set (free_fp_list mp') \<subseteq> set (free_fp_list mp) \<and>
     (\<forall>j b. b < 2 ^ 22 \<and> (vbyte ms mp j b \<noteq> None \<or> j \<noteq> i \<or> b div 4096 \<noteq> a div 4096) \<longrightarrow>
        vbyte ms' mp' j b = vbyte ms mp j b)"

lemma pg_getpage_view:
  assumes M: "memphy_ok M" and inv: "vm_inv ms (mram k)" and m: "mm k = Some m" "ms i = Some m"
    and nz: "0 \<notin> set (free_fp_list (mram k))" and a: "a < 2 ^ 22"
  obtains (ok) f m' mp' where
      "pg_getpage M k (int (a div 4096)) = Some (0, of_nat f, k\<lparr>mm := Some m', mram := mp'\<rparr>)"
      "frm_of (ms(i \<mapsto> m')) mp' i (page_path (of_nat (a div 4096))) = Some f"
      "keeps_bytes ms (mram k) (ms(i \<mapsto> m')) mp' i a"
      "vbyte ms (mram k) i a \<noteq> None \<longrightarrow> m' = m \<and> mp' = mram k"
      "symrgtbl m' = symrgtbl m" "mmap m' = mmap m"
    | (fail) m' mp' where "vbyte ms (mram k) i a = None" "length (free_fp_list (mram k)) < 5"
      "pg_getpage M k (int (a div 4096)) = Some (-1, 0, k\<lparr>mm := Some m', mram := mp'\<rparr>)"
      "keeps_bytes ms (mram k) (ms(i \<mapsto> m')) mp' i a"
      "\<And>b. vbyte (ms(i \<mapsto> m')) mp' i b = vbyte ms (mram k) i b"
      "symrgtbl m' = symrgtbl m" "mmap m' = mmap m"
proof -
  let ?p = "page_path (of_nat (a div 4096))"
  have pg: "0 \<le> int (a div 4096)" "int (a div 4096) < 1024" using a by (simp_all add: less_mult_imp_div_less)
  have ofi: "(of_int (int (a div 4096)) :: addr_t) = of_nat (a div 4096)" by simp
  have none: "vbyte ms (mram k) i b = None \<longleftrightarrow> frm_of ms (mram k) i (page_path (of_nat (b div 4096))) = None" for b
    by (simp add: vbyte_def)
  show thesis
  proof (cases rule: pg_getpage_ok [OF M inv m nz pg, unfolded ofi, case_names old new fail])
    case (old f)
    have "k\<lparr>mm := Some m, mram := mram k\<rparr> = k" "ms(i \<mapsto> m) = ms" using m by (cases k, auto)
    with old inv show thesis by (intro ok [where m' = m and mp' = "mram k"]) (simp_all add: keeps_bytes_def)
  next
    case (new f m' mp')
    have "vbyte (ms(i \<mapsto> m')) mp' j b = vbyte ms (mram k) j b"
      if "b < 2 ^ 22" "vbyte ms (mram k) j b \<noteq> None \<or> j \<noteq> i \<or> b div 4096 \<noteq> a div 4096" for j b
      using that new(1) page_path_eq [OF that(1) a] none [of b] by (intro grows_vbyte [OF new(4)]) auto
    then have "keeps_bytes ms (mram k) (ms(i \<mapsto> m')) mp' i a"
      using growsD(1,5) [OF new(4)] by (simp add: keeps_bytes_def)
    with new none show thesis by (intro ok [where f = f and m' = m' and mp' = mp']) auto
  next
    case F: (fail m' mp')
    have "vbyte (ms(i \<mapsto> m')) mp' j b = vbyte ms (mram k) j b" for j b
      by (rule grows_vbyte [OF F(3)]) simp
    moreover from this have "keeps_bytes ms (mram k) (ms(i \<mapsto> m')) mp' i a"
      using growsD(1,5) [OF F(3)] by (simp add: keeps_bytes_def)
    ultimately show thesis using F none by (intro fail [where m' = m' and mp' = mp']) auto
  qed
qed

lemma pg_setval_ok:
  assumes M: "memphy_ok M" and inv: "vm_inv ms (mram k)" and m: "mm k = Some m" "ms i = Some m"
    and nz: "0 \<notin> set (free_fp_list (mram k))" and a: "a = vaddr addr"
  obtains (ok) m' mp1 mp' where "pg_setval M k addr v = Some (0, k\<lparr>mm := Some m', mram := mp'\<rparr>)"
      "keeps_bytes ms (mram k) (ms(i \<mapsto> m')) mp1 i a"
      "vm_inv (ms(i \<mapsto> m')) mp'" "free_fp_list mp' = free_fp_list mp1"
      "\<And>j b. b < 2 ^ 22 \<Longrightarrow> vbyte (ms(i \<mapsto> m')) mp' j b = (if j = i \<and> b = a then Some v else vbyte (ms(i \<mapsto> m')) mp1 j b)"
      "symrgtbl m' = symrgtbl m" "mmap m' = mmap m" "vbyte (ms(i \<mapsto> m')) mp1 i a \<noteq> None"
    | (fail) m' mp' where "vbyte ms (mram k) i a = None" "length (free_fp_list (mram k)) < 5"
      "pg_setval M k addr v = Some (-1, k\<lparr>mm := Some m', mram := mp'\<rparr>)"
      "keeps_bytes ms (mram k) (ms(i \<mapsto> m')) mp' i a"
      "symrgtbl m' = symrgtbl m" "mmap m' = mmap m" "\<And>b. vbyte (ms(i \<mapsto> m')) mp' i b = vbyte ms (mram k) i b"
proof -
  have a22: "a < 2 ^ 22" using a vaddr_less by simp
  note simps = pg_setval_def Let_def vaddr_page a [symmetric]
  show thesis
  proof (cases rule: pg_getpage_view [OF M inv m nz a22, case_names ok fail])
    case P: (ok f m' mp1)
    let ?off = "PAGING_OFFST (ucast addr)"
    have inv1: "vm_inv (ms(i \<mapsto> m')) mp1" using P(3) by (simp add: keeps_bytes_def)
    have f: "f < nframes mp1" "f < 8192"
      using vm_invD(3) [OF inv1 P(2)] nframes_bound [OF vm_invD(1) [OF inv1]] by simp_all
    have off: "unat ?off < 4096" "unat ?off = a mod 4096" using vaddr_offset [of addr] a by simp_all
    from phyaddr_frame [OF f(2) off(1)] obtain t where
      t: "phyaddr (of_nat f) ?off = Some t" "unat t = 4096 * f + a mod 4096" by (auto simp: off(2))
    have "MEMPHY_write M mp1 t v = (0, poke mp1 (4096 * f + a mod 4096) v)"
    proof -
      have "rdmflg mp1 \<noteq> 0" using vm_invD(1) [OF inv1] by (simp add: dev_ok_def)
      moreover have "unat t < storage_sz mp1" using frame_inside [OF f(1)] t(2) by simp
      ultimately show ?thesis using M t(2) unfolding memphy_ok_def write_ok_def by (simp add: poke_def)
    qed
    then have "pg_setval M k addr v = Some (0, k\<lparr>mm := Some m', mram := poke mp1 (4096 * f + a mod 4096) v\<rparr>)"
      using P(1) t(1) by (simp add: simps)
    then show thesis
    proof (rule ok [OF _ P(3) _ _ _ P(5,6)])
      show "vm_inv (ms(i \<mapsto> m')) (poke mp1 (4096 * f + a mod 4096) v)"
        by (rule vm_inv_poke [OF inv1 P(2) wf_page_path(2)]) simp
      show "vbyte (ms(i \<mapsto> m')) (poke mp1 (4096 * f + a mod 4096) v) j b =
          (if j = i \<and> b = a then Some v else vbyte (ms(i \<mapsto> m')) mp1 j b)" if "b < 2 ^ 22" for j b
        by (rule vbyte_poke [OF inv1 a22 that P(2)])
      show "vbyte (ms(i \<mapsto> m')) mp1 i a \<noteq> None" using P(2) by (simp add: vbyte_def)
    qed simp
  next
    case F: (fail m' mp')
    then show thesis by (intro fail [where m' = m' and mp' = mp']) (simp_all add: simps)
  qed
qed

lemma pg_getval_ok:
  assumes M: "memphy_ok M" and inv: "vm_inv ms (mram k)" and m: "mm k = Some m" "ms i = Some m"
    and nz: "0 \<notin> set (free_fp_list (mram k))" and a: "a = vaddr addr"
  obtains (ok) v m' mp' where "pg_getval M k addr = Some (0, v, k\<lparr>mm := Some m', mram := mp'\<rparr>)"
      "keeps_bytes ms (mram k) (ms(i \<mapsto> m')) mp' i a" "vbyte (ms(i \<mapsto> m')) mp' i a = Some v"
      "vbyte ms (mram k) i a \<noteq> None \<longrightarrow> m' = m \<and> mp' = mram k"
      "symrgtbl m' = symrgtbl m" "mmap m' = mmap m"
    | (fail) m' mp' where "vbyte ms (mram k) i a = None" "length (free_fp_list (mram k)) < 5"
      "pg_getval M k addr = Some (-1, 0, k\<lparr>mm := Some m', mram := mp'\<rparr>)"
      "keeps_bytes ms (mram k) (ms(i \<mapsto> m')) mp' i a"
      "symrgtbl m' = symrgtbl m" "mmap m' = mmap m" "\<And>b. vbyte (ms(i \<mapsto> m')) mp' i b = vbyte ms (mram k) i b"
proof -
  have a22: "a < 2 ^ 22" using a vaddr_less by simp
  note simps = pg_getval_def Let_def vaddr_page a [symmetric]
  show thesis
  proof (cases rule: pg_getpage_view [OF M inv m nz a22, case_names ok fail])
    case P: (ok f m' mp1)
    let ?off = "PAGING_OFFST (ucast addr)"
    have inv1: "vm_inv (ms(i \<mapsto> m')) mp1" using P(3) by (simp add: keeps_bytes_def)
    have f: "f < nframes mp1" "f < 8192"
      using vm_invD(3) [OF inv1 P(2)] nframes_bound [OF vm_invD(1) [OF inv1]] by simp_all
    have off: "unat ?off < 4096" "unat ?off = a mod 4096" using vaddr_offset [of addr] a by simp_all
    from phyaddr_frame [OF f(2) off(1)] obtain t where
      t: "phyaddr (of_nat f) ?off = Some t" "unat t = 4096 * f + a mod 4096" by (auto simp: off(2))
    have "rdmflg mp1 \<noteq> 0" using vm_invD(1) [OF inv1] by (simp add: dev_ok_def)
    moreover have "unat t < storage_sz mp1" using frame_inside [OF f(1)] t(2) by simp
    ultimately have "MEMPHY_read M mp1 t = (0, storage mp1 (4096 * f + a mod 4096), mp1)"
      using M t(2) unfolding memphy_ok_def read_ok_def by simp
    then have "pg_getval M k addr = Some (0, storage mp1 (4096 * f + a mod 4096), k\<lparr>mm := Some m', mram := mp1\<rparr>)"
      using P(1) t(1) by (simp add: simps)
    moreover have "vbyte (ms(i \<mapsto> m')) mp1 i a = Some (storage mp1 (4096 * f + a mod 4096))"
      using P(2) by (simp add: vbyte_def)
    ultimately show thesis using ok P(3-6) by blast
  next
    case F: (fail m' mp')
    then show thesis by (intro fail [where m' = m' and mp' = mp']) (simp_all add: simps)
  qed
qed

end
