(* ===== verification/MemSafety.thy ===== *)
theory MemSafety
  imports ProcMem
begin

unbundle bit_operations_syntax

text \<open>
  Persistence and isolation of process memory. The interface \<open>byte_memory\<close> states what one read
  and one write promise; that a written byte stays readable over any interleaving of
  accesses of all processes, and that no process changes the memory of another, is proved from
  it and carried to \<^verbatim>\<open>pg_getval\<close>, \<^verbatim>\<open>pg_setval\<close>, \<^verbatim>\<open>libread\<close> and \<^verbatim>\<open>libwrite\<close>.
\<close>

section \<open>The interface\<close>

datatype mem_op = Mem_rd nat u32 | Mem_wr nat u32 byte

fun op_proc :: "mem_op \<Rightarrow> nat" where
  "op_proc (Mem_rd i x) = i"
| "op_proc (Mem_wr i x v) = i"

fun op_writes :: "mem_op \<Rightarrow> nat \<Rightarrow> nat \<Rightarrow> bool" where
  "op_writes (Mem_rd i x) j b = False"
| "op_writes (Mem_wr i x v) j b = (i = j \<and> vaddr x = b)"

locale byte_memory =
  fixes inv :: "'s \<Rightarrow> bool"
    and live :: "'s \<Rightarrow> nat \<Rightarrow> bool"
    and look :: "'s \<Rightarrow> nat \<Rightarrow> nat \<Rightarrow> byte option"
    and rd :: "nat \<Rightarrow> u32 \<Rightarrow> 's \<Rightarrow> (int \<times> byte \<times> 's) option"
    and wr :: "nat \<Rightarrow> u32 \<Rightarrow> byte \<Rightarrow> 's \<Rightarrow> (int \<times> 's) option"
  assumes rd_law: "inv s \<Longrightarrow> live s i \<Longrightarrow> \<exists>r v s'. rd i x s = Some (r, v, s') \<and> inv s' \<and> live s' = live s \<and>
      (r = 0 \<longrightarrow> look s' i (vaddr x) = Some v) \<and> (look s i (vaddr x) \<noteq> None \<longrightarrow> r = 0) \<and>
      (\<forall>j b. look s j b \<noteq> None \<or> j \<noteq> i \<longrightarrow> look s' j b = look s j b)"
    and wr_law: "inv s \<Longrightarrow> live s i \<Longrightarrow> \<exists>r s'. wr i x v s = Some (r, s') \<and> inv s' \<and> live s' = live s \<and>
      (r = 0 \<longrightarrow> look s' i (vaddr x) = Some v) \<and> (look s i (vaddr x) \<noteq> None \<longrightarrow> r = 0) \<and>
      (\<forall>j b. (look s j b \<noteq> None \<and> (j, b) \<noteq> (i, vaddr x)) \<or> j \<noteq> i \<longrightarrow> look s' j b = look s j b)"
begin

definition step :: "mem_op \<Rightarrow> 's \<Rightarrow> 's option" where
  "step p s = (case p of
     Mem_rd i x \<Rightarrow> map_option (\<lambda>(_, _, s'). s') (rd i x s)
   | Mem_wr i x v \<Rightarrow> map_option snd (wr i x v s))"

fun run :: "mem_op list \<Rightarrow> 's \<Rightarrow> 's option" where
  "run [] s = Some s"
| "run (p # ps) s = (case step p s of None \<Rightarrow> None | Some s' \<Rightarrow> run ps s')"

lemma step_law:
  assumes "inv s" "live s (op_proc p)"
  shows "\<exists>s'. step p s = Some s' \<and> inv s' \<and> live s' = live s \<and>
    (\<forall>j b. (look s j b \<noteq> None \<and> \<not> op_writes p j b) \<or> j \<noteq> op_proc p \<longrightarrow> look s' j b = look s j b)"
proof (cases p)
  case (Mem_rd i x)
  with rd_law [OF assms(1), of i x] assms(2) show ?thesis by (auto simp: step_def)
next
  case (Mem_wr i x v)
  with wr_law [OF assms(1), of i x v] assms(2) obtain r s' where "wr i x v s = Some (r, s')" "inv s'" "live s' = live s"
    "\<forall>j b. (look s j b \<noteq> None \<and> (j, b) \<noteq> (i, vaddr x)) \<or> j \<noteq> i \<longrightarrow> look s' j b = look s j b"
    by auto
  with Mem_wr show ?thesis by (intro exI [of _ s']) (auto simp: step_def)
qed

lemma run_persists:
  "inv s \<Longrightarrow> (\<forall>p \<in> set ps. live s (op_proc p) \<and> \<not> op_writes p i b) \<Longrightarrow> look s i b = Some v \<Longrightarrow>
   \<exists>s'. run ps s = Some s' \<and> inv s' \<and> live s' = live s \<and> look s' i b = Some v"
proof (induction ps arbitrary: s)
  case (Cons p ps)
  from step_law [OF Cons.prems(1), of p] Cons.prems(2) obtain s1 where s1: "step p s = Some s1" "inv s1"
    "live s1 = live s" "\<forall>j b. (look s j b \<noteq> None \<and> \<not> op_writes p j b) \<or> j \<noteq> op_proc p \<longrightarrow> look s1 j b = look s j b"
    by auto
  then have "look s1 i b = Some v" using Cons.prems(2,3) by auto
  with Cons.IH [OF s1(2)] Cons.prems(2) s1 show ?case by auto
qed simp

lemma run_isolated:
  "inv s \<Longrightarrow> (\<forall>p \<in> set ps. live s (op_proc p) \<and> op_proc p \<noteq> i) \<Longrightarrow>
   \<exists>s'. run ps s = Some s' \<and> inv s' \<and> look s' i = look s i"
proof (induction ps arbitrary: s)
  case (Cons p ps)
  from step_law [OF Cons.prems(1), of p] Cons.prems(2) obtain s1 where s1: "step p s = Some s1" "inv s1"
    "live s1 = live s" "\<forall>j b. (look s j b \<noteq> None \<and> \<not> op_writes p j b) \<or> j \<noteq> op_proc p \<longrightarrow> look s1 j b = look s j b"
    by auto
  then have "look s1 i = look s i" using Cons.prems(2) by (intro HOL.ext) auto
  with Cons.IH [OF s1(2)] Cons.prems(2) s1 show ?case by auto
qed simp

lemma write_run_read:
  assumes "inv s" "live s i" "wr i x v s = Some (0, s1)"
    and "\<forall>p \<in> set ps. live s (op_proc p) \<and> \<not> op_writes p i (vaddr x)"
  shows "\<exists>s2 s3. run ps s1 = Some s2 \<and> rd i x s2 = Some (0, v, s3)"
proof -
  from wr_law [OF assms(1,2), of x v] assms(3) have s1: "inv s1" "live s1 = live s" "look s1 i (vaddr x) = Some v"
    by auto
  from run_persists [OF s1(1) _ s1(3), of ps] assms(4) s1(2) obtain s2 where
    s2: "run ps s1 = Some s2" "inv s2" "live s2 = live s" "look s2 i (vaddr x) = Some v" by auto
  with rd_law [OF s2(2), of i x] assms(2) show ?thesis by fastforce
qed

end

section \<open>Page accesses of processes that share a device\<close>

text \<open>
  The state: the device operations, a kernel structure for the fields the accesses do not
  use, the memory maps of the processes and the device. An access of process \<open>i\<close> runs on the
  kernel structure with the memory map of \<open>i\<close>, as \<^verbatim>\<open>proc->krnl\<close> gives it.
\<close>

type_synonym vmem = "memphy_ops \<times> krnl_t \<times> maps \<times> memphy_struct"

definition vm_ok :: "vmem \<Rightarrow> bool" where
  "vm_ok s = (case s of (M, k, ms, mp) \<Rightarrow> memphy_ok M \<and> vm_inv ms mp \<and> 0 \<notin> set (free_fp_list mp))"

definition vm_live :: "vmem \<Rightarrow> nat \<Rightarrow> bool" where
  "vm_live s i = (case s of (M, k, ms, mp) \<Rightarrow> ms i \<noteq> None)"

definition vm_look :: "vmem \<Rightarrow> nat \<Rightarrow> nat \<Rightarrow> byte option" where
  "vm_look s i b = (case s of (M, k, ms, mp) \<Rightarrow> if b < 2 ^ 22 then vbyte ms mp i b else None)"

definition vm_rd :: "nat \<Rightarrow> u32 \<Rightarrow> vmem \<Rightarrow> (int \<times> byte \<times> vmem) option" where
  "vm_rd i x s = (case s of (M, k, ms, mp) \<Rightarrow> do {
     (r, v, k') \<leftarrow> pg_getval M (k\<lparr>mm := ms i, mram := mp\<rparr>) x;
     Some (r, v, (M, k, ms(i := mm k'), mram k')) })"

definition vm_wr :: "nat \<Rightarrow> u32 \<Rightarrow> byte \<Rightarrow> vmem \<Rightarrow> (int \<times> vmem) option" where
  "vm_wr i x v s = (case s of (M, k, ms, mp) \<Rightarrow> do {
     (r, k') \<leftarrow> pg_setval M (k\<lparr>mm := ms i, mram := mp\<rparr>) x v;
     Some (r, (M, k, ms(i := mm k'), mram k')) })"

lemma keeps_bytes_look:
  assumes "keeps_bytes ms mp ms' mp' i a" "vm_look (M, k, ms, mp) j b \<noteq> None \<or> j \<noteq> i"
  shows "vm_look (M, k, ms', mp') j b = vm_look (M, k, ms, mp) j b"
proof (cases "b < 2 ^ 22")
  case True
  then have "vbyte ms' mp' j b = vbyte ms mp j b"
    using assms unfolding keeps_bytes_def vm_look_def by (simp only: prod.case if_True) blast
  with True show ?thesis by (simp add: vm_look_def)
qed (simp add: vm_look_def)

lemma vm_live_upd: "ms i = Some m \<Longrightarrow> vm_live (M, k, ms(i \<mapsto> m'), mp') = vm_live (M, k, ms, mp)"
  by (intro HOL.ext) (simp add: vm_live_def)

interpretation pm: byte_memory vm_ok vm_live vm_look vm_rd vm_wr
proof
  fix s i x assume A: "vm_ok s" "vm_live s i"
  obtain M k ms mp where s: "s = (M, k, ms, mp)" by (cases s)
  obtain m where m: "ms i = Some m" using A(2) by (auto simp: s vm_live_def)
  let ?k = "k\<lparr>mm := ms i, mram := mp\<rparr>"
  have P: "memphy_ok M" "vm_inv ms (mram ?k)" "mm ?k = Some m" "0 \<notin> set (free_fp_list (mram ?k))"
    using A(1) m by (simp_all add: s vm_ok_def)
  show "\<exists>r v s'. vm_rd i x s = Some (r, v, s') \<and> vm_ok s' \<and> vm_live s' = vm_live s \<and>
      (r = 0 \<longrightarrow> vm_look s' i (vaddr x) = Some v) \<and> (vm_look s i (vaddr x) \<noteq> None \<longrightarrow> r = 0) \<and>
      (\<forall>j b. vm_look s j b \<noteq> None \<or> j \<noteq> i \<longrightarrow> vm_look s' j b = vm_look s j b)"
  proof (cases rule: pg_getval_ok [OF P(1-3) m P(4) refl, of x, case_names ok fail])
    case (ok v m' mp')
    have "vm_rd i x s = Some (0, v, (M, k, ms(i \<mapsto> m'), mp'))" using ok(1) by (simp add: s vm_rd_def)
    moreover have "vm_ok (M, k, ms(i \<mapsto> m'), mp')" using ok(2) P(1,4) by (auto simp: vm_ok_def keeps_bytes_def)
    moreover have "vm_live (M, k, ms(i \<mapsto> m'), mp') = vm_live s" unfolding s using m by (rule vm_live_upd)
    ultimately show ?thesis
      using ok(3) keeps_bytes_look [OF ok(2), of M k] vaddr_less [of x] by (auto simp: s vm_look_def)
  next
    case (fail m' mp')
    have "vm_rd i x s = Some (-1, 0, (M, k, ms(i \<mapsto> m'), mp'))" using fail(3) by (simp add: s vm_rd_def)
    moreover have "vm_ok (M, k, ms(i \<mapsto> m'), mp')" using fail(4) P(1,4) by (auto simp: vm_ok_def keeps_bytes_def)
    moreover have "vm_live (M, k, ms(i \<mapsto> m'), mp') = vm_live s" unfolding s using m by (rule vm_live_upd)
    ultimately show ?thesis
      using fail(1) keeps_bytes_look [OF fail(4), of M k] by (auto simp: s vm_look_def)
  qed
next
  fix s i x v assume A: "vm_ok s" "vm_live s i"
  obtain M k ms mp where s: "s = (M, k, ms, mp)" by (cases s)
  obtain m where m: "ms i = Some m" using A(2) by (auto simp: s vm_live_def)
  let ?k = "k\<lparr>mm := ms i, mram := mp\<rparr>"
  have P: "memphy_ok M" "vm_inv ms (mram ?k)" "mm ?k = Some m" "0 \<notin> set (free_fp_list (mram ?k))"
    using A(1) m by (simp_all add: s vm_ok_def)
  show "\<exists>r s'. vm_wr i x v s = Some (r, s') \<and> vm_ok s' \<and> vm_live s' = vm_live s \<and>
      (r = 0 \<longrightarrow> vm_look s' i (vaddr x) = Some v) \<and> (vm_look s i (vaddr x) \<noteq> None \<longrightarrow> r = 0) \<and>
      (\<forall>j b. (vm_look s j b \<noteq> None \<and> (j, b) \<noteq> (i, vaddr x)) \<or> j \<noteq> i \<longrightarrow> vm_look s' j b = vm_look s j b)"
  proof (cases rule: pg_setval_ok [OF P(1-3) m P(4) refl, of x v, case_names ok fail])
    case (ok m' mp1 mp')
    have "vm_wr i x v s = Some (0, (M, k, ms(i \<mapsto> m'), mp'))" using ok(1) by (simp add: s vm_wr_def)
    moreover have "vm_ok (M, k, ms(i \<mapsto> m'), mp')" using ok(2-4) P(1,4) by (auto simp: vm_ok_def keeps_bytes_def)
    moreover have "vm_live (M, k, ms(i \<mapsto> m'), mp') = vm_live s" unfolding s using m by (rule vm_live_upd)
    moreover have look: "vm_look (M, k, ms(i \<mapsto> m'), mp') j b =
        (if j = i \<and> b = vaddr x then Some v else vm_look (M, k, ms(i \<mapsto> m'), mp1) j b)" for j b
      using ok(5) [of b j] vaddr_less [of x] by (auto simp: vm_look_def)
    ultimately show ?thesis
      using keeps_bytes_look [OF ok(2), of M k] by (intro exI [of _ 0]) (auto simp: s)
  next
    case (fail m' mp')
    have "vm_wr i x v s = Some (-1, (M, k, ms(i \<mapsto> m'), mp'))" using fail(3) by (simp add: s vm_wr_def)
    moreover have "vm_ok (M, k, ms(i \<mapsto> m'), mp')" using fail(4) P(1,4) by (auto simp: vm_ok_def keeps_bytes_def)
    moreover have "vm_live (M, k, ms(i \<mapsto> m'), mp') = vm_live s" unfolding s using m by (rule vm_live_upd)
    ultimately show ?thesis
      using fail(1) keeps_bytes_look [OF fail(4), of M k] by (auto simp: s vm_look_def)
  qed
qed

section \<open>Interleaved accesses\<close>

definition vm_step :: "mem_op \<Rightarrow> vmem \<Rightarrow> vmem option" where
  "vm_step p s = (case p of
     Mem_rd i x \<Rightarrow> map_option (\<lambda>(_, _, s'). s') (vm_rd i x s)
   | Mem_wr i x v \<Rightarrow> map_option snd (vm_wr i x v s))"

fun vm_run :: "mem_op list \<Rightarrow> vmem \<Rightarrow> vmem option" where
  "vm_run [] s = Some s"
| "vm_run (p # ps) s = (case vm_step p s of None \<Rightarrow> None | Some s' \<Rightarrow> vm_run ps s')"

lemma vm_run_eq: "vm_run ps s = pm.run ps s"
  by (induction ps arbitrary: s) (simp_all add: vm_step_def pm.step_def split: option.splits)

lemma vm_wr_succeeds:
  assumes "vm_ok (M, k, ms, mp)" "ms i = Some m" "5 \<le> length (free_fp_list mp)"
  shows "\<exists>s1. vm_wr i x v (M, k, ms, mp) = Some (0, s1)"
proof -
  let ?k = "k\<lparr>mm := ms i, mram := mp\<rparr>"
  have P: "memphy_ok M" "vm_inv ms (mram ?k)" "mm ?k = Some m" "0 \<notin> set (free_fp_list (mram ?k))"
    using assms(1,2) by (simp_all add: vm_ok_def)
  show ?thesis
    by (cases rule: pg_setval_ok [OF P(1-3) assms(2) P(4) refl, of x v, case_names ok fail])
      (use assms(3) in \<open>simp_all add: vm_wr_def\<close>)
qed




definition two_maps :: maps where
  "two_maps = demo_maps(1 \<mapsto> demo_mm)"

lemma two_maps_inv: "vm_inv two_maps demo_ram"
  unfolding two_maps_def
  by (rule vm_inv_new_process [OF demo_maps_inv]) (simp_all add: demo_maps_def demo_mm_def)


section \<open>Reading and writing regions\<close>

lemma region_addr_used:
  assumes m: "mm k = Some m" and i: "0 \<le> rgid" "rgid < int PAGING_MAX_SYMTBL_SZ"
    and rg: "rg_start (symrgtbl m ! nat rgid) < rg_end (symrgtbl m ! nat rgid)"
      "off < rg_end (symrgtbl m ! nat rgid) - rg_start (symrgtbl m ! nat rgid)"
  shows "region_addr M k vmaid rgid off = Some (Some (rg_start (symrgtbl m ! nat rgid) + off), k)"
  using assms by (auto simp: region_addr_def Let_def linorder_not_le)

lemma region_addr_auto:
  assumes m: "mm k = Some m" "rg_inv m" and i: "0 \<le> rgid" "rgid < int PAGING_MAX_SYMTBL_SZ"
    and free: "\<not> rg_used (symrgtbl m ! nat rgid)" and fits: "alloc_fits m 100" and off: "off < 100"
  shows "region_addr M k 0 rgid off =
    Some (Some (sbrk (mmap m ! 0) + off), k\<lparr>mm := Some (alloc_mm m (nat rgid) 100)\<rparr>)"
proof -
  have sz: "unat (100::addr_t) + 4095 < 2 ^ 31" by simp
  note A = mm_alloc_eq [OF m i free sz, of M]
  have len: "length (symrgtbl m) = PAGING_MAX_SYMTBL_SZ" using m(2) by (simp add: rg_inv_def)
  have "sbrk (mmap m ! 0) < sbrk (mmap m ! 0) + 100"
    using alloc_mm_nat(1) [OF m(2) fits] by (simp add: word_less_nat_alt)
  then show ?thesis
    using m(1) i free A len off by (simp add: region_addr_def Let_def rg_used_def alloc_mm_def linorder_not_le)
qed

lemma write_read_region:
  assumes M: "memphy_ok M" and inv: "vm_inv ms (mram k)" and m: "mm k = Some m" "ms i = Some m"
    and free: "0 \<notin> set (free_fp_list (mram k))" "5 \<le> length (free_fp_list (mram k))"
    and r: "unat r < PAGING_MAX_SYMTBL_SZ" and rg: "rg_start (symrgtbl m ! unat r) < rg_end (symrgtbl m ! unat r)"
      "off < rg_end (symrgtbl m ! unat r) - rg_start (symrgtbl m ! unat r)"
  shows "\<exists>k1 k2. libwrite M k v r off = Some (0, k1) \<and> libread M k1 r off d = Some (0, scast v, k2)"
proof -
  note ri = sint_region [OF r]
  let ?t = "ucast (rg_start (symrgtbl m ! unat r) + off) :: u32"
  have addr: "region_addr M k' 0 (sint r) off = Some (Some (rg_start (symrgtbl m ! unat r) + off), k')"
    if "mm k' = Some m'" "symrgtbl m' = symrgtbl m" for k' m'
    using region_addr_used [OF that(1) ri(1,2), of off M 0] that(2) ri(3) rg by simp
  show ?thesis
  proof (cases rule: pg_setval_ok [OF M inv m free(1) refl, of ?t v, case_names ok fail])
    case (ok m' mp1 mp')
    let ?k1 = "k\<lparr>mm := Some m', mram := mp'\<rparr>"
    have w: "libwrite M k v r off = Some (0, ?k1)"
      using ok(1) addr [OF m(1) refl] by (simp add: libwrite_def mm_write_def)
    have look: "vbyte (ms(i \<mapsto> m')) (mram ?k1) i (vaddr ?t) = Some v" using ok(5) [OF vaddr_less] by simp
    have P: "vm_inv (ms(i \<mapsto> m')) (mram ?k1)" "mm ?k1 = Some m'" "(ms(i \<mapsto> m')) i = Some m'"
      "0 \<notin> set (free_fp_list (mram ?k1))"
      using ok(2-4) free(1) by (auto simp: keeps_bytes_def)
    show ?thesis
    proof (cases rule: pg_getval_ok [of M "ms(i \<mapsto> m')", OF M P refl, of ?t, case_names rok rfail])
      case (rok v' m2 mp2)
      then have "v' = v" using look by simp
      with rok w addr [OF P(2) ok(6)] show ?thesis by (simp add: libread_def mm_read_def)
    next
      case (rfail m2 mp2)
      with look show ?thesis by simp
    qed
  next
    case (fail m' mp')
    with free(2) show ?thesis by simp
  qed
qed

text \<open>
  With five free frames, \<^verbatim>\<open>libwrite\<close> into an allocated region at an
  offset below its size returns \<open>0\<close>, and a following \<^verbatim>\<open>libread\<close> of the same region and offset
  returns \<open>0\<close> and delivers the byte, extended with its sign.
\<close>

theorem libwrite_then_libread:
  assumes M: "memphy_ok M" and inv: "vm_inv ms (mram k)" and m: "mm k = Some m" "ms i = Some m"
    and free: "0 \<notin> set (free_fp_list (mram k))" "5 \<le> length (free_fp_list (mram k))"
    and r: "unat r < PAGING_MAX_SYMTBL_SZ" and rg: "rg_start (symrgtbl m ! unat r) < rg_end (symrgtbl m ! unat r)"
      "off < rg_end (symrgtbl m ! unat r) - rg_start (symrgtbl m ! unat r)"
  shows "\<exists>k1 k2. libwrite M k v r off = Some (0, k1) \<and> libread M k1 r off d = Some (0, scast v, k2)"
  using assms by (rule write_read_region)

text \<open>
  Writing to a region number that is not allocated first allocates 100
  bytes at the break under this number; the write then succeeds for offsets below 100.
\<close>

theorem access_allocates:
  assumes M: "memphy_ok M" and inv: "vm_inv ms (mram k)" and m: "mm k = Some m" "ms i = Some m" "rg_inv m"
    and free: "0 \<notin> set (free_fp_list (mram k))" "5 \<le> length (free_fp_list (mram k))"
    and r: "unat r < PAGING_MAX_SYMTBL_SZ" "\<not> rg_used (symrgtbl m ! unat r)"
    and fits: "alloc_fits m 100" and off: "off < 100"
  shows "\<exists>k1 m1. libwrite M k v r off = Some (0, k1) \<and> mm k1 = Some m1 \<and> rg_inv m1 \<and>
    symrgtbl m1 = (symrgtbl m)[unat r := \<lparr>rg_start = sbrk (mmap m ! 0), rg_end = sbrk (mmap m ! 0) + 100\<rparr>]"
proof -
  note ri = sint_region [OF r(1)]
  let ?m1 = "alloc_mm m (unat r) 100"
  let ?k1 = "k\<lparr>mm := Some ?m1\<rparr>"
  let ?t = "ucast (sbrk (mmap m ! 0) + off) :: u32"
  have addr: "region_addr M k 0 (sint r) off = Some (Some (sbrk (mmap m ! 0) + off), ?k1)"
    using region_addr_auto [OF m(1,3) ri(1,2) _ fits off, of M] r ri(3) by simp
  have same: "pgd ?m1 = pgd m" by (simp add: alloc_mm_def Let_def)
  have "ms(i \<mapsto> m) = ms" using m by auto
  then have P: "vm_inv (ms(i \<mapsto> ?m1)) (mram ?k1)" "mm ?k1 = Some ?m1" "(ms(i \<mapsto> ?m1)) i = Some ?m1"
    "0 \<notin> set (free_fp_list (mram ?k1))"
    using inv vm_inv_pgd [OF same, of ms i "mram k"] free by simp_all
  have inv1: "rg_inv ?m1" by (rule rg_inv_alloc [OF m(3) fits r(1)])
  show ?thesis
  proof (cases rule: pg_setval_ok [of M "ms(i \<mapsto> ?m1)", OF M P refl, of ?t v, case_names ok fail])
    case (ok m' mp1 mp')
    have "rg_inv m'" using inv1 ok(6,7) by (simp add: rg_inv_def)
    moreover have "libwrite M k v r off = Some (0, ?k1\<lparr>mm := Some m', mram := mp'\<rparr>)"
      using ok(1) addr by (simp add: libwrite_def mm_write_def)
    ultimately show ?thesis using ok(6) by (simp add: alloc_mm_def Let_def)
  next
    case (fail m' mp')
    with free(2) show ?thesis by simp
  qed
qed

definition region_mm :: mm_struct where
  "region_mm = alloc_mm demo_mm 2 300"

lemma region_mm_fields:
  "pgd region_mm = replicate 512 0" "symrgtbl region_mm ! 2 = \<lparr>rg_start = 4096, rg_end = 4396\<rparr>"
  by (simp_all add: region_mm_def alloc_mm_def demo_mm_def init_mm_def Let_def PAGING_PAGESZ_def PAGING_MAX_SYMTBL_SZ_def)

theorem libwrite_then_libread_witness:
  "rg_start (symrgtbl region_mm ! 2) < rg_end (symrgtbl region_mm ! 2) \<and>
   (\<exists>k1 k2. libwrite list_ops (demo_krnl\<lparr>mm := Some region_mm\<rparr>) 200 2 20 = Some (0, k1) \<and>
      libread list_ops k1 2 20 0 = Some (0, - 56, k2))"
proof -
  have "vm_inv [0 \<mapsto> region_mm] demo_ram"
    by (rule vm_inv_new_process [OF vm_inv_no_process [OF demo_ram_ok]]) (simp_all add: region_mm_fields)
  then have "\<exists>k1 k2. libwrite list_ops (demo_krnl\<lparr>mm := Some region_mm\<rparr>) 200 2 20 = Some (0, k1) \<and>
      libread list_ops k1 2 20 0 = Some (0, scast (200 :: byte), k2)"
    by (intro libwrite_then_libread [OF list_ops_ok, where i = 0 and ms = "[0 \<mapsto> region_mm]" and m = region_mm])
      (simp_all add: region_mm_fields PAGING_MAX_SYMTBL_SZ_def)
  moreover have "scast (200 :: byte) = (- 56 :: u32)" by simp
  ultimately show ?thesis by (simp add: region_mm_fields)
qed

theorem access_allocates_witness:
  "\<not> rg_used (symrgtbl demo_mm ! 7) \<and> (\<exists>k1 m1. libwrite list_ops demo_krnl 9 7 99 = Some (0, k1) \<and>
     mm k1 = Some m1 \<and> symrgtbl m1 ! 7 = \<lparr>rg_start = 4096, rg_end = 4196\<rparr>)"
proof -
  have d: "\<not> rg_used (symrgtbl demo_mm ! 7)" "sbrk (mmap demo_mm ! 0) = 4096" "alloc_fits demo_mm 100"
    "length (symrgtbl demo_mm) = 30" "rg_inv demo_mm"
    using rg_inv_init [of "[]"]
    by (simp_all add: demo_mm_def init_mm_def Let_def rg_used_def PAGING_PAGESZ_def PAGING_MAX_SYMTBL_SZ_def alloc_fits_def)
  then have "\<exists>k1 m1. libwrite list_ops demo_krnl 9 7 99 = Some (0, k1) \<and> mm k1 = Some m1 \<and> rg_inv m1 \<and>
    symrgtbl m1 = (symrgtbl demo_mm)[unat (7::u32) := \<lparr>rg_start = sbrk (mmap demo_mm ! 0),
      rg_end = sbrk (mmap demo_mm ! 0) + 100\<rparr>]"
    by (intro access_allocates [OF list_ops_ok, of demo_maps _ _ 0])
      (simp_all add: demo_maps_inv PAGING_MAX_SYMTBL_SZ_def, simp add: demo_maps_def)
  with d show ?thesis by auto
qed



end
