(* ===== verification/Syscall.thy ===== *)
theory Syscall
  imports Sched MemSafety
begin

unbundle bit_operations_syntax

text \<open>
  The running system as one state and the system calls on it: \<^verbatim>\<open>src/src/libstd.c\<close>,
  \<^verbatim>\<open>src/src/syscall.c\<close>, \<^verbatim>\<open>src/src/sys_mem.c\<close>, \<^verbatim>\<open>src/src/sys_mmstats.c\<close> and
  \<^verbatim>\<open>src/src/sys_listsyscall.c\<close>, with the numbers of \<^verbatim>\<open>src/src/syscalltbl.lst\<close>. A process
  pointer refers to a process control block and its kernel structure; a pointer without
  an entry is dangling, and following it is undefined.
\<close>

section \<open>The state of the system\<close>

record proc_t =
  pcb :: pcb_t
  krnl :: krnl_t

record world =
  sched :: sched_t
  procs :: "proc_ptr \<Rightarrow> proc_t option"
  ram :: memphy_struct
  swp :: memphy_struct

text \<open>
  All kernel structures point to the same devices: the structure of a process is used with the
  current devices, and what it did to them is stored back.
\<close>

definition view :: "world \<Rightarrow> proc_t \<Rightarrow> krnl_t" where
  "view w p = (krnl p)\<lparr>mram := ram w, active_mswp := swp w\<rparr>"

definition commit :: "world \<Rightarrow> proc_ptr \<Rightarrow> pcb_t \<Rightarrow> krnl_t \<Rightarrow> world" where
  "commit w p c k = w\<lparr>procs := (procs w)(p \<mapsto> \<lparr>pcb = c, krnl = k\<rparr>), ram := mram k, swp := active_mswp k\<rparr>"

definition queue_of :: "world \<Rightarrow> queue_ref option \<Rightarrow> queue_t option" where
  "queue_of w r = (case r of
     Some Running_list \<Rightarrow> Some (running_list (sched w))
   | Some Ready_queue \<Rightarrow> Some (ready_queue (sched w))
   | Some Mlq_ready_queue \<Rightarrow> Some (mlq_ready_queue (sched w) ! 0)
   | None \<Rightarrow> None)"

section \<open>Finding a running process\<close>

text \<open>
  The loop over the running list that compares process numbers. \<^verbatim>\<open>sys_mmstats\<close> skips a null
  entry, \<^verbatim>\<open>sys_memmap\<close> follows it.
\<close>

fun find_pid ::
  "bool \<Rightarrow> (proc_ptr \<Rightarrow> proc_t option) \<Rightarrow> proc_ptr option list \<Rightarrow> u32 \<Rightarrow> proc_ptr option option" where
  "find_pid skip ps [] n = Some None"
| "find_pid skip ps (None # es) n = (if skip then find_pid skip ps es n else None)"
| "find_pid skip ps (Some p # es) n =
     (case ps p of
        None \<Rightarrow> None
      | Some pr \<Rightarrow> if pid (pcb pr) = n then Some (Some p) else find_pid skip ps es n)"

section \<open>The calls\<close>

record sc_regs =
  sc_a1 :: arg_t
  sc_a2 :: arg_t
  sc_a3 :: arg_t

text \<open>
  \<^verbatim>\<open>sys_mem.c\<close> includes \<^verbatim>\<open>os-mm.h\<close> before \<^verbatim>\<open>MM64\<close> is defined, so \<^verbatim>\<open>addr_t\<close> is 32 bits wide in
  this file: the arguments are cut to 32 bits when they are passed on, and the field
  \<^verbatim>\<open>caller->krnl\<close> is looked up at another offset than the one the rest of the program uses (theory
  \<open>Layout\<close>), where a register is stored. The two operations that follow this pointer are
  therefore undefined; the others pass \<^verbatim>\<open>caller\<close> itself on.
\<close>

definition addr32 :: "arg_t \<Rightarrow> addr_t" where
  "addr32 a = ucast (ucast a :: u32)"

definition sys_memmap ::
  "memphy_ops \<Rightarrow> world \<Rightarrow> krnl_t \<Rightarrow> u32 \<Rightarrow> sc_regs \<Rightarrow> (int \<times> world) option" where
  "sys_memmap M w k n rg = do {
     q \<leftarrow> queue_of w (k_running_list k);
     found \<leftarrow> find_pid False (procs w) (take (q_size q) (q_proc q)) n;
     (case found of
        None \<Rightarrow> Some (-1, w)
      | Some c \<Rightarrow> do {
          caller \<leftarrow> procs w c;
          let memop = sint (ucast (sc_a1 rg) :: u32);
          if memop = 1 then do {
            (_, k') \<leftarrow> vmap_pgd_memset M (view w caller) (addr32 (sc_a2 rg)) (ucast (sc_a3 rg));
            Some (0, commit w c (pcb caller) k') }
          else if memop = 2 then do {
            (_, k') \<leftarrow> inc_vma_limit M (view w caller) (sint (ucast (sc_a2 rg) :: u32)) (addr32 (sc_a3 rg));
            Some (0, commit w c (pcb caller) k') }
          else if memop = 3 then
            (case mm_swap_page M (view w caller) (addr32 (sc_a2 rg)) (addr32 (sc_a3 rg)) of (_, k') \<Rightarrow>
               Some (0, commit w c (pcb caller) k'))
          else if memop = 4 \<or> memop = 5 then None
          else Some (0, w) }) }"

text \<open>
  The loop of \<^verbatim>\<open>sys_mmstats\<close> that counts the entries in use, \<open>n\<close> entries from \<open>i\<close> on; an index
  outside the directory is undefined.
\<close>

fun count_used :: "u64 list \<Rightarrow> nat \<Rightarrow> nat \<Rightarrow> nat option" where
  "count_used es i 0 = Some 0"
| "count_used es i (Suc n) =
     (if i < length es then do { c \<leftarrow> count_used es (Suc i) n; Some (if es ! i \<noteq> 0 then Suc c else c) }
      else None)"

definition sys_mmstats :: "world \<Rightarrow> krnl_t \<Rightarrow> u32 \<Rightarrow> sc_regs \<Rightarrow> int option" where
  "sys_mmstats w k n rg =
     (case queue_of w (k_running_list k) of
        None \<Rightarrow> Some (-1)
      | Some q \<Rightarrow> do {
          found \<leftarrow> find_pid True (procs w) (take (q_size q) (q_proc q)) (ucast (sc_a1 rg));
          (case found of
             None \<Rightarrow> Some (-1)
           | Some c \<Rightarrow> do {
               caller \<leftarrow> procs w c;
               (case mm (krnl caller) of
                  None \<Rightarrow> Some (-1)
                | Some m \<Rightarrow> do {
                    total \<leftarrow> count_used (pgd m) 0 1024;
                    _ \<leftarrow> count_used (p4d m) 0 512;
                    _ \<leftarrow> count_used (pud m) 0 512;
                    _ \<leftarrow> count_used (pmd m) 0 512;
                    Some (int total) }) }) })"

definition sys_listsyscall :: "int" where
  "sys_listsyscall = 0"

definition sys_ni_syscall :: "int" where
  "sys_ni_syscall = 0"

definition syscall ::
  "memphy_ops \<Rightarrow> world \<Rightarrow> krnl_t \<Rightarrow> u32 \<Rightarrow> u32 \<Rightarrow> sc_regs \<Rightarrow> (int \<times> world) option" where
  "syscall M w k n nr rg =
     (if nr = 0 then Some (sys_listsyscall, w)
      else if nr = 17 then sys_memmap M w k n rg
      else if nr = 440 then map_option (\<lambda>r. (r, w)) (sys_mmstats w k n rg)
      else Some (sys_ni_syscall, w))"

definition libsyscall ::
  "memphy_ops \<Rightarrow> world \<Rightarrow> proc_ptr \<Rightarrow> u32 \<Rightarrow> arg_t \<Rightarrow> arg_t \<Rightarrow> arg_t \<Rightarrow> (int \<times> world) option" where
  "libsyscall M w p nr a b c = do {
     pr \<leftarrow> procs w p;
     syscall M w (krnl pr) (pid (pcb pr)) nr \<lparr>sc_a1 = a, sc_a2 = b, sc_a3 = c\<rparr> }"

end
