(* ===== verification/Cpu.thy ===== *)
theory Cpu
  imports Syscall
begin

unbundle bit_operations_syntax

text \<open>
  One instruction of a process, \<^verbatim>\<open>run\<close> of \<^verbatim>\<open>src/src/cpu.c\<close>, in the configuration with paging.
  The arguments of an instruction are 64 bits wide and are cut to the type of the parameter they
  are passed to.
\<close>

section \<open>Execution of an instruction\<close>

definition calc :: int where
  "calc = 0"

definition fetch :: "pcb_t \<Rightarrow> inst_t option" where
  "fetch c = (if unat (pc c) < length (cs_text (code c)) then Some (cs_text (code c) ! unat (pc c)) else None)"

definition exec :: "memphy_ops \<Rightarrow> world \<Rightarrow> proc_ptr \<Rightarrow> inst_t \<Rightarrow> (int \<times> world) option" where
  "exec M w p ins = do {
     pr \<leftarrow> procs w p;
     let c = pcb pr;
     let k = view w pr;
     (case opcode ins of
        CALC \<Rightarrow> Some (calc, w)
      | ALLOC \<Rightarrow> do {
          (r, k', c') \<leftarrow> liballoc M k c (arg_0 ins) (ucast (arg_1 ins));
          Some (r, commit w p c' k') }
      | FREE \<Rightarrow> do {
          (r, k') \<leftarrow> libfree k c (ucast (arg_0 ins));
          Some (r, commit w p c k') }
      | READ \<Rightarrow> do {
          (r, v, k') \<leftarrow> libread M k (ucast (arg_0 ins)) (arg_1 ins) 0;
          if r = 0 then
            (if unat (arg_2 ins) < length (regs c)
             then Some (r, commit w p (c\<lparr>regs := (regs c)[unat (arg_2 ins) := ucast v]\<rparr>) k') else None)
          else Some (r, commit w p c k') }
      | WRITE \<Rightarrow> do {
          (r, k') \<leftarrow> libwrite M k (ucast (arg_0 ins)) (ucast (arg_1 ins)) (arg_2 ins);
          Some (r, commit w p c k') }
      | SYSCALL \<Rightarrow> libsyscall M w p (ucast (arg_0 ins)) (arg_1 ins) (arg_2 ins) (arg_3 ins)) }"

definition run :: "memphy_ops \<Rightarrow> world \<Rightarrow> proc_ptr \<Rightarrow> (int \<times> world) option" where
  "run M w p = do {
     pr \<leftarrow> procs w p;
     if pc (pcb pr) \<ge> cs_size (code (pcb pr)) then Some (1, w)
     else do {
       ins \<leftarrow> fetch (pcb pr);
       exec M (w\<lparr>procs := (procs w)(p \<mapsto> pr\<lparr>pcb := (pcb pr)\<lparr>pc := pc (pcb pr) + 1\<rparr>\<rparr>)\<rparr>) p ins } }"

end
