(* ===== verification/Timer.thy ===== *)
theory Timer
  imports Prelude
begin

text \<open>
  The slot barrier of \<^verbatim>\<open>src/src/timer.c\<close>. Every thread that runs in slots (a CPU or the loader)
  owns a device with the flags \<^verbatim>\<open>done\<close> and \<^verbatim>\<open>fsh\<close>. The timer thread waits until each device is done
  or finished, advances the time and lets the devices continue. A critical section is one step,
  a wait on a condition variable is a step that is enabled when the condition holds, and
  \<open>timer_exec\<close> runs an explicit interleaving of such steps.
\<close>

section \<open>State\<close>

record timer_id_t =
  id_done :: bool
  id_fsh :: bool

text \<open>
  Where a thread is: in its own code, in the waiting loop of \<^verbatim>\<open>next_slot\<close>, or past \<^verbatim>\<open>detach_event\<close>;
  and where the timer thread is: at the loop head, in the waiting loop with the devices still to
  visit and its two counters, in the loop that releases the devices, or at its end.
\<close>

datatype dev_pc = Working | Waiting | Detached

datatype timer_pc =
  Loop_head
| Wait_loop "nat list" nat nat
| Release_loop "nat list" nat nat
| Exited

record timer_t =
  dev_list :: "nat list"
  ids :: "nat \<Rightarrow> timer_id_t"
  time_now :: u64
  timer_started :: bool
  timer_stop :: bool
  tpc :: timer_pc
  dpc :: "nat \<Rightarrow> dev_pc"

definition fresh_timer :: timer_t where
  "fresh_timer = \<lparr>dev_list = [], ids = (\<lambda>_. \<lparr>id_done = False, id_fsh = False\<rparr>), time_now = 0,
     timer_started = False, timer_stop = False, tpc = Loop_head, dpc = (\<lambda>_. Working)\<rparr>"

section \<open>The operations\<close>

text \<open>
  A device is known by the number of devices before it; \<^verbatim>\<open>attach_event\<close> puts it at the head of the
  list and refuses it once the timer runs.
\<close>

definition attach_event :: "timer_t \<Rightarrow> nat option \<times> timer_t" where
  "attach_event s =
     (if timer_started s then (None, s)
      else (let d = length (dev_list s) in
        (Some d, s\<lparr>ids := (ids s)(d := \<lparr>id_done = False, id_fsh = False\<rparr>), dev_list := d # dev_list s,
                   dpc := (dpc s)(d := Working)\<rparr>)))"

definition start_timer :: "timer_t \<Rightarrow> timer_t" where
  "start_timer s = s\<lparr>timer_started := True\<rparr>"

definition current_time :: "timer_t \<Rightarrow> u64" where
  "current_time s = time_now s"

definition detach_event :: "nat \<Rightarrow> timer_t \<Rightarrow> timer_t" where
  "detach_event d s = s\<lparr>ids := (ids s)(d := (ids s d)\<lparr>id_fsh := True\<rparr>), dpc := (dpc s)(d := Detached)\<rparr>"

text \<open>\<^verbatim>\<open>next_slot\<close>: the first critical section, and the end of the waiting loop.\<close>

definition next_slot_signal :: "nat \<Rightarrow> timer_t \<Rightarrow> timer_t" where
  "next_slot_signal d s = s\<lparr>ids := (ids s)(d := (ids s d)\<lparr>id_done := True\<rparr>), dpc := (dpc s)(d := Waiting)\<rparr>"

definition next_slot_wake :: "nat \<Rightarrow> timer_t \<Rightarrow> timer_t option" where
  "next_slot_wake d s = (if id_done (ids s d) then None else Some (s\<lparr>dpc := (dpc s)(d := Working)\<rparr>))"

text \<open>One step of the timer thread; \<open>None\<close> when it waits or has ended.\<close>

definition timer_routine :: "timer_t \<Rightarrow> timer_t option" where
  "timer_routine s =
     (case tpc s of
        Loop_head \<Rightarrow> Some (s\<lparr>tpc := if timer_stop s then Exited else Wait_loop (dev_list s) 0 0\<rparr>)
      | Wait_loop [] f e \<Rightarrow> Some (s\<lparr>time_now := time_now s + 1, tpc := Release_loop (dev_list s) f e\<rparr>)
      | Wait_loop (d # ds) f e \<Rightarrow>
          if \<not> id_done (ids s d) \<and> \<not> id_fsh (ids s d) then None
          else Some (s\<lparr>tpc := Wait_loop ds (if id_fsh (ids s d) then f + 1 else f) (e + 1)\<rparr>)
      | Release_loop [] f e \<Rightarrow> Some (s\<lparr>tpc := if f = e then Exited else Loop_head\<rparr>)
      | Release_loop (d # ds) f e \<Rightarrow>
          Some (s\<lparr>ids := (ids s)(d := (ids s d)\<lparr>id_done := False\<rparr>), tpc := Release_loop ds f e\<rparr>)
      | Exited \<Rightarrow> None)"

text \<open>\<^verbatim>\<open>stop_timer\<close>: the request, and what remains when the timer thread has been joined.\<close>

definition stop_request :: "timer_t \<Rightarrow> timer_t" where
  "stop_request s = s\<lparr>timer_stop := True\<rparr>"

definition stop_join :: "timer_t \<Rightarrow> timer_t option" where
  "stop_join s = (if tpc s = Exited then Some (s\<lparr>dev_list := []\<rparr>) else None)"

section \<open>Interleavings\<close>

datatype timer_event = Timer_step | Signal nat | Wake nat | Detach nat | Stop

fun timer_do :: "timer_event \<Rightarrow> timer_t \<Rightarrow> timer_t option" where
  "timer_do Timer_step s = timer_routine s"
| "timer_do (Signal d) s =
     (if d \<in> set (dev_list s) \<and> dpc s d = Working then Some (next_slot_signal d s) else None)"
| "timer_do (Wake d) s =
     (if d \<in> set (dev_list s) \<and> dpc s d = Waiting then next_slot_wake d s else None)"
| "timer_do (Detach d) s =
     (if d \<in> set (dev_list s) \<and> dpc s d = Working then Some (detach_event d s) else None)"
| "timer_do Stop s =
     (if \<forall>d \<in> set (dev_list s). dpc s d = Detached then Some (stop_request s) else None)"

fun timer_exec :: "timer_event list \<Rightarrow> timer_t \<Rightarrow> timer_t option" where
  "timer_exec [] s = Some s"
| "timer_exec (e # es) s = (case timer_do e s of None \<Rightarrow> None | Some s' \<Rightarrow> timer_exec es s')"

text \<open>A timer with \<open>n\<close> devices, as \<^verbatim>\<open>main\<close> prepares it.\<close>

fun attach_n :: "nat \<Rightarrow> timer_t \<Rightarrow> timer_t" where
  "attach_n 0 s = s"
| "attach_n (Suc n) s = attach_n n (snd (attach_event s))"

definition boot_timer :: "nat \<Rightarrow> timer_t" where
  "boot_timer n = start_timer (attach_n n fresh_timer)"

section \<open>The invariant of the barrier\<close>

text \<open>
  The devices the timer still has to release in this round, and those it holds: seen done in this
  round and not released yet. The function \<open>c\<close> counts the calls of \<^verbatim>\<open>next_slot\<close> of each device and
  \<open>T\<close> the rounds.
\<close>

definition pending :: "timer_t \<Rightarrow> nat set" where
  "pending s = (case tpc s of Release_loop ds _ _ \<Rightarrow> set ds | _ \<Rightarrow> {})"

definition held :: "timer_t \<Rightarrow> nat set" where
  "held s = (case tpc s of Wait_loop ds _ _ \<Rightarrow> set (dev_list s) - set ds | Release_loop ds _ _ \<Rightarrow> set ds | _ \<Rightarrow> {})"

definition slot_ok :: "(nat \<Rightarrow> nat) \<Rightarrow> nat \<Rightarrow> timer_t \<Rightarrow> nat \<Rightarrow> bool" where
  "slot_ok c T s d \<longleftrightarrow>
     (id_fsh (ids s d) \<longleftrightarrow> dpc s d = Detached) \<and> (dpc s d \<noteq> Waiting \<longrightarrow> \<not> id_done (ids s d)) \<and>
     (d \<in> held s \<longrightarrow> id_done (ids s d) \<or> dpc s d = Detached) \<and>
     (dpc s d \<noteq> Detached \<longrightarrow> c d = T + of_bool (id_done (ids s d) \<and> d \<notin> pending s)) \<and>
     (dpc s d = Detached \<longrightarrow> c d \<le> T)"

definition loop_ok :: "timer_t \<Rightarrow> bool" where
  "loop_ok s = (case tpc s of
     Loop_head \<Rightarrow> True
   | Wait_loop ds f e \<Rightarrow> (\<exists>vs. dev_list s = vs @ ds \<and> e = length vs \<and> f \<le> e \<and> (f = e \<longrightarrow> (\<forall>d \<in> set vs. id_fsh (ids s d))))
   | Release_loop ds f e \<Rightarrow> (\<exists>vs. dev_list s = vs @ ds) \<and> (f = e \<longrightarrow> (\<forall>d \<in> set (dev_list s). id_fsh (ids s d)))
   | Exited \<Rightarrow> (\<forall>d \<in> set (dev_list s). id_fsh (ids s d)))"

definition timer_inv :: "(nat \<Rightarrow> nat) \<Rightarrow> nat \<Rightarrow> timer_t \<Rightarrow> bool" where
  "timer_inv c T s \<longleftrightarrow> distinct (dev_list s) \<and> timer_started s \<and> time_now s = of_nat T \<and> loop_ok s \<and>
     (\<forall>d \<in> set (dev_list s). slot_ok c T s d) \<and>
     (timer_stop s \<longrightarrow> (\<forall>d \<in> set (dev_list s). dpc s d = Detached))"

lemmas timer_defs = timer_inv_def loop_ok_def slot_ok_def held_def pending_def

lemma timer_inv_devs: "timer_inv c T s \<Longrightarrow> d \<in> set (dev_list s) \<Longrightarrow> slot_ok c T s d"
  by (simp add: timer_inv_def)

lemma timer_inv_stop: "timer_inv c T s \<Longrightarrow> timer_stop s \<Longrightarrow> d \<in> set (dev_list s) \<Longrightarrow> id_fsh (ids s d)"
  by (auto simp: timer_inv_def slot_ok_def)

lemma loop_ok_wait:
  "tpc s = Wait_loop ds f e \<Longrightarrow> dev_list s = vs @ ds \<Longrightarrow> e = length vs \<Longrightarrow> f \<le> e \<Longrightarrow>
   (f = e \<Longrightarrow> \<forall>d \<in> set vs. id_fsh (ids s d)) \<Longrightarrow> loop_ok s"
  by (auto simp: loop_ok_def)

subsection \<open>Every step keeps it\<close>

lemma timer_inv_head:
  assumes "timer_inv c T s" "tpc s = Loop_head"
  shows "timer_inv c T (s\<lparr>tpc := if timer_stop s then Exited else Wait_loop (dev_list s) 0 0\<rparr>)"
  using assms timer_inv_stop [OF assms(1)] by (auto simp: timer_defs)

lemma timer_inv_visit:
  assumes "timer_inv c T s" "tpc s = Wait_loop (d # ds) f e" "id_done (ids s d) \<or> id_fsh (ids s d)"
  shows "timer_inv c T (s\<lparr>tpc := Wait_loop ds (if id_fsh (ids s d) then f + 1 else f) (e + 1)\<rparr>)"
proof -
  from assms(1,2) obtain vs where vs: "dev_list s = vs @ d # ds" "e = length vs" "f \<le> e"
      "f = e \<longrightarrow> (\<forall>d \<in> set vs. id_fsh (ids s d))"
    by (auto simp: timer_inv_def loop_ok_def)
  then have "loop_ok (s\<lparr>tpc := Wait_loop ds (if id_fsh (ids s d) then f + 1 else f) (e + 1)\<rparr>)"
    by (intro loop_ok_wait [where vs = "vs @ [d]" and ds = ds and f = "if id_fsh (ids s d) then f + 1 else f" and e = "e + 1"])
      (auto split: if_splits)
  moreover have "slot_ok c T (s\<lparr>tpc := Wait_loop ds (if id_fsh (ids s d) then f + 1 else f) (e + 1)\<rparr>) x"
    if "x \<in> set (dev_list s)" for x
    using timer_inv_devs [OF assms(1) that] assms(2,3) that by (auto simp: slot_ok_def held_def pending_def)
  ultimately show ?thesis using assms(1) by (simp add: timer_inv_def)
qed

lemma timer_inv_tick:
  assumes "timer_inv c T s" "tpc s = Wait_loop [] f e"
  shows "timer_inv c (Suc T) (s\<lparr>time_now := time_now s + 1, tpc := Release_loop (dev_list s) f e\<rparr>)" (is "timer_inv c _ ?s")
proof -
  have "loop_ok ?s" using assms by (auto simp: timer_inv_def loop_ok_def)
  moreover have "slot_ok c (Suc T) ?s d" if "d \<in> set (dev_list s)" for d
    using timer_inv_devs [OF assms(1) that] assms(2) that by (auto simp: slot_ok_def held_def pending_def)
  ultimately show ?thesis using assms(1) by (simp add: timer_inv_def)
qed

lemma timer_inv_release:
  assumes "timer_inv c T s" "tpc s = Release_loop (d # ds) f e"
  shows "timer_inv c T (s\<lparr>ids := (ids s)(d := (ids s d)\<lparr>id_done := False\<rparr>), tpc := Release_loop ds f e\<rparr>)"
proof -
  from assms obtain vs where vs: "dev_list s = vs @ d # ds" by (auto simp: timer_inv_def loop_ok_def)
  then have "dev_list s = (vs @ [d]) @ ds" by simp
  then have "loop_ok (s\<lparr>ids := (ids s)(d := (ids s d)\<lparr>id_done := False\<rparr>), tpc := Release_loop ds f e\<rparr>)"
    using assms by (auto simp: timer_inv_def loop_ok_def)
  moreover have "d \<notin> set ds" "d \<notin> set vs" using assms(1) vs by (auto simp: timer_inv_def)
  ultimately show ?thesis using assms by (auto simp: timer_inv_def slot_ok_def held_def pending_def vs)
qed

lemma timer_inv_end:
  assumes "timer_inv c T s" "tpc s = Release_loop [] f e"
  shows "timer_inv c T (s\<lparr>tpc := if f = e then Exited else Loop_head\<rparr>)"
  using assms by (auto simp: timer_defs)

lemma timer_inv_routine:
  assumes "timer_inv c T s" "timer_routine s = Some s'"
  shows "\<exists>T' \<ge> T. timer_inv c T' s'"
proof (cases "tpc s")
  case Loop_head
  then show ?thesis using assms timer_inv_head [OF assms(1)] by (auto simp: timer_routine_def)
next
  case (Wait_loop ds f e)
  then show ?thesis using assms timer_inv_tick [OF assms(1)] timer_inv_visit [OF assms(1)]
    by (cases ds) (auto simp: timer_routine_def split: if_splits intro: le_SucI)
next
  case (Release_loop ds f e)
  then show ?thesis using assms timer_inv_end [OF assms(1)] timer_inv_release [OF assms(1)]
    by (cases ds) (auto simp: timer_routine_def)
qed (use assms in \<open>simp add: timer_routine_def\<close>)

lemma timer_inv_signal:
  assumes "timer_inv c T s" "dpc s d = Working" "d \<in> set (dev_list s)"
  shows "timer_inv (c(d := Suc (c d))) T (next_slot_signal d s)"
proof -
  have dv: "slot_ok c T s d" "d \<notin> held s" using timer_inv_devs [OF assms(1,3)] assms(2) by (auto simp: slot_ok_def)
  have "d \<notin> pending s" using dv(2) by (auto simp: held_def pending_def split: timer_pc.splits)
  then show ?thesis using assms dv
    by (auto simp: next_slot_signal_def timer_defs split: timer_pc.splits)
qed

lemma timer_inv_wake:
  assumes "timer_inv c T s" "dpc s d = Waiting" "d \<in> set (dev_list s)" "\<not> id_done (ids s d)"
  shows "timer_inv c T (s\<lparr>dpc := (dpc s)(d := Working)\<rparr>)"
  using assms by (auto simp: timer_defs split: timer_pc.splits)

lemma timer_inv_detach:
  assumes "timer_inv c T s" "dpc s d = Working" "d \<in> set (dev_list s)"
  shows "timer_inv c T (detach_event d s)"
  using assms by (auto simp: detach_event_def timer_defs split: timer_pc.splits)

lemma timer_inv_stop_request:
  assumes "timer_inv c T s" "\<forall>d \<in> set (dev_list s). dpc s d = Detached"
  shows "timer_inv c T (stop_request s)"
  using assms by (auto simp: stop_request_def timer_defs split: timer_pc.splits)

lemma timer_inv_do:
  assumes "timer_inv c T s" "timer_do e s = Some s'"
  shows "\<exists>T' \<ge> T. timer_inv (\<lambda>d. c d + of_bool (e = Signal d)) T' s'"
proof (cases e)
  case (Signal d)
  then have "(\<lambda>x. c x + of_bool (e = Signal x)) = c(d := Suc (c d))" by auto
  then show ?thesis using assms timer_inv_signal [OF assms(1), of d] Signal by (auto split: if_splits)
next
  case Timer_step
  then show ?thesis using assms timer_inv_routine [OF assms(1)] by simp
next
  case (Wake d)
  then show ?thesis using assms timer_inv_wake [OF assms(1), of d] by (auto simp: next_slot_wake_def split: if_splits)
next
  case (Detach d)
  then show ?thesis using assms timer_inv_detach [OF assms(1), of d] by (auto split: if_splits)
next
  case Stop
  then show ?thesis using assms timer_inv_stop_request [OF assms(1)] by (auto split: if_splits)
qed

definition slot_calls :: "timer_event list \<Rightarrow> nat \<Rightarrow> nat" where
  "slot_calls es d = count_list es (Signal d)"

lemma timer_inv_exec:
  "timer_exec es s = Some s' \<Longrightarrow> timer_inv c T s \<Longrightarrow> \<exists>T' \<ge> T. timer_inv (\<lambda>d. c d + slot_calls es d) T' s'"
proof (induction es arbitrary: s c T)
  case Nil
  then show ?case by (auto simp: slot_calls_def)
next
  case (Cons e es)
  then obtain s1 where s1: "timer_do e s = Some s1" "timer_exec es s1 = Some s'" by (auto split: option.splits)
  from timer_inv_do [OF Cons.prems(2) s1(1)] obtain T1 where
    T1: "T1 \<ge> T" "timer_inv (\<lambda>d. c d + of_bool (e = Signal d)) T1 s1" by blast
  have "(\<lambda>d. c d + of_bool (e = Signal d) + slot_calls es d) = (\<lambda>d. c d + slot_calls (e # es) d)"
    by (auto simp: slot_calls_def)
  with Cons.IH [OF s1(2) T1(2)] T1(1) show ?case by (auto intro: le_trans)
qed

section \<open>The booted timer\<close>

lemma attach_n_eq:
  "\<not> timer_started s \<Longrightarrow> dev_list s = rev [0..<k] \<Longrightarrow> (\<forall>d < k. ids s d = \<lparr>id_done = False, id_fsh = False\<rparr> \<and> dpc s d = Working) \<Longrightarrow>
   dev_list (attach_n n s) = rev [0..<k + n] \<and> time_now (attach_n n s) = time_now s \<and> tpc (attach_n n s) = tpc s \<and>
   timer_stop (attach_n n s) = timer_stop s \<and>
   (\<forall>d < k + n. ids (attach_n n s) d = \<lparr>id_done = False, id_fsh = False\<rparr> \<and> dpc (attach_n n s) d = Working)"
proof (induction n arbitrary: s k)
  case (Suc n)
  let ?s = "snd (attach_event s)"
  have "\<not> timer_started ?s" "dev_list ?s = rev [0..<Suc k]" "time_now ?s = time_now s" "tpc ?s = tpc s"
      "timer_stop ?s = timer_stop s"
      "\<forall>d < Suc k. ids ?s d = \<lparr>id_done = False, id_fsh = False\<rparr> \<and> dpc ?s d = Working"
    using Suc.prems by (auto simp: attach_event_def Let_def less_Suc_eq)
  with Suc.IH [of ?s "Suc k"] show ?case by simp
qed auto

lemma boot_timer_fields:
  "dev_list (boot_timer n) = rev [0..<n]" "time_now (boot_timer n) = 0" "tpc (boot_timer n) = Loop_head"
  "timer_started (boot_timer n)" "\<not> timer_stop (boot_timer n)"
  "d < n \<Longrightarrow> ids (boot_timer n) d = \<lparr>id_done = False, id_fsh = False\<rparr>" "d < n \<Longrightarrow> dpc (boot_timer n) d = Working"
  using attach_n_eq [of fresh_timer 0 n] by (simp_all add: boot_timer_def start_timer_def fresh_timer_def)

lemma boot_timer_inv: "timer_inv (\<lambda>_. 0) 0 (boot_timer n)"
  by (auto simp: timer_defs boot_timer_fields)

lemma timer_do_list: "timer_do e s = Some s' \<Longrightarrow> dev_list s' = dev_list s"
  by (cases e) (auto simp: timer_routine_def next_slot_signal_def next_slot_wake_def detach_event_def stop_request_def
      split: timer_pc.splits list.splits if_splits)

lemma timer_exec_list: "timer_exec es s = Some s' \<Longrightarrow> dev_list s' = dev_list s"
  by (induction es arbitrary: s) (auto split: option.splits dest: timer_do_list)

lemma timer_reach:
  assumes "timer_exec es (boot_timer n) = Some s"
  obtains T where "timer_inv (slot_calls es) T s" "set (dev_list s) = {..<n}" "length (dev_list s) = n"
  using timer_inv_exec [OF assms boot_timer_inv] timer_exec_list [OF assms] that
  by (auto simp: boot_timer_fields lessThan_atLeast0)

section \<open>A run with two threads\<close>

definition demo_run :: "timer_event list" where
  "demo_run = [Timer_step, Signal 0, Signal 1, Timer_step, Timer_step, Timer_step, Timer_step, Timer_step, Timer_step, Wake 1, Detach 1]"

lemmas demo_run_simps = demo_run_def boot_timer_def start_timer_def fresh_timer_def attach_event_def Let_def numeral_2_eq_2
  timer_routine_def next_slot_signal_def next_slot_wake_def detach_event_def

lemma demo_run_start: "\<exists>s. timer_exec (take 3 demo_run) (boot_timer 2) = Some s \<and> dpc s 0 = Waiting \<and> dpc s 1 = Waiting \<and>
    id_done (ids s 0) \<and> id_done (ids s 1) \<and> tpc s = Wait_loop [1, 0] 0 0 \<and> \<not> timer_stop s"
  by (simp add: demo_run_simps numeral_3_eq_3)

lemma demo_run_half: "\<exists>s. timer_exec (take 6 demo_run) (boot_timer 2) = Some s \<and> tpc s = Release_loop [1, 0] 0 2"
  by (simp add: demo_run_simps)

lemma demo_run_ok: "\<exists>s. timer_exec demo_run (boot_timer 2) = Some s \<and> dpc s 0 = Waiting"
  by (simp add: demo_run_simps)

lemma demo_run_end: "\<exists>s. timer_exec (demo_run @ [Wake 0, Detach 0]) (boot_timer 2) = Some s \<and>
    dpc s 0 = Detached \<and> dpc s 1 = Detached"
  by (simp add: demo_run_simps)

section \<open>Properties of the barrier\<close>

text \<open>
  C22 (slots_in_lockstep): whatever the interleaving of the timer and \<open>n\<close> threads, a thread that has
  not detached has called \<^verbatim>\<open>next_slot\<close> as often as the time says or once more, no thread that
  has not detached is behind any other by more than one slot, and a thread that is working has
  completed exactly as many slots as the time says.
\<close>

theorem slots_in_lockstep:
  assumes "timer_exec es (boot_timer n) = Some s"
  shows "\<exists>T. current_time s = of_nat T \<and>
    (\<forall>d < n. slot_calls es d \<le> T + 1 \<and> (dpc s d \<noteq> Detached \<longrightarrow> T \<le> slot_calls es d) \<and>
       (dpc s d = Working \<longrightarrow> slot_calls es d = T)) \<and>
    (\<forall>d < n. \<forall>x < n. dpc s d \<noteq> Detached \<longrightarrow> slot_calls es x \<le> slot_calls es d + 1)"
proof -
  obtain T where T: "timer_inv (slot_calls es) T s" "set (dev_list s) = {..<n}" using timer_reach [OF assms] .
  have d: "slot_calls es d \<le> T + 1 \<and> (dpc s d \<noteq> Detached \<longrightarrow> T \<le> slot_calls es d) \<and>
      (dpc s d = Working \<longrightarrow> slot_calls es d = T)" if "d < n" for d
    using timer_inv_devs [OF T(1), of d] T(2) that by (cases "dpc s d") (auto simp: slot_ok_def)
  moreover have "current_time s = of_nat T" using T(1) by (simp add: timer_inv_def current_time_def)
  ultimately show ?thesis by (intro exI [of _ T]) (auto intro: le_trans)
qed

theorem slots_in_lockstep_witness:
  "\<exists>s. timer_exec demo_run (boot_timer 2) = Some s \<and> slot_calls demo_run 1 = 1 \<and> slot_calls demo_run 1 \<le> slot_calls demo_run 0 + 1"
proof -
  obtain s where s: "timer_exec demo_run (boot_timer 2) = Some s" "dpc s 0 = Waiting" using demo_run_ok by blast
  from slots_in_lockstep [OF s(1)] s(2) have "slot_calls demo_run 1 \<le> slot_calls demo_run 0 + 1" by auto
  with s(1) show ?thesis by (simp add: slot_calls_def demo_run_def)
qed

text \<open>
  The flag \<^verbatim>\<open>done\<close> is written by the timer under \<^verbatim>\<open>timer_lock\<close> and by its owner
  under \<^verbatim>\<open>event_lock\<close>, but never at the same time: when the timer is about to clear the flag of a
  device, the owner is not in its own code, so it can neither call \<^verbatim>\<open>next_slot\<close> nor \<^verbatim>\<open>detach_event\<close>, and
  an owner that still waits has set the flag.
\<close>

theorem done_flag_race_free:
  assumes "timer_exec es (boot_timer n) = Some s" "tpc s = Release_loop (d # ds) f e"
  shows "timer_do (Signal d) s = None \<and> timer_do (Detach d) s = None \<and> (dpc s d = Waiting \<longrightarrow> id_done (ids s d))"
proof -
  obtain T where T: "timer_inv (slot_calls es) T s" using timer_reach [OF assms(1)] .
  have "d \<in> set (dev_list s)" using T assms(2) by (auto simp: timer_inv_def loop_ok_def)
  from timer_inv_devs [OF T this] show ?thesis using assms(2) by (auto simp: slot_ok_def held_def)
qed

theorem done_flag_race_free_witness:
  "\<exists>s. timer_exec (take 6 demo_run) (boot_timer 2) = Some s \<and> tpc s = Release_loop [1, 0] 0 2 \<and> timer_do (Signal 1) s = None"
proof -
  obtain s where s: "timer_exec (take 6 demo_run) (boot_timer 2) = Some s" "tpc s = Release_loop [1, 0] 0 2"
    using demo_run_half by blast
  then show ?thesis using done_flag_race_free [OF s] by blast
qed

subsection \<open>The timer on its own\<close>

lemma timer_exec_append:
  "timer_exec (es @ fs) s = (case timer_exec es s of None \<Rightarrow> None | Some s' \<Rightarrow> timer_exec fs s')"
  by (induction es arbitrary: s) (auto split: option.splits)

lemma timer_exec_step: "timer_routine s = Some s' \<Longrightarrow> timer_exec (Timer_step # es) s = timer_exec es s'"
  by simp

definition released :: "nat list \<Rightarrow> (nat \<Rightarrow> timer_id_t) \<Rightarrow> nat \<Rightarrow> timer_id_t" where
  "released ds m = (\<lambda>d. if d \<in> set ds then (m d)\<lparr>id_done := False\<rparr> else m d)"

lemma visit_all:
  "tpc s = Wait_loop ds f e \<Longrightarrow> \<forall>d \<in> set ds. id_done (ids s d) \<or> id_fsh (ids s d) \<Longrightarrow>
   \<exists>f'. timer_exec (replicate (length ds) Timer_step) s = Some (s\<lparr>tpc := Wait_loop [] f' (e + length ds)\<rparr>) \<and>
     ((\<forall>d \<in> set ds. id_fsh (ids s d)) \<longrightarrow> f' = f + length ds)"
proof (induction ds arbitrary: s f e)
  case (Cons d ds)
  let ?f = "if id_fsh (ids s d) then f + 1 else f"
  have "timer_routine s = Some (s\<lparr>tpc := Wait_loop ds ?f (e + 1)\<rparr>)"
    using Cons.prems by (auto simp: timer_routine_def)
  moreover from Cons.IH [of "s\<lparr>tpc := Wait_loop ds ?f (e + 1)\<rparr>" ?f "e + 1"] Cons.prems obtain f' where
    "timer_exec (replicate (length ds) Timer_step) (s\<lparr>tpc := Wait_loop ds ?f (e + 1)\<rparr>) =
       Some (s\<lparr>tpc := Wait_loop [] f' (e + 1 + length ds)\<rparr>)"
    "(\<forall>d \<in> set ds. id_fsh (ids s d)) \<longrightarrow> f' = ?f + length ds" by auto
  ultimately show ?case by (intro exI [of _ f']) auto
qed auto

lemma release_all:
  "tpc s = Release_loop ds f e \<Longrightarrow>
   timer_exec (replicate (length ds) Timer_step) s = Some (s\<lparr>ids := released ds (ids s), tpc := Release_loop [] f e\<rparr>)"
proof (induction ds arbitrary: s)
  case (Cons d ds)
  let ?m = "(ids s)(d := (ids s d)\<lparr>id_done := False\<rparr>)"
  have "timer_routine s = Some (s\<lparr>ids := ?m, tpc := Release_loop ds f e\<rparr>)"
    using Cons.prems by (simp add: timer_routine_def)
  moreover have r: "released (d # ds) (ids s) = released ds ?m" by (auto simp: released_def)
  ultimately show ?case using Cons.IH [of "s\<lparr>ids := ?m, tpc := Release_loop ds f e\<rparr>"] unfolding r by (simp add: fun_upd_def)
qed (auto simp: released_def)

text \<open>From the waiting loop to the end of the round, when nobody keeps the timer waiting.\<close>

lemma rest_of_round:
  assumes "tpc s = Wait_loop ds f e" "\<forall>d \<in> set ds. id_done (ids s d) \<or> id_fsh (ids s d)"
  shows "\<exists>f'. timer_exec (replicate (length ds + length (dev_list s) + 2) Timer_step) s =
      Some (s\<lparr>time_now := time_now s + 1, ids := released (dev_list s) (ids s),
        tpc := if f' = e + length ds then Exited else Loop_head\<rparr>) \<and>
    ((\<forall>d \<in> set ds. id_fsh (ids s d)) \<longrightarrow> f' = f + length ds)"
proof -
  from visit_all [OF assms] obtain f' where f: "timer_exec (replicate (length ds) Timer_step) s =
      Some (s\<lparr>tpc := Wait_loop [] f' (e + length ds)\<rparr>)" "(\<forall>d \<in> set ds. id_fsh (ids s d)) \<longrightarrow> f' = f + length ds"
    by blast
  let ?s = "s\<lparr>time_now := time_now s + 1, tpc := Release_loop (dev_list s) f' (e + length ds)\<rparr>"
  have "replicate (length ds + length (dev_list s) + 2) Timer_step =
      replicate (length ds) Timer_step @ Timer_step # replicate (length (dev_list s)) Timer_step @ [Timer_step]"
    unfolding add.assoc replicate_add [of "length ds"] by (simp add: replicate_append_same)
  then show ?thesis using f release_all [of ?s] by (intro exI [of _ f'])
      (simp add: timer_exec_append timer_routine_def)
qed

lemma rest_of_release:
  assumes "tpc s = Release_loop ds f e"
  shows "timer_exec (replicate (length ds + 1) Timer_step) s =
    Some (s\<lparr>ids := released ds (ids s), tpc := if f = e then Exited else Loop_head\<rparr>)"
proof -
  have "replicate (length ds + 1) Timer_step = replicate (length ds) Timer_step @ [Timer_step]" by (simp add: replicate_append_same)
  then show ?thesis using release_all [OF assms] by (simp add: timer_exec_append timer_routine_def)
qed

lemma whole_round:
  assumes "tpc s = Loop_head" "\<not> timer_stop s" "\<forall>d \<in> set (dev_list s). id_done (ids s d) \<or> id_fsh (ids s d)"
  shows "\<exists>f. timer_exec (replicate (2 * length (dev_list s) + 3) Timer_step) s =
      Some (s\<lparr>time_now := time_now s + 1, ids := released (dev_list s) (ids s),
        tpc := if f = length (dev_list s) then Exited else Loop_head\<rparr>) \<and>
    ((\<forall>d \<in> set (dev_list s). id_fsh (ids s d)) \<longrightarrow> f = length (dev_list s))"
proof -
  let ?s = "s\<lparr>tpc := Wait_loop (dev_list s) 0 0\<rparr>"
  have "timer_routine s = Some ?s" using assms(1,2) by (simp add: timer_routine_def)
  moreover have "replicate (2 * length (dev_list s) + 3) Timer_step =
      Timer_step # replicate (length (dev_list s) + length (dev_list s) + 2) Timer_step"
    by (simp add: numeral_3_eq_3 mult_2)
  ultimately show ?thesis using rest_of_round [of ?s "dev_list s" 0 0] assms(3) by auto
qed

lemma released_in [simp]: "d \<in> set ds \<Longrightarrow> released ds m d = (m d)\<lparr>id_done := False\<rparr>"
  by (simp add: released_def)

text \<open>
  Once every thread has called \<^verbatim>\<open>next_slot\<close> or detached while the timer is in its
  waiting phase, the timer needs at most \<open>2 n + 3\<close> steps of its own to advance the time by one and
  to let every waiting thread continue.
\<close>

theorem barrier_opens:
  assumes "timer_exec es (boot_timer n) = Some s" "tpc s = Loop_head \<or> tpc s = Wait_loop ds f e" "\<not> timer_stop s"
    and "\<forall>d < n. id_done (ids s d) \<or> dpc s d = Detached"
  shows "\<exists>k s'. k \<le> 2 * n + 3 \<and> timer_exec (replicate k Timer_step) s = Some s' \<and> current_time s' = current_time s + 1 \<and>
    (\<forall>d < n. dpc s d = Waiting \<longrightarrow> timer_do (Wake d) s' \<noteq> None)"
proof -
  obtain T where T: "timer_inv (slot_calls es) T s" "set (dev_list s) = {..<n}" "length (dev_list s) = n"
    using timer_reach [OF assms(1)] .
  then have F: "\<forall>d \<in> set (dev_list s). id_done (ids s d) \<or> id_fsh (ids s d)"
    using assms(4) by (auto simp: timer_inv_def slot_ok_def)
  define s1 where "s1 p = s\<lparr>time_now := time_now s + 1, ids := released (dev_list s) (ids s), tpc := p\<rparr>" for p
  have "\<exists>k p. k \<le> 2 * n + 3 \<and> timer_exec (replicate k Timer_step) s = Some (s1 p)"
    using assms(2)
  proof
    assume "tpc s = Loop_head"
    from whole_round [OF this assms(3) F] show ?thesis using T(3) by (auto simp: s1_def)
  next
    assume w: "tpc s = Wait_loop ds f e"
    then obtain vs where vs: "dev_list s = vs @ ds" using T(1) by (auto simp: timer_inv_def loop_ok_def)
    then have "length ds + length (dev_list s) + 2 \<le> 2 * n + 3" using T(3) by simp
    moreover from rest_of_round [OF w] F vs obtain f' where
      "timer_exec (replicate (length ds + length (dev_list s) + 2) Timer_step) s = Some (s1 (if f' = e + length ds then Exited else Loop_head))"
      by (auto simp: s1_def)
    ultimately show ?thesis by blast
  qed
  then obtain k p where "k \<le> 2 * n + 3" "timer_exec (replicate k Timer_step) s = Some (s1 p)" by blast
  moreover have "timer_do (Wake d) (s1 p) \<noteq> None" if "d < n" "dpc s d = Waiting" for d
    using that T(2) by (simp add: s1_def next_slot_wake_def)
  ultimately show ?thesis by (intro exI [of _ k] exI [of _ "s1 p"]) (simp add: s1_def current_time_def)
qed

theorem barrier_opens_witness:
  "\<exists>s. timer_exec (take 3 demo_run) (boot_timer 2) = Some s \<and>
     (\<exists>k s'. k \<le> 7 \<and> timer_exec (replicate k Timer_step) s = Some s' \<and> current_time s' = current_time s + 1)"
proof -
  obtain s where s: "timer_exec (take 3 demo_run) (boot_timer 2) = Some s" "tpc s = Wait_loop [1, 0] 0 0" "\<not> timer_stop s"
    "id_done (ids s 0)" "id_done (ids s 1)"
    using demo_run_start by blast
  have "\<forall>d < 2. id_done (ids s d) \<or> dpc s d = Detached" using s(4,5) by (auto simp: less_2_cases_iff)
  with barrier_opens [OF s(1) disjI2 [OF s(2)] s(3)] s(1) show ?thesis by auto
qed

text \<open>
  The threads and the timer never wait for each other: while no thread is in its own code and some
  thread waits in \<^verbatim>\<open>next_slot\<close>, at most \<open>3 n + 4\<close> steps of the timer let some thread continue.
\<close>

lemma never_stuck:
  assumes "timer_exec es (boot_timer n) = Some s" "\<forall>d < n. dpc s d \<noteq> Working" "x < n" "dpc s x = Waiting"
  shows "\<exists>k s'. k \<le> 3 * n + 4 \<and> timer_exec (replicate k Timer_step) s = Some s' \<and> (\<exists>d < n. timer_do (Wake d) s' \<noteq> None)"
proof (cases "\<exists>d < n. timer_do (Wake d) s \<noteq> None")
  case True
  then show ?thesis by (intro exI [of _ 0] exI [of _ s]) auto
next
  case stuck: False
  obtain T where T: "timer_inv (slot_calls es) T s" "set (dev_list s) = {..<n}" "length (dev_list s) = n"
    using timer_reach [OF assms(1)] .
  have w: "id_done (ids s d)" if "d < n" "dpc s d = Waiting" for d
    using stuck that T(2) by (auto simp: next_slot_wake_def split: if_splits)
  have F: "id_done (ids s d) \<or> id_fsh (ids s d)" "dpc s d = Waiting \<or> id_fsh (ids s d)" if "d < n" for d
    using w [OF that] timer_inv_devs [OF T(1), of d] assms(2) that T(2) by (cases "dpc s d"; simp add: slot_ok_def)+
  have x: "x \<in> set (dev_list s)" "\<not> id_fsh (ids s x)"
    using timer_inv_devs [OF T(1), of x] assms(3,4) T(2) by (auto simp: slot_ok_def)
  have ns: "\<not> timer_stop s" using timer_inv_stop [OF T(1)] x by blast
  show ?thesis
  proof (cases "tpc s")
    case Loop_head
    from whole_round [OF this ns] F T(2,3) x assms(3,4) show ?thesis
      by (intro exI [of _ "2 * n + 3"]) (auto simp: next_slot_wake_def intro!: exI [of _ x])
  next
    case (Wait_loop ds f e)
    then obtain vs where vs: "dev_list s = vs @ ds" using T(1) by (auto simp: timer_inv_def loop_ok_def)
    have "\<forall>d \<in> set ds. id_done (ids s d) \<or> id_fsh (ids s d)" using F(1) T(2) vs by auto
    from rest_of_round [OF Wait_loop this] obtain f' where
      "timer_exec (replicate (length ds + n + 2) Timer_step) s = Some (s\<lparr>time_now := time_now s + 1,
         ids := released (dev_list s) (ids s), tpc := if f' = e + length ds then Exited else Loop_head\<rparr>)"
      using T(3) by auto
    moreover have "length ds \<le> n" using T(3) vs by simp
    ultimately show ?thesis using x assms(3,4)
      by (intro exI [of _ "length ds + n + 2"] exI conjI) (auto simp: next_slot_wake_def intro!: exI [of _ x])
  next
    case (Release_loop ds f e)
    then obtain vs where vs: "dev_list s = vs @ ds" using T(1) by (auto simp: timer_inv_def loop_ok_def)
    have fe: "f \<noteq> e" using T(1) Release_loop x by (auto simp: timer_inv_def loop_ok_def)
    have len: "length ds \<le> n" using vs T(3) by simp
    let ?s = "s\<lparr>ids := released ds (ids s), tpc := Loop_head\<rparr>"
    have r: "timer_exec (replicate (length ds + 1) Timer_step) s = Some ?s" using rest_of_release [OF Release_loop] fe by simp
    show ?thesis
    proof (cases "\<exists>d \<in> set ds. dpc s d = Waiting")
      case True
      then obtain d where d: "d \<in> set ds" "dpc s d = Waiting" by blast
      then have "d \<in> set (dev_list s)" using vs by simp
      then have "timer_do (Wake d) ?s \<noteq> None" "d < n" using d T(2) by (simp_all add: next_slot_wake_def)
      moreover have "length ds + 1 \<le> 3 * n + 4" using len by simp
      ultimately show ?thesis using r by blast
    next
      case False
      have "\<forall>d \<in> set (dev_list ?s). id_done (ids ?s d) \<or> id_fsh (ids ?s d)"
        using F T(2) False vs by (auto simp: released_def)
      from whole_round [of ?s, OF _ _ this] ns obtain f' where
        "timer_exec (replicate (2 * n + 3) Timer_step) ?s = Some (?s\<lparr>time_now := time_now s + 1,
           ids := released (dev_list s) (released ds (ids s)), tpc := if f' = n then Exited else Loop_head\<rparr>)"
        using T(3) by auto
      then have "timer_exec (replicate (length ds + 1 + (2 * n + 3)) Timer_step) s = Some (?s\<lparr>time_now := time_now s + 1,
           ids := released (dev_list s) (released ds (ids s)), tpc := if f' = n then Exited else Loop_head\<rparr>)"
        unfolding replicate_add [of "length ds + 1"] timer_exec_append r by simp
      then show ?thesis using len x assms(3,4)
        by (intro exI [of _ "length ds + 1 + (2 * n + 3)"]) (auto simp: next_slot_wake_def intro!: exI [of _ x])
    qed
  next
    case Exited
    then show ?thesis using T(1) x by (auto simp: timer_inv_def loop_ok_def)
  qed
qed

text \<open>
  C25 (timer_thread_ends): once every thread has detached, the timer thread ends after at most
  \<open>4 n + 6\<close> steps, so that the join in \<^verbatim>\<open>stop_timer\<close> returns and the list of devices is freed.
\<close>

theorem timer_thread_ends:
  assumes "timer_exec es (boot_timer n) = Some s" "\<forall>d < n. dpc s d = Detached"
  shows "\<exists>k s'. k \<le> 4 * n + 6 \<and> timer_exec (replicate k Timer_step) s = Some s' \<and> tpc s' = Exited \<and>
    stop_join s' = Some (s'\<lparr>dev_list := []\<rparr>)"
proof -
  obtain T where T: "timer_inv (slot_calls es) T s" "set (dev_list s) = {..<n}" "length (dev_list s) = n"
    using timer_reach [OF assms(1)] .
  have F: "\<forall>d \<in> set (dev_list s). id_fsh (ids s d)" using T(1,2) assms(2) by (auto simp: timer_inv_def slot_ok_def)
  have head: "\<exists>k s'. k \<le> 2 * n + 3 \<and> timer_exec (replicate k Timer_step) s1 = Some s' \<and> tpc s' = Exited"
    if s1: "tpc s1 = Loop_head" "dev_list s1 = dev_list s" "\<forall>d \<in> set (dev_list s). id_fsh (ids s1 d)" for s1
  proof (cases "timer_stop s1")
    case True
    then show ?thesis using s1(1) by (intro exI [of _ 1]) (simp add: timer_routine_def)
  next
    case False
    from whole_round [OF s1(1) False] s1(2,3) T(3) show ?thesis by (intro exI [of _ "2 * n + 3"]) auto
  qed
  have after: "\<exists>k s'. k \<le> 4 * n + 6 \<and> timer_exec (replicate k Timer_step) s = Some s' \<and> tpc s' = Exited"
    if j: "timer_exec (replicate j Timer_step) s = Some s1" "j \<le> 2 * n + 3" and s1: "tpc s1 = Exited \<or> tpc s1 = Loop_head"
      "dev_list s1 = dev_list s" "\<forall>d \<in> set (dev_list s). id_fsh (ids s1 d)" for j s1
    using s1(1)
  proof
    assume "tpc s1 = Exited"
    then show ?thesis using j by (intro exI [of _ j]) simp
  next
    assume "tpc s1 = Loop_head"
    from head [OF this s1(2,3)] obtain k s' where "k \<le> 2 * n + 3" "timer_exec (replicate k Timer_step) s1 = Some s'" "tpc s' = Exited"
      by blast
    then show ?thesis using j by (intro exI [of _ "j + k"]) (simp add: replicate_add timer_exec_append)
  qed
  have "\<exists>k s'. k \<le> 4 * n + 6 \<and> timer_exec (replicate k Timer_step) s = Some s' \<and> tpc s' = Exited"
  proof (cases "tpc s")
    case Loop_head
    show ?thesis by (rule after [of 0 s]) (simp_all add: F Loop_head)
  next
    case (Wait_loop ds f e)
    then obtain vs where vs: "dev_list s = vs @ ds" using T(1) by (auto simp: timer_inv_def loop_ok_def)
    then have "\<forall>d \<in> set ds. id_done (ids s d) \<or> id_fsh (ids s d)" using F by simp
    from rest_of_round [OF Wait_loop this] obtain f' where
      R: "timer_exec (replicate (length ds + n + 2) Timer_step) s = Some (s\<lparr>time_now := time_now s + 1,
         ids := released (dev_list s) (ids s), tpc := if f' = e + length ds then Exited else Loop_head\<rparr>)"
      using T(3) by auto
    have "length ds \<le> n" using T(3) vs by simp
    then show ?thesis using F by (intro after [OF R]) simp_all
  next
    case (Release_loop ds f e)
    then obtain vs where vs: "dev_list s = vs @ ds" using T(1) by (auto simp: timer_inv_def loop_ok_def)
    then have "length ds \<le> n" using T(3) by simp
    then show ?thesis using F by (intro after [OF rest_of_release [OF Release_loop]]) (simp_all add: released_def)
  next
    case Exited
    show ?thesis by (rule after [of 0 s]) (simp_all add: F Exited)
  qed
  then show ?thesis by (auto simp: stop_join_def)
qed

theorem timer_thread_ends_witness:
  "\<exists>s k s'. timer_exec (demo_run @ [Wake 0, Detach 0]) (boot_timer 2) = Some s \<and> k \<le> 14 \<and>
     timer_exec (replicate k Timer_step) s = Some s' \<and> tpc s' = Exited"
proof -
  obtain s where s: "timer_exec (demo_run @ [Wake 0, Detach 0]) (boot_timer 2) = Some s" "dpc s 0 = Detached" "dpc s 1 = Detached"
    using demo_run_end by blast
  have "\<forall>d < 2. dpc s d = Detached" using s(2,3) by (auto simp: less_2_cases_iff)
  with timer_thread_ends [OF s(1)] s(1) show ?thesis by auto
qed

end
