(* ===== verification/Scan.thy ===== *)
theory Scan
  imports Prelude
begin

text \<open>
  What the sources use of formatted input: the directives \<^verbatim>\<open>%lu\<close>, \<^verbatim>\<open>%u\<close>, \<^verbatim>\<open>%d\<close>, \<^verbatim>\<open>%s\<close> and white
  space of \<^verbatim>\<open>fscanf\<close> and \<^verbatim>\<open>sscanf\<close>, and \<^verbatim>\<open>fgets\<close>. A stream is the string that is left to read. A
  directive returns the value, or \<open>None\<close> on a matching failure, and the rest of the stream; where a
  converted number does not fit its object, or a token its buffer, the behaviour is undefined and the
  result is \<open>None\<close>.
\<close>

section \<open>Characters and numbers\<close>

definition isspace :: "char \<Rightarrow> bool" where
  "isspace c \<longleftrightarrow> of_char c = (32::nat) \<or> (9 \<le> (of_char c :: nat) \<and> (of_char c :: nat) \<le> 13)"

definition isdigit :: "char \<Rightarrow> bool" where
  "isdigit c \<longleftrightarrow> 48 \<le> (of_char c :: nat) \<and> (of_char c :: nat) \<le> 57"

definition digits_val :: "string \<Rightarrow> nat" where
  "digits_val = foldl (\<lambda>a c. 10 * a + (of_char c - 48)) 0"

definition skip_ws :: "string \<Rightarrow> string" where
  "skip_ws = dropWhile isspace"

text \<open>A C string ends at its first null character.\<close>

definition c_string :: "string \<Rightarrow> string" where
  "c_string = takeWhile (\<lambda>c. of_char c \<noteq> (0::nat))"

text \<open>An optional sign and the longest run of digits after white space.\<close>

definition scan_sign :: "string \<Rightarrow> bool \<times> string" where
  "scan_sign s = (case s of
     c # r \<Rightarrow> if c = CHR ''-'' then (True, r) else if c = CHR ''+'' then (False, r) else (False, s)
   | [] \<Rightarrow> (False, []))"

definition scan_digits :: "string \<Rightarrow> (bool \<times> nat) option \<times> string" where
  "scan_digits s = (let (neg, r) = scan_sign (skip_ws s); ds = takeWhile isdigit r in
     (if ds = [] then None else Some (neg, digits_val ds), drop (length ds) r))"

section \<open>The directives\<close>

definition scan_lu :: "string \<Rightarrow> u64 option \<times> string" where
  "scan_lu s = (case scan_digits s of
     (None, r) \<Rightarrow> (None, r)
   | (Some (neg, n), r) \<Rightarrow>
       (Some (if n \<ge> 2 ^ 64 then - 1 else if neg then - of_nat n else of_nat n), r))"

definition scan_u :: "string \<Rightarrow> (u32 option \<times> string) option" where
  "scan_u s = (case scan_lu s of
     (None, r) \<Rightarrow> Some (None, r)
   | (Some v, r) \<Rightarrow> if unat v < 2 ^ 32 then Some (Some (ucast v), r) else None)"

definition scan_d :: "string \<Rightarrow> (int option \<times> string) option" where
  "scan_d s = (case scan_digits s of
     (None, r) \<Rightarrow> Some (None, r)
   | (Some (neg, n), r) \<Rightarrow>
       (let v = (if neg then - int n else int n) in
        if - (2 ^ 31) \<le> v \<and> v < 2 ^ 31 then Some (Some v, r) else None))"

text \<open>\<^verbatim>\<open>%s\<close> into a buffer of \<open>cap\<close> characters; at the end of the input nothing is stored.\<close>

definition scan_s :: "nat \<Rightarrow> string \<Rightarrow> (string option \<times> string) option" where
  "scan_s cap s = (let r = skip_ws s; t = takeWhile (\<lambda>c. \<not> isspace c) r in
     if r = [] then Some (None, [])
     else if length t < cap then Some (Some t, drop (length t) r) else None)"

text \<open>Some \<^verbatim>\<open>%lu\<close> in a row, until one fails.\<close>

fun scan_lus :: "nat \<Rightarrow> string \<Rightarrow> u64 list \<times> string" where
  "scan_lus 0 s = ([], s)"
| "scan_lus (Suc n) s = (case scan_lu s of
     (None, r) \<Rightarrow> ([], r)
   | (Some v, r) \<Rightarrow> (case scan_lus n r of (vs, r') \<Rightarrow> (v # vs, r')))"

text \<open>\<^verbatim>\<open>fgets\<close> with room for \<open>n\<close> characters before the null character.\<close>

fun fgets :: "nat \<Rightarrow> string \<Rightarrow> string \<times> string" where
  "fgets 0 s = ([], s)"
| "fgets (Suc n) [] = ([], [])"
| "fgets (Suc n) (c # s) =
     (if c = CHR 0x0A then ([c], s) else (case fgets n s of (l, r) \<Rightarrow> (c # l, r)))"

section \<open>Printing numbers\<close>

fun print_nat :: "nat \<Rightarrow> string" where
  "print_nat n = (if n < 10 then [char_of (48 + n)] else print_nat (n div 10) @ [char_of (48 + n mod 10)])"

declare print_nat.simps [simp del]

lemma of_char_digit: "d < 10 \<Longrightarrow> of_char (char_of (48 + d) :: char) = (48 + d :: nat)"
  by simp

lemma isdigit_digit: "d < 10 \<Longrightarrow> isdigit (char_of (48 + d :: nat))"
  by (simp add: isdigit_def)

lemma digits_val_snoc: "digits_val (s @ [c]) = 10 * digits_val s + (of_char c - 48)"
  by (simp add: digits_val_def)

lemma print_nat_digits: "\<forall>c \<in> set (print_nat n). isdigit c"
proof (induction n rule: print_nat.induct)
  case (1 n)
  show ?case
  proof (cases "n < 10")
    case True
    then show ?thesis using isdigit_digit [of n] by (subst print_nat.simps) simp
  next
    case False
    then show ?thesis using 1 isdigit_digit [of "n mod 10"] by (subst print_nat.simps) auto
  qed
qed

lemma print_nat_nonempty [simp]: "print_nat n \<noteq> []"
  by (subst print_nat.simps) simp

lemma digits_val_print [simp]: "digits_val (print_nat n) = n"
proof (induction n rule: print_nat.induct)
  case (1 n)
  show ?case
  proof (cases "n < 10")
    case True
    then show ?thesis by (subst print_nat.simps) (simp add: digits_val_def)
  next
    case False
    then show ?thesis using 1 by (subst print_nat.simps) (simp add: digits_val_snoc)
  qed
qed

section \<open>Scanning what was printed\<close>

text \<open>A text that may follow a number or a word: empty, or starting with white space.\<close>

definition ends_token :: "string \<Rightarrow> bool" where
  "ends_token s \<longleftrightarrow> (case s of [] \<Rightarrow> True | c # _ \<Rightarrow> isspace c)"

lemma ends_token_simps [simp]: "ends_token []" "ends_token (CHR '' '' # s)" "ends_token (CHR 0x0A # s)"
  by (simp_all add: ends_token_def isspace_def)

lemma isspace_simps [simp]: "isspace (CHR '' '')" "isspace (CHR 0x0A)"
  by (simp_all add: isspace_def)

lemma digit_not_space: "isdigit c \<Longrightarrow> \<not> isspace c"
  by (auto simp: isdigit_def isspace_def)

lemma ends_token_cases:
  assumes "ends_token s"
  shows "takeWhile isdigit s = []" "takeWhile (\<lambda>c. \<not> isspace c) s = []"
  using assms digit_not_space by (cases s; auto simp: ends_token_def)+

lemma takeWhile_exact: "\<forall>c \<in> set t. P c \<Longrightarrow> takeWhile P s = [] \<Longrightarrow> takeWhile P (t @ s) = t"
  by (simp add: takeWhile_append2)

lemma skip_ws_simps [simp]:
  "skip_ws (CHR '' '' # s) = skip_ws s" "skip_ws (CHR 0x0A # s) = skip_ws s" "skip_ws [] = []"
  by (simp_all add: skip_ws_def)

lemma skip_ws_token: "t \<noteq> [] \<Longrightarrow> \<forall>c \<in> set t. \<not> isspace c \<Longrightarrow> skip_ws (t @ s) = t @ s"
  by (cases t) (simp_all add: skip_ws_def)

lemma skip_ws_print [simp]: "skip_ws (print_nat n @ s) = print_nat n @ s"
  using print_nat_digits [of n] digit_not_space by (intro skip_ws_token) auto

lemma scan_sign_print [simp]: "scan_sign (print_nat n @ s) = (False, print_nat n @ s)"
proof -
  obtain c r where "print_nat n = c # r" "isdigit c"
    using print_nat_digits [of n] by (cases "print_nat n") auto
  then show ?thesis by (auto simp: scan_sign_def isdigit_def)
qed

lemma scan_digits_ws [simp]:
  "scan_digits (CHR '' '' # s) = scan_digits s" "scan_digits (CHR 0x0A # s) = scan_digits s"
  by (simp_all add: scan_digits_def)

lemma scan_digits_print [simp]:
  assumes "ends_token s"
  shows "scan_digits (print_nat n @ s) = (Some (False, n), s)"
  using assms takeWhile_exact [OF print_nat_digits ends_token_cases(1), of s n] by (simp add: scan_digits_def)

lemma scan_lu_print [simp]:
  "ends_token s \<Longrightarrow> scan_lu (print_nat (unat v) @ s) = (Some v, s)"
  "ends_token s \<Longrightarrow> scan_lu (CHR '' '' # print_nat (unat v) @ s) = (Some v, s)"
  using unsigned_less [of v, where 'a = nat] by (simp_all add: scan_lu_def)

lemma scan_u_print [simp]:
  assumes "ends_token s"
  shows "scan_u (print_nat (unat (v :: u32)) @ s) = Some (Some v, s)"
    "scan_u (CHR '' '' # print_nat (unat v) @ s) = Some (Some v, s)"
proof -
  have lt: "unat v < 2 ^ 32" using unsigned_less [of v, where 'a = nat] by simp
  then have "unat (of_nat (unat v) :: u64) = unat v" by (simp add: unat_ucast_up)
  moreover have "ucast (of_nat (unat v) :: u64) = v" by (rule bit_word_eqI) (simp add: bit_simps)
  ultimately show "scan_u (print_nat (unat v) @ s) = Some (Some v, s)"
    "scan_u (CHR '' '' # print_nat (unat v) @ s) = Some (Some v, s)"
    using assms lt by (simp_all add: scan_u_def scan_lu_def)
qed

lemma scan_s_token:
  assumes "t \<noteq> []" "\<forall>c \<in> set t. \<not> isspace c" "ends_token s" "length t < cap"
  shows "scan_s cap (t @ s) = Some (Some t, s)"
  using assms skip_ws_token [OF assms(1,2)] takeWhile_exact [OF assms(2) ends_token_cases(2)]
  by (simp add: scan_s_def Let_def)

lemma scan_s_ws [simp]: "scan_s cap (CHR '' '' # s) = scan_s cap s" "scan_s cap (CHR 0x0A # s) = scan_s cap s"
  by (simp_all add: scan_s_def)

end
