(* ===== verification/Loader.thy ===== *)
theory Loader
  imports Common Scan
begin

text \<open>
  The program loader of \<^verbatim>\<open>src/src/loader.c\<close>. The files are a function from paths to contents. Memory
  from \<^verbatim>\<open>malloc\<close> is not initialised: what a field holds before it is set is an argument (\<open>jp\<close> for the
  control block, \<open>jk\<close> for the instructions), and a decision on such a value is undefined. A call of
  \<^verbatim>\<open>exit\<close> ends the whole program.
\<close>

section \<open>Reading a program\<close>

datatype 'a outcome = Exits int | Returns 'a

definition get_opcode :: "string \<Rightarrow> ins_opcode_t outcome" where
  "get_opcode opt =
     (if opt = ''calc'' then Returns CALC
      else if opt = ''alloc'' then Returns ALLOC
      else if opt = ''free'' then Returns FREE
      else if opt = ''read'' then Returns READ
      else if opt = ''write'' then Returns WRITE
      else if opt = ''syscall'' then Returns SYSCALL
      else Exits 1)"

text \<open>The scanned values go to the arguments in order; the others keep what the memory held.\<close>

definition set_args :: "u64 list \<Rightarrow> inst_t \<Rightarrow> inst_t" where
  "set_args vs ins = ins\<lparr>
     arg_0 := if 0 < length vs then vs ! 0 else arg_0 ins,
     arg_1 := if 1 < length vs then vs ! 1 else arg_1 ins,
     arg_2 := if 2 < length vs then vs ! 2 else arg_2 ins,
     arg_3 := if 3 < length vs then vs ! 3 else arg_3 ins\<rparr>"

text \<open>\<^verbatim>\<open>fscanf\<close> with \<open>n\<close> numbers and a final white space, which is skipped if all numbers were read.\<close>

definition scan_args :: "nat \<Rightarrow> inst_t \<Rightarrow> string \<Rightarrow> inst_t \<times> string" where
  "scan_args n ins s = (case scan_lus n s of (vs, r) \<Rightarrow>
     (set_args vs ins, if length vs = n then skip_ws r else r))"

definition load_args :: "inst_t \<Rightarrow> string option \<Rightarrow> string \<Rightarrow> (inst_t \<times> string option \<times> string) option" where
  "load_args ins buf s = (case opcode ins of
     CALC \<Rightarrow> Some (ins, buf, s)
   | ALLOC \<Rightarrow> (case scan_args 2 ins s of (i, r) \<Rightarrow> Some (i, buf, r))
   | FREE \<Rightarrow> (case scan_args 1 ins s of (i, r) \<Rightarrow> Some (i, buf, r))
   | READ \<Rightarrow> (case scan_args 3 ins s of (i, r) \<Rightarrow> Some (i, buf, r))
   | WRITE \<Rightarrow> (case scan_args 3 ins s of (i, r) \<Rightarrow> Some (i, buf, r))
   | SYSCALL \<Rightarrow>
       (case fgets 199 s of (l, r) \<Rightarrow>
          (let buf' = (if l = [] then buf else Some l) in
           case buf' of
             None \<Rightarrow> None
           | Some b \<Rightarrow> Some (set_args (fst (scan_lus 4 (c_string b))) ins, buf', r))))"

text \<open>
  The loop over the instructions. The buffers \<^verbatim>\<open>opcode\<close> (10 characters) and \<^verbatim>\<open>buf\<close> keep their contents
  when the input has ended; before the first input they hold nothing defined.
\<close>

fun load_insts ::
  "(nat \<Rightarrow> inst_t) \<Rightarrow> nat \<Rightarrow> nat \<Rightarrow> string option \<Rightarrow> string option \<Rightarrow> string \<Rightarrow> inst_t list outcome option" where
  "load_insts jk i 0 opc buf s = Some (Returns [])"
| "load_insts jk i (Suc n) opc buf s = do {
     (t, r) \<leftarrow> scan_s 10 s;
     opt \<leftarrow> (case t of None \<Rightarrow> opc | Some _ \<Rightarrow> t);
     (case get_opcode (c_string opt) of
        Exits e \<Rightarrow> Some (Exits e)
      | Returns c \<Rightarrow> do {
          (ins, buf', r') \<leftarrow> load_args ((jk i)\<lparr>opcode := c\<rparr>) buf r;
          rest \<leftarrow> load_insts jk (Suc i) n (Some opt) buf' r';
          Some (case rest of Exits e \<Rightarrow> Exits e | Returns is \<Rightarrow> Returns (ins # is)) }) }"

definition PAGE_SIZE :: u32 where
  "PAGE_SIZE = push_bit 10 1"

definition load ::
  "(string \<Rightarrow> string option) \<Rightarrow> (nat \<Rightarrow> inst_t) \<Rightarrow> pcb_t \<Rightarrow> u32 \<Rightarrow> string \<Rightarrow> (pcb_t outcome \<times> u32) option" where
  "load files jk jp avail_pid p =
     (case files p of
        None \<Rightarrow> Some (Exits 1, avail_pid + 1)
      | Some txt \<Rightarrow> do {
          (v1, r1) \<leftarrow> scan_u txt;
          pri \<leftarrow> v1;
          (v2, r2) \<leftarrow> scan_u r1;
          sz \<leftarrow> v2;
          text \<leftarrow> load_insts jk 0 (unat sz) None None r2;
          Some (case text of
              Exits e \<Rightarrow> Exits e
            | Returns is \<Rightarrow> Returns (jp\<lparr>pid := avail_pid, bp := PAGE_SIZE, pc := 0, path := take 16 (c_string p),
                priority := pri, code := \<lparr>cs_text = is, cs_size = sz\<rparr>\<rparr>), avail_pid + 1) })"

section \<open>Writing a program\<close>

definition print_num :: "u64 \<Rightarrow> string" where
  "print_num v = CHR '' '' # print_nat (unat v)"

definition op_name :: "ins_opcode_t \<Rightarrow> string" where
  "op_name c = (case c of CALC \<Rightarrow> ''calc'' | ALLOC \<Rightarrow> ''alloc'' | FREE \<Rightarrow> ''free'' | READ \<Rightarrow> ''read''
     | WRITE \<Rightarrow> ''write'' | SYSCALL \<Rightarrow> ''syscall'')"

definition used_args :: "inst_t \<Rightarrow> u64 list" where
  "used_args ins = (case opcode ins of
     CALC \<Rightarrow> [] | ALLOC \<Rightarrow> [arg_0 ins, arg_1 ins] | FREE \<Rightarrow> [arg_0 ins]
   | READ \<Rightarrow> [arg_0 ins, arg_1 ins, arg_2 ins] | WRITE \<Rightarrow> [arg_0 ins, arg_1 ins, arg_2 ins]
   | SYSCALL \<Rightarrow> [arg_0 ins, arg_1 ins, arg_2 ins, arg_3 ins])"

definition print_inst :: "inst_t \<Rightarrow> string" where
  "print_inst ins = op_name (opcode ins) @ concat (map print_num (used_args ins)) @ [CHR 0x0A]"

definition print_prog :: "u32 \<Rightarrow> inst_t list \<Rightarrow> string" where
  "print_prog pri is = print_nat (unat pri) @ CHR '' '' # print_nat (length is) @ CHR 0x0A # concat (map print_inst is)"

text \<open>The instruction in memory: the arguments its operation does not use keep what was there.\<close>

definition fill :: "inst_t \<Rightarrow> inst_t \<Rightarrow> inst_t" where
  "fill j ins = set_args (used_args ins) (j\<lparr>opcode := opcode ins\<rparr>)"

definition demo_alloc :: inst_t where
  "demo_alloc = \<lparr>opcode = ALLOC, arg_0 = 300, arg_1 = 0, arg_2 = 0, arg_3 = 0\<rparr>"

definition demo_block :: pcb_t where
  "demo_block = \<lparr>pid = 0, priority = 0, path = [], code = \<lparr>cs_text = [], cs_size = 0\<rparr>,
     regs = replicate 10 0, pc = 0, prio = 0, bp = 0\<rparr>"

section \<open>Loading what was written\<close>

lemma op_name_word: "op_name c \<noteq> []" "\<forall>x \<in> set (op_name c). \<not> isspace x" "length (op_name c) < 10"
  "get_opcode (op_name c) = Returns c" "c_string (op_name c) = op_name c"
  by (cases c; simp add: op_name_def isspace_def get_opcode_def c_string_def)+

lemma ends_token_args [simp]: "ends_token (concat (map print_num vs) @ CHR 0x0A # s)"
  by (cases vs) (simp_all add: print_num_def)

lemma scan_lu_num [simp]: "ends_token s \<Longrightarrow> scan_lu (print_num v @ s) = (Some v, s)"
  by (simp add: print_num_def)

lemma scan_lus_print:
  "scan_lus (length vs) (concat (map print_num vs) @ CHR 0x0A # s) = (vs, CHR 0x0A # s)"
  by (induction vs) simp_all

lemma scan_s_skip: "scan_s cap (skip_ws s) = scan_s cap s"
  by (simp add: scan_s_def skip_ws_def)

lemma skip_ws_insts [simp]: "skip_ws (concat (map print_inst is)) = concat (map print_inst is)"
proof (cases "is")
  case (Cons i is')
  then show ?thesis
    using skip_ws_token [OF op_name_word(1,2), of "opcode i"] by (simp add: print_inst_def [of i])
qed simp

lemma length_print_nat: "n < 10 ^ Suc k \<Longrightarrow> length (print_nat n) \<le> Suc k"
proof (induction k arbitrary: n)
  case 0
  then show ?case by (subst print_nat.simps) simp
next
  case (Suc k)
  then have "n div 10 < 10 ^ Suc k" by (simp add: less_mult_imp_div_less)
  from Suc.IH [OF this] show ?case by (subst print_nat.simps) simp
qed

lemma length_print_num: "length (print_num v) \<le> 21"
proof -
  have "unat v < 10 ^ Suc 19" using unsigned_less [of v, where 'a = nat] by simp
  from length_print_nat [OF this] show ?thesis by (simp add: print_num_def)
qed

lemma fgets_line: "CHR 0x0A \<notin> set l \<Longrightarrow> length l < n \<Longrightarrow> fgets n (l @ CHR 0x0A # r) = (l @ [CHR 0x0A], r)"
proof (induction l arbitrary: n)
  case Nil
  then show ?case by (cases n) simp_all
next
  case (Cons c l)
  then show ?case by (cases n) auto
qed

lemma print_num_chars: "c \<in> set (print_num v) \<Longrightarrow> c \<noteq> CHR 0x0A \<and> of_char c \<noteq> (0::nat)"
  using print_nat_digits [of "unat v"] by (auto simp: print_num_def isdigit_def)

lemma load_args_print:
  "load_args (j\<lparr>opcode := opcode ins\<rparr>) buf (concat (map print_num (used_args ins)) @ CHR 0x0A # concat (map print_inst is)) =
     Some (fill j ins, if opcode ins = SYSCALL then Some (concat (map print_num (used_args ins)) @ [CHR 0x0A]) else buf,
       if opcode ins = CALC then CHR 0x0A # concat (map print_inst is) else concat (map print_inst is))"
  (is "_ = Some (_, ?buf, _)")
proof (cases "opcode ins = SYSCALL")
  case True
  let ?l = "concat (map print_num (used_args ins))"
  have args: "used_args ins = [arg_0 ins, arg_1 ins, arg_2 ins, arg_3 ins]" using True by (simp add: used_args_def)
  then have four: "length (used_args ins) = 4" by simp
  have "length ?l < 199"
    using length_print_num [of "arg_0 ins"] length_print_num [of "arg_1 ins"] length_print_num [of "arg_2 ins"]
      length_print_num [of "arg_3 ins"] by (simp add: args)
  moreover have "CHR 0x0A \<notin> set ?l" using print_num_chars by auto
  ultimately have "fgets 199 (?l @ CHR 0x0A # concat (map print_inst is)) = (?l @ [CHR 0x0A], concat (map print_inst is))"
    by (rule fgets_line [rotated])
  moreover have "c_string (?l @ [CHR 0x0A]) = ?l @ [CHR 0x0A]"
    unfolding c_string_def takeWhile_eq_all_conv using print_num_chars by auto
  moreover have "scan_lus 4 (?l @ [CHR 0x0A]) = (used_args ins, [CHR 0x0A])"
    using scan_lus_print [of "used_args ins" "[]"] four by (simp only:)
  ultimately show ?thesis using True by (simp add: load_args_def fill_def Let_def)
next
  case False
  have "scan_args (length (used_args ins)) (j\<lparr>opcode := opcode ins\<rparr>)
      (concat (map print_num (used_args ins)) @ CHR 0x0A # concat (map print_inst is)) =
      (fill j ins, concat (map print_inst is))"
    using scan_lus_print [of "used_args ins"] by (simp add: scan_args_def fill_def)
  then show ?thesis using False
    by (cases "opcode ins") (simp_all add: load_args_def used_args_def fill_def set_args_def numeral_2_eq_2 numeral_3_eq_3)
qed

lemma load_insts_print:
  "skip_ws s = concat (map print_inst is) \<Longrightarrow>
   load_insts jk i (length is) opc buf s = Some (Returns (map2 (\<lambda>k ins. fill (jk k) ins) [i..<i + length is] is))"
proof (induction "is" arbitrary: s i opc buf)
  case Nil
  then show ?case by simp
next
  case (Cons ins "is")
  let ?r = "concat (map print_num (used_args ins)) @ CHR 0x0A # concat (map print_inst is)"
  have "scan_s 10 s = scan_s 10 (op_name (opcode ins) @ ?r)"
    using Cons.prems by (subst scan_s_skip [symmetric]) (simp add: print_inst_def [of ins])
  then have "scan_s 10 s = Some (Some (op_name (opcode ins)), ?r)"
    using scan_s_token [OF op_name_word(1,2) ends_token_args op_name_word(3)] by simp
  moreover obtain buf' r' where "load_args ((jk i)\<lparr>opcode := opcode ins\<rparr>) buf ?r = Some (fill (jk i) ins, buf', r')"
    "skip_ws r' = concat (map print_inst is)"
    using load_args_print [of ins "jk i" buf "is"] by (cases "opcode ins = CALC") auto
  moreover have "[i..<i + length (ins # is)] = i # [Suc i..<Suc i + length is]" by (subst upt_conv_Cons) simp_all
  ultimately show ?case using Cons.IH by (simp add: op_name_word)
qed

lemma load_print:
  assumes "files p = Some (print_prog pri is)" "length is < 2 ^ 32"
  shows "load files jk jp avail_pid p = Some (Returns (jp\<lparr>pid := avail_pid, bp := 1024, pc := 0,
      path := take 16 (c_string p), priority := pri, code :=
        \<lparr>cs_text = map2 (\<lambda>k ins. fill (jk k) ins) [0..<length is] is, cs_size = of_nat (length is)\<rparr>\<rparr>), avail_pid + 1)"
proof -
  have n: "unat (of_nat (length is) :: u32) = length is" using assms(2) by (simp only: unat_of_nat) simp
  let ?r = "CHR 0x0A # concat (map print_inst is)"
  have "scan_u (print_prog pri is) = Some (Some pri, CHR '' '' # print_nat (length is) @ ?r)"
    by (simp add: print_prog_def)
  moreover have "scan_u (CHR '' '' # print_nat (length is) @ ?r) = Some (Some (of_nat (length is)), ?r)"
    using scan_u_print(2) [of ?r "of_nat (length is)"] by (simp add: n)
  moreover have "load_insts jk 0 (length is) None None ?r =
      Some (Returns (map2 (\<lambda>k ins. fill (jk k) ins) [0..<length is] is))"
    using load_insts_print [of ?r "is" jk 0] by simp
  ultimately show ?thesis using assms(1) by (simp add: load_def n PAGE_SIZE_def)
qed

text \<open>
  C24 (load_printed_program): a program written with its priority, its length and one line per
  instruction is loaded exactly: the control block gets the next process number, the entry point 0
  and the instructions with all the arguments they use, whatever the memory held before. The
  path is cut to 16 characters.
\<close>

theorem load_printed_program:
  assumes "files p = Some (print_prog pri is)" "length is < 2 ^ 32"
  shows "load files jk jp avail_pid p = Some (Returns (jp\<lparr>pid := avail_pid, bp := 1024, pc := 0,
      path := take 16 (c_string p), priority := pri, code :=
        \<lparr>cs_text = map2 (\<lambda>k ins. fill (jk k) ins) [0..<length is] is, cs_size = of_nat (length is)\<rparr>\<rparr>), avail_pid + 1)"
  using assms by (rule load_print)

theorem load_printed_program_witness:
  "\<exists>c. load [''input/proc/p0'' \<mapsto> print_prog 1 [demo_alloc, demo_alloc]] (\<lambda>_. demo_alloc) demo_block 7 ''input/proc/p0''
     = Some (Returns c, 8) \<and> pid c = 7 \<and> cs_text (code c) = [demo_alloc, demo_alloc] \<and> path c = ''input/proc/p0''"
  using load_printed_program [of "[''input/proc/p0'' \<mapsto> print_prog 1 [demo_alloc, demo_alloc]]"
      "''input/proc/p0''" 1 "[demo_alloc, demo_alloc]" "\<lambda>_. demo_alloc" demo_block 7]
  by (simp add: fill_def used_args_def set_args_def demo_alloc_def c_string_def)

section \<open>Inputs the loader refuses or mistakes\<close>

lemma get_opcode_unknown:
  assumes "\<And>c. t \<noteq> op_name c"
  shows "get_opcode t = Exits 1"
  using assms [of CALC] assms [of ALLOC] assms [of FREE] assms [of READ] assms [of WRITE] assms [of SYSCALL]
  by (simp add: get_opcode_def op_name_def)

lemma load_args_ended:
  "opcode ins \<noteq> SYSCALL \<Longrightarrow> load_args ins buf [] = Some (ins, buf, [])"
proof -
  have "scan_lus (Suc n) [] = ([], [])" for n by (simp add: scan_lu_def scan_digits_def scan_sign_def)
  then have "scan_args (Suc n) ins [] = (ins, [])" for n by (simp add: scan_args_def set_args_def)
  then show "opcode ins \<noteq> SYSCALL \<Longrightarrow> ?thesis"
    by (cases "opcode ins") (simp_all add: load_args_def numeral_2_eq_2 numeral_3_eq_3)
qed

lemma load_insts_ended:
  "c \<noteq> SYSCALL \<Longrightarrow> load_insts jk i n (Some (op_name c)) buf [] = Some (Returns (map (\<lambda>k. (jk k)\<lparr>opcode := c\<rparr>) [i..<i + n]))"
proof (induction n arbitrary: i)
  case (Suc n)
  have "[i..<i + Suc n] = i # [Suc i..<Suc i + n]" by (subst upt_conv_Cons) simp_all
  then show ?case using Suc by (simp add: scan_s_def op_name_word load_args_ended)
qed simp



end
