(* ===== verification/Config.thy ===== *)
theory Config
  imports Loader
begin

text \<open>
  The configuration of a simulation, \<^verbatim>\<open>read_config\<close> of \<^verbatim>\<open>src/src/os.c\<close> in the configuration
  \<^verbatim>\<open>MM_FIXED_MEMSZ\<close> with \<^verbatim>\<open>MLQ_SCHED\<close>. The numbers of the first line are static variables and keep
  the value 0 when they cannot be read; the arrays come from \<^verbatim>\<open>malloc\<close> and keep what the memory held
  (\<open>jst\<close>, \<open>jpr\<close>); the name of a process goes through a local buffer of 100 characters, and so does the
  path.
\<close>

section \<open>Reading the configuration\<close>

record config =
  time_slot :: int
  num_cpus :: int
  num_processes :: int
  ld_path :: "string list"
  ld_start :: "u64 list"
  ld_prio :: "u64 list"
  memramsz :: int
  memswpsz :: "int list"

definition skip_line :: "string \<Rightarrow> string" where
  "skip_line s = drop 1 (dropWhile (\<lambda>c. c \<noteq> CHR 0x0A) s)"

text \<open>Some \<^verbatim>\<open>%d\<close> in a row, until one fails.\<close>

fun scan_ds :: "nat \<Rightarrow> string \<Rightarrow> (int list \<times> string) option" where
  "scan_ds 0 s = Some ([], s)"
| "scan_ds (Suc n) s = do {
     (v, r) \<leftarrow> scan_d s;
     (case v of
        None \<Rightarrow> Some ([], r)
      | Some x \<Rightarrow> do { (xs, r') \<leftarrow> scan_ds n r; Some (x # xs, r') }) }"

text \<open>
  The optional line with the memory sizes: if two numbers can be read, the rest of their line is
  skipped, otherwise the file is set back. The sizes themselves are fixed.
\<close>

definition skip_mem_line :: "string \<Rightarrow> string option" where
  "skip_mem_line s = do {
     (xs, r) \<leftarrow> scan_ds 2 s;
     Some (if length xs = 2 then skip_line r else s) }"

fun read_procs ::
  "(nat \<Rightarrow> u64) \<Rightarrow> nat \<Rightarrow> nat \<Rightarrow> string \<Rightarrow> ((string \<times> u64 \<times> u64) list) option" where
  "read_procs jpr i 0 s = Some []"
| "read_procs jpr i (Suc n) s =
     (case scan_lu s of
        (None, _) \<Rightarrow> None
      | (Some st, r1) \<Rightarrow> do {
          (t, r2) \<leftarrow> scan_s 100 r1;
          name \<leftarrow> t;
          let p = ''input/proc/'' @ c_string name;
          if length p \<ge> 100 then None
          else (case scan_lu r2 of
              (None, r3) \<Rightarrow> map_option (\<lambda>es. (p, st, jpr i) # es) (read_procs jpr (Suc i) n r3)
            | (Some pr, r3) \<Rightarrow> map_option (\<lambda>es. (p, st, pr) # es) (read_procs jpr (Suc i) n (skip_ws r3))) })"

definition read_config :: "(string \<Rightarrow> string option) \<Rightarrow> (nat \<Rightarrow> u64) \<Rightarrow> string \<Rightarrow> config outcome option" where
  "read_config files jpr p =
     (case files p of
        None \<Rightarrow> Some (Exits 1)
      | Some txt \<Rightarrow> do {
          (xs, r) \<leftarrow> scan_ds 3 txt;
          let num = (\<lambda>i. if i < length xs then xs ! i else 0);
          r1 \<leftarrow> skip_mem_line (if length xs = 3 then skip_ws r else r);
          es \<leftarrow> read_procs jpr 0 (nat (num 2)) r1;
          Some (Returns \<lparr>time_slot = num 0, num_cpus = num 1, num_processes = num 2,
            ld_path = map fst es, ld_start = map (fst \<circ> snd) es, ld_prio = map (snd \<circ> snd) es,
            memramsz = 0x100000, memswpsz = [0x1000000, 0, 0, 0]\<rparr>) })"

text \<open>The path of the configuration file, built in a buffer of 100 characters by \<^verbatim>\<open>main\<close>.\<close>

definition config_path :: "string list \<Rightarrow> string outcome option" where
  "config_path argv =
     (if length argv \<noteq> 2 then Some (Exits 1)
      else (let p = ''input/'' @ c_string (argv ! 1) in if length p \<ge> 100 then None else Some (Returns p)))"

section \<open>Writing a configuration\<close>

definition print_entry :: "string \<times> u64 \<times> u64 \<Rightarrow> string" where
  "print_entry e = (case e of (name, st, pr) \<Rightarrow> print_nat (unat st) @ CHR '' '' # name @ print_num pr @ [CHR 0x0A])"

definition print_mem_line :: "(nat \<times> nat \<times> string) option \<Rightarrow> string" where
  "print_mem_line l = (case l of None \<Rightarrow> [] | Some (a, b, t) \<Rightarrow> print_nat a @ CHR '' '' # print_nat b @ t @ [CHR 0x0A])"

definition print_config ::
  "nat \<Rightarrow> nat \<Rightarrow> (nat \<times> nat \<times> string) option \<Rightarrow> (string \<times> u64 \<times> u64) list \<Rightarrow> string" where
  "print_config ts nc l es = print_nat ts @ CHR '' '' # print_nat nc @ CHR '' '' # print_nat (length es) @
     CHR 0x0A # print_mem_line l @ concat (map print_entry es)"

text \<open>A name that fits the buffers, and one that is not read as a number.\<close>

definition good_name :: "string \<Rightarrow> bool" where
  "good_name t \<longleftrightarrow> t \<noteq> [] \<and> (\<forall>c \<in> set t. \<not> isspace c \<and> of_char c \<noteq> (0::nat)) \<and> length t \<le> 88"

definition no_number :: "string \<Rightarrow> bool" where
  "no_number t \<longleftrightarrow> (case t of [] \<Rightarrow> True | c # _ \<Rightarrow> \<not> isdigit c \<and> c \<noteq> CHR ''-'' \<and> c \<noteq> CHR ''+'')"

section \<open>Reading what was written\<close>

lemma scan_lu_skip: "scan_lu (skip_ws s) = scan_lu s"
  by (simp add: scan_lu_def scan_digits_def skip_ws_def)

lemma skip_ws_entries [simp]: "skip_ws (concat (map print_entry es)) = concat (map print_entry es)"
  by (cases es) (auto simp: print_entry_def split: prod.splits)

lemma ends_token_num [simp]: "ends_token (print_num v @ s)"
  by (simp add: print_num_def)

lemma good_name_word:
  assumes "good_name t"
  shows "scan_s 100 (CHR '' '' # t @ print_num v @ s) = Some (Some t, print_num v @ s)" "c_string t = t" "length t \<le> 88"
  using assms scan_s_token [of t "print_num v @ s" 100]
  by (auto simp: good_name_def c_string_def takeWhile_eq_all_conv)

lemma read_procs_print:
  "skip_ws s = concat (map print_entry es) \<Longrightarrow> \<forall>(t, _) \<in> set es. good_name t \<Longrightarrow>
   read_procs jpr i (length es) s = Some (map (\<lambda>(t, st, pr). (''input/proc/'' @ t, st, pr)) es)"
proof (induction es arbitrary: s i)
  case (Cons e es)
  obtain t st pr where e: "e = (t, st, pr)" by (cases e)
  have t: "good_name t" using Cons.prems(2) e by simp
  let ?r = "CHR 0x0A # concat (map print_entry es)"
  have "skip_ws s = print_nat (unat st) @ CHR '' '' # t @ print_num pr @ ?r"
    using Cons.prems(1) by (simp add: e print_entry_def [of "(t, st, pr)"])
  then have "scan_lu s = (Some st, CHR '' '' # t @ print_num pr @ ?r)"
    using scan_lu_skip [of s] by simp
  then show ?case
    using Cons.IH [of "concat (map print_entry es)" "Suc i"] Cons.prems(2) good_name_word [OF t]
    by (simp add: e)
qed simp

lemma scan_d_print [simp]:
  assumes "n < 2 ^ 31" "ends_token s"
  shows "scan_d (print_nat n @ s) = Some (Some (int n), s)" "scan_d (CHR '' '' # print_nat n @ s) = Some (Some (int n), s)"
  using assms by (simp_all add: scan_d_def)

lemma scan_d_word:
  assumes "good_name t" "no_number t"
  shows "\<exists>r. scan_d (CHR '' '' # t @ s) = Some (None, r)"
proof -
  obtain c t' where t: "t = c # t'" using assms(1) by (cases t) (auto simp: good_name_def)
  then have "\<not> isspace c" "\<not> isdigit c" "c \<noteq> CHR ''-''" "c \<noteq> CHR ''+''"
    using assms by (auto simp: good_name_def no_number_def)
  then show ?thesis by (simp add: t scan_d_def scan_digits_def skip_ws_def scan_sign_def Let_def)
qed

lemma skip_mem_line_some:
  assumes "a < 2 ^ 31" "b < 2 ^ 31" "ends_token t" "CHR 0x0A \<notin> set t"
  shows "skip_mem_line (print_mem_line (Some (a, b, t)) @ s) = Some s"
proof -
  have "ends_token (t @ CHR 0x0A # s)" using assms(3) by (cases t) (simp_all add: ends_token_def)
  moreover have "dropWhile (\<lambda>c. c \<noteq> CHR 0x0A) (t @ CHR 0x0A # s) = CHR 0x0A # s"
    using assms(4) by (subst dropWhile_append2) auto
  ultimately show ?thesis
    using assms(1,2) by (simp add: skip_mem_line_def print_mem_line_def numeral_2_eq_2 skip_line_def)
qed

lemma skip_mem_line_none:
  assumes "case es of [] \<Rightarrow> True | (t, st, _) # _ \<Rightarrow> good_name t \<and> no_number t \<and> unat st < 2 ^ 31"
  shows "skip_mem_line (concat (map print_entry es)) = Some (concat (map print_entry es))"
proof (cases es)
  case Nil
  then show ?thesis by (simp add: skip_mem_line_def numeral_2_eq_2 scan_d_def scan_digits_def scan_sign_def)
next
  case (Cons e es')
  obtain t st pr where e: "e = (t, st, pr)" by (cases e)
  let ?r = "t @ print_num pr @ CHR 0x0A # concat (map print_entry es')"
  have s: "concat (map print_entry es) = print_nat (unat st) @ CHR '' '' # ?r"
    by (simp add: Cons e print_entry_def [of "(t, st, pr)"])
  obtain r where "scan_d (CHR '' '' # ?r) = Some (None, r)"
    using scan_d_word [of t] assms by (auto simp: Cons e)
  then show ?thesis unfolding s using assms by (simp add: Cons e skip_mem_line_def numeral_2_eq_2)
qed

lemma read_config_print:
  assumes "files p = Some (print_config ts nc l es)" "ts < 2 ^ 31" "nc < 2 ^ 31" "length es < 2 ^ 31"
    and "\<forall>(t, _) \<in> set es. good_name t"
    and "case l of None \<Rightarrow> (case es of [] \<Rightarrow> True | (t, st, _) # _ \<Rightarrow> no_number t \<and> unat st < 2 ^ 31)
         | Some (a, b, t) \<Rightarrow> a < 2 ^ 31 \<and> b < 2 ^ 31 \<and> ends_token t \<and> CHR 0x0A \<notin> set t"
  shows "read_config files jpr p = Some (Returns \<lparr>time_slot = int ts, num_cpus = int nc, num_processes = int (length es),
    ld_path = map (\<lambda>(t, _). ''input/proc/'' @ t) es, ld_start = map (\<lambda>(_, st, _). st) es,
    ld_prio = map (\<lambda>(_, _, pr). pr) es, memramsz = 0x100000, memswpsz = [0x1000000, 0, 0, 0]\<rparr>)"
proof -
  let ?es = "concat (map print_entry es)"
  let ?m = "print_mem_line l @ ?es"
  have "scan_ds 3 (print_config ts nc l es) = Some ([int ts, int nc, int (length es)], CHR 0x0A # ?m)"
    using assms(2-4) by (simp add: print_config_def numeral_3_eq_3)
  moreover have "skip_mem_line (skip_ws ?m) = Some ?es"
  proof (cases l)
    case None
    then have "skip_mem_line ?es = Some ?es"
      using assms(5,6) by (intro skip_mem_line_none) (auto split: list.splits)
    then show ?thesis by (simp add: None print_mem_line_def)
  next
    case (Some x)
    obtain a b t where x: "x = (a, b, t)" by (cases x)
    have "skip_ws ?m = ?m" by (simp add: Some x print_mem_line_def)
    then show ?thesis using skip_mem_line_some [of a b t ?es] assms(6) by (simp add: Some x)
  qed
  moreover have "read_procs jpr 0 (length es) ?es = Some (map (\<lambda>(t, st, pr). (''input/proc/'' @ t, st, pr)) es)"
    using read_procs_print [of ?es es] assms(5) by simp
  ultimately show ?thesis using assms(1)
    by (simp add: read_config_def Let_def case_prod_beta comp_def)
qed

text \<open>
  A configuration written with its three numbers, an optional line of memory
  sizes and one line per process is read back exactly: every process gets its path below
  \<^verbatim>\<open>input/proc/\<close>, its start time and its priority. Without the memory line this needs a first
  process whose name does not begin like a number. The memory sizes are the fixed ones in both
  cases.
\<close>

theorem config_printed:
  assumes "files p = Some (print_config ts nc l es)" "ts < 2 ^ 31" "nc < 2 ^ 31" "length es < 2 ^ 31"
    and "\<forall>(t, _) \<in> set es. good_name t"
    and "case l of None \<Rightarrow> (case es of [] \<Rightarrow> True | (t, st, _) # _ \<Rightarrow> no_number t \<and> unat st < 2 ^ 31)
         | Some (a, b, t) \<Rightarrow> a < 2 ^ 31 \<and> b < 2 ^ 31 \<and> ends_token t \<and> CHR 0x0A \<notin> set t"
  shows "read_config files jpr p = Some (Returns \<lparr>time_slot = int ts, num_cpus = int nc, num_processes = int (length es),
    ld_path = map (\<lambda>(t, _). ''input/proc/'' @ t) es, ld_start = map (\<lambda>(_, st, _). st) es,
    ld_prio = map (\<lambda>(_, _, pr). pr) es, memramsz = 0x100000, memswpsz = [0x1000000, 0, 0, 0]\<rparr>)"
  using assms by (rule read_config_print)

definition demo_config :: "string" where
  "demo_config = print_config 6 2 None [(''p0s'', 0, 0), (''p1s'', 2, 15)]"

theorem config_printed_witness:
  "\<exists>c. read_config [''input/os_0'' \<mapsto> demo_config] (\<lambda>_. 0) ''input/os_0'' = Some (Returns c) \<and>
     ld_path c = [''input/proc/p0s'', ''input/proc/p1s''] \<and> ld_prio c = [0, 15] \<and> num_cpus c = 2"
  using config_printed [of "[''input/os_0'' \<mapsto> demo_config]" "''input/os_0''" 6 2 None
      "[(''p0s'', 0, 0), (''p1s'', 2, 15)]" "\<lambda>_. 0"]
  by (simp add: demo_config_def good_name_def no_number_def isspace_def isdigit_def)

end
