(* ===== verification/Os.thy ===== *)
theory Os
  imports Cpu Timer Config
begin

text \<open>
  The threads of \<^verbatim>\<open>src/src/os.c\<close> on one state: the CPUs (\<^verbatim>\<open>cpu_routine\<close>), the loader
  (\<^verbatim>\<open>ld_routine\<close>) and the timer. Every thread has a program counter; one event runs the piece of code
  up to the next point where another thread can take part: a call of the scheduler, an instruction,
  a call of the timer. So the calls of the scheduler do not overlap here; what its two mutexes leave open is the subject of \<open>SchedRace\<close>. \<open>os_exec\<close> runs an explicit interleaving.
\<close>

section \<open>State\<close>

text \<open>
  \<open>Top\<close>: the loop head; \<open>Refetch\<close>: after \<^verbatim>\<open>free\<close> (with the flag) or \<^verbatim>\<open>put_proc\<close>, before \<^verbatim>\<open>get_proc\<close>;
  \<open>Recheck\<close>: the second test; \<open>Run_inst\<close>: before \<^verbatim>\<open>run\<close>; \<open>Slot_end\<close> and \<open>Sleeping\<close>: the two halves of
  \<^verbatim>\<open>next_slot\<close>; \<open>Leaving\<close>: before \<^verbatim>\<open>detach_event\<close>.
\<close>

datatype cpu_pc = Top | Refetch bool | Recheck | Run_inst | Slot_end | Sleeping | Leaving | Stopped

record cpu_t =
  c_proc :: "proc_ptr option"
  time_left :: int
  c_pc :: cpu_pc

datatype ld_pc = L_top | L_wait | L_wait_sleep | L_slot | L_sleep | L_leaving | L_stopped

record os_t =
  wld :: world
  tmr :: timer_t
  cpus :: "cpu_t list"
  l_pc :: ld_pc
  l_i :: nat
  l_proc :: "proc_ptr option"
  os_done :: bool
  avail_pid :: u32

text \<open>
  What the run depends on: the memory devices' operations, the files, the contents of memory that
  \<^verbatim>\<open>malloc\<close> returns, and the configuration.
\<close>

record os_env =
  e_ops :: memphy_ops
  e_files :: "string \<Rightarrow> string option"
  e_insts :: "nat \<Rightarrow> inst_t"
  e_block :: pcb_t
  e_rgs :: "vm_rg_struct list"
  e_cfg :: config

datatype os_res = Blocked | Undefined | Program_exit int | Next os_t

section \<open>The CPU\<close>

definition set_cpu :: "nat \<Rightarrow> cpu_t \<Rightarrow> os_t \<Rightarrow> os_t" where
  "set_cpu i c s = s\<lparr>cpus := (cpus s)[i := c]\<rparr>"

definition set_sched :: "sched_t \<Rightarrow> os_t \<Rightarrow> os_t" where
  "set_sched sc s = s\<lparr>wld := (wld s)\<lparr>sched := sc\<rparr>\<rparr>"

definition free_proc :: "proc_ptr \<Rightarrow> os_t \<Rightarrow> os_t" where
  "free_proc p s = s\<lparr>wld := (wld s)\<lparr>procs := (procs (wld s))(p := None)\<rparr>\<rparr>"

definition cpu_top :: "nat \<Rightarrow> cpu_t \<Rightarrow> os_t \<Rightarrow> os_res" where
  "cpu_top i c s =
     (case c_proc c of
        None \<Rightarrow>
          (case get_proc (sched (wld s)) of (p, sc) \<Rightarrow>
             Next (set_cpu i (c\<lparr>c_proc := p, c_pc := if p = None then Slot_end else Recheck\<rparr>) (set_sched sc s)))
      | Some p \<Rightarrow>
          (case procs (wld s) p of
             None \<Rightarrow> Undefined
           | Some pr \<Rightarrow>
               if pc (pcb pr) = cs_size (code (pcb pr)) then
                 Next (set_cpu i (c\<lparr>c_proc := None, c_pc := Refetch True\<rparr>) (free_proc p s))
               else if time_left c = 0 then
                 Next (set_cpu i (c\<lparr>c_proc := None, c_pc := Refetch False\<rparr>)
                   (set_sched (put_proc (sched (wld s)) (Some p) (prio (pcb pr))) s))
               else Next (set_cpu i (c\<lparr>c_pc := Recheck\<rparr>) s)))"

definition cpu_refetch :: "bool \<Rightarrow> nat \<Rightarrow> cpu_t \<Rightarrow> os_t \<Rightarrow> os_res" where
  "cpu_refetch fin i c s =
     (case get_proc (sched (wld s)) of (p, sc) \<Rightarrow>
        Next (set_cpu i (c\<lparr>c_proc := p, time_left := if fin then 0 else time_left c, c_pc := Recheck\<rparr>) (set_sched sc s)))"

definition cpu_recheck :: "os_env \<Rightarrow> nat \<Rightarrow> cpu_t \<Rightarrow> os_t \<Rightarrow> os_res" where
  "cpu_recheck en i c s =
     (if c_proc c = None \<and> os_done s then Next (set_cpu i (c\<lparr>c_pc := Leaving\<rparr>) s)
      else if c_proc c = None then Next (set_cpu i (c\<lparr>c_pc := Slot_end\<rparr>) s)
      else Next (set_cpu i (c\<lparr>time_left := if time_left c = 0 then time_slot (e_cfg en) else time_left c,
                              c_pc := Run_inst\<rparr>) s))"

definition cpu_run :: "os_env \<Rightarrow> nat \<Rightarrow> cpu_t \<Rightarrow> os_t \<Rightarrow> os_res" where
  "cpu_run en i c s =
     (case c_proc c of
        None \<Rightarrow> Undefined
      | Some p \<Rightarrow>
          (case run (e_ops en) (wld s) p of
             None \<Rightarrow> Undefined
           | Some (_, w) \<Rightarrow> Next (set_cpu i (c\<lparr>time_left := time_left c - 1, c_pc := Slot_end\<rparr>) (s\<lparr>wld := w\<rparr>))))"

definition cpu_routine :: "os_env \<Rightarrow> nat \<Rightarrow> os_t \<Rightarrow> os_res" where
  "cpu_routine en i s =
     (if i < length (cpus s) then
        (let c = cpus s ! i in
         case c_pc c of
           Top \<Rightarrow> cpu_top i c s
         | Refetch fin \<Rightarrow> cpu_refetch fin i c s
         | Recheck \<Rightarrow> cpu_recheck en i c s
         | Run_inst \<Rightarrow> cpu_run en i c s
         | Slot_end \<Rightarrow> Next (set_cpu i (c\<lparr>c_pc := Sleeping\<rparr>) (s\<lparr>tmr := next_slot_signal i (tmr s)\<rparr>))
         | Sleeping \<Rightarrow>
             (case next_slot_wake i (tmr s) of
                None \<Rightarrow> Blocked
              | Some t \<Rightarrow> Next (set_cpu i (c\<lparr>c_pc := Top\<rparr>) (s\<lparr>tmr := t\<rparr>)))
         | Leaving \<Rightarrow> Next (set_cpu i (c\<lparr>c_pc := Stopped\<rparr>) (s\<lparr>tmr := detach_event i (tmr s)\<rparr>))
         | Stopped \<Rightarrow> Blocked)
      else Blocked)"

section \<open>The loader\<close>

text \<open>
  The device of the loader is the last one attached. The kernel structure of a new process is set
  before it is added; \<open>q\<close> is the address \<^verbatim>\<open>malloc\<close> returns for the control block, one that is not in
  use.
\<close>

definition no_krnl :: "world \<Rightarrow> krnl_t" where
  "no_krnl w = \<lparr>k_ready_queue = None, k_running_list = None, k_mlq_ready_queue = None, mm = None,
     mram = ram w, active_mswp = swp w\<rparr>"

definition ld_load :: "os_env \<Rightarrow> proc_ptr \<Rightarrow> os_t \<Rightarrow> os_res" where
  "ld_load en q s =
     (if int (l_i s) < num_processes (e_cfg en) then
        (if procs (wld s) q \<noteq> None then Blocked
         else
           (case load (e_files en) (e_insts en) (e_block en) (avail_pid s) (ld_path (e_cfg en) ! l_i s) of
              None \<Rightarrow> Undefined
            | Some (Exits e, _) \<Rightarrow> Program_exit e
            | Some (Returns c, a) \<Rightarrow>
                Next (s\<lparr>wld := (wld s)\<lparr>procs := (procs (wld s))(q \<mapsto>
                          \<lparr>pcb = c\<lparr>prio := ucast (ld_prio (e_cfg en) ! l_i s)\<rparr>, krnl = no_krnl (wld s)\<rparr>)\<rparr>,
                        avail_pid := a, l_proc := Some q, l_pc := L_wait\<rparr>)))
      else Next (s\<lparr>os_done := True, l_pc := L_leaving\<rparr>))"

definition ld_add :: "os_env \<Rightarrow> os_t \<Rightarrow> os_res" where
  "ld_add en s =
     (case l_proc s of
        None \<Rightarrow> Undefined
      | Some p \<Rightarrow>
          (case procs (wld s) p of
             None \<Rightarrow> Undefined
           | Some pr \<Rightarrow>
               (case add_proc (sched (wld s)) ((krnl pr)\<lparr>mm := Some (snd (init_mm (e_rgs en))), mram := ram (wld s),
                      active_mswp := swp (wld s)\<rparr>) p (prio (pcb pr)) of (sc, k) \<Rightarrow>
                  Next (s\<lparr>wld := (wld s)\<lparr>sched := sc, procs := (procs (wld s))(p \<mapsto> pr\<lparr>krnl := k\<rparr>)\<rparr>,
                          l_i := l_i s + 1, l_proc := None, l_pc := L_slot\<rparr>))))"

definition ld_routine :: "os_env \<Rightarrow> proc_ptr \<Rightarrow> os_t \<Rightarrow> os_res" where
  "ld_routine en q s =
     (let d = length (cpus s) in
      case l_pc s of
        L_top \<Rightarrow> ld_load en q s
      | L_wait \<Rightarrow>
          if current_time (tmr s) < ld_start (e_cfg en) ! l_i s
          then Next (s\<lparr>tmr := next_slot_signal d (tmr s), l_pc := L_wait_sleep\<rparr>)
          else ld_add en s
      | L_wait_sleep \<Rightarrow>
          (case next_slot_wake d (tmr s) of None \<Rightarrow> Blocked | Some t \<Rightarrow> Next (s\<lparr>tmr := t, l_pc := L_wait\<rparr>))
      | L_slot \<Rightarrow> Next (s\<lparr>tmr := next_slot_signal d (tmr s), l_pc := L_sleep\<rparr>)
      | L_sleep \<Rightarrow>
          (case next_slot_wake d (tmr s) of None \<Rightarrow> Blocked | Some t \<Rightarrow> Next (s\<lparr>tmr := t, l_pc := L_top\<rparr>))
      | L_leaving \<Rightarrow> Next (s\<lparr>tmr := detach_event d (tmr s), l_pc := L_stopped\<rparr>)
      | L_stopped \<Rightarrow> Blocked)"

section \<open>The whole system\<close>

datatype os_event = E_timer | E_cpu nat | E_ld proc_ptr

definition os_do :: "os_env \<Rightarrow> os_event \<Rightarrow> os_t \<Rightarrow> os_res" where
  "os_do en e s =
     (case e of
        E_timer \<Rightarrow> (case timer_routine (tmr s) of None \<Rightarrow> Blocked | Some t \<Rightarrow> Next (s\<lparr>tmr := t\<rparr>))
      | E_cpu i \<Rightarrow> cpu_routine en i s
      | E_ld q \<Rightarrow> ld_routine en q s)"

text \<open>An event that is not enabled is passed over.\<close>

fun os_exec :: "os_env \<Rightarrow> os_event list \<Rightarrow> os_t \<Rightarrow> os_res" where
  "os_exec en [] s = Next s"
| "os_exec en (e # es) s =
     (case os_do en e s of
        Blocked \<Rightarrow> os_exec en es s
      | Next s' \<Rightarrow> os_exec en es s'
      | r \<Rightarrow> r)"

text \<open>
  What \<^verbatim>\<open>main\<close> sets up: a device for every CPU and one for the loader, the two memory devices (as the
  initialisation of the memory returns them), an initialised scheduler, and idle CPUs.
\<close>

definition main_setup :: "os_env \<Rightarrow> memphy_struct \<Rightarrow> memphy_struct \<Rightarrow> os_t" where
  "main_setup en mr ms = (let n = nat (num_cpus (e_cfg en)) in
     \<lparr>wld = \<lparr>sched = init_scheduler zero_sched, procs = Map.empty, ram = mr, swp = ms\<rparr>,
      tmr = boot_timer (Suc n), cpus = replicate n \<lparr>c_proc = None, time_left = 0, c_pc = Top\<rparr>,
      l_pc = L_top, l_i = 0, l_proc = None, os_done = False, avail_pid = 1\<rparr>)"

text \<open>All the joins of \<^verbatim>\<open>main\<close> return.\<close>

definition all_joined :: "os_t \<Rightarrow> bool" where
  "all_joined s \<longleftrightarrow> (\<forall>c \<in> set (cpus s). c_pc c = Stopped) \<and> l_pc s = L_stopped"

end
