(* ===== verification/CpuSafety.thy ===== *)
theory CpuSafety
  imports Cpu
begin

unbundle bit_operations_syntax

text \<open>
  What the execution of instructions guarantees: on a system that satisfies \<open>world_inv\<close>, a
  program whose instructions pass the static check \<open>safe_inst\<close> runs to its end without undefined
  behaviour, keeps the invariant and does not change the memory of any other process.
\<close>

section \<open>The invariant of the system\<close>

definition maps_of :: "world \<Rightarrow> maps" where
  "maps_of w p = (case procs w p of None \<Rightarrow> None | Some pr \<Rightarrow> mm (krnl pr))"

definition world_inv :: "memphy_ops \<Rightarrow> world \<Rightarrow> bool" where
  "world_inv M w \<longleftrightarrow> memphy_ok M \<and> vm_inv (maps_of w) (ram w) \<and> 0 \<notin> set (free_fp_list (ram w)) \<and>
     (\<forall>p pr. procs w p = Some pr \<longrightarrow> length (regs (pcb pr)) = 10 \<and>
        (\<forall>m. mm (krnl pr) = Some m \<longrightarrow> rg_inv m))"

definition area_end :: "mm_struct \<Rightarrow> nat" where
  "area_end m = unat (vm_end (mmap m ! 0))"

text \<open>What one step of process \<open>p\<close> may do to its memory map and to the device.\<close>

definition step_ok :: "maps \<Rightarrow> memphy_struct \<Rightarrow> nat \<Rightarrow> mm_struct \<Rightarrow> mm_struct \<Rightarrow> memphy_struct \<Rightarrow> bool" where
  "step_ok ms mp p m m' mp' \<longleftrightarrow> vm_inv (ms(p \<mapsto> m')) mp' \<and> set (free_fp_list mp') \<subseteq> set (free_fp_list mp) \<and>
     rg_inv m' \<and> area_end m' < area_end m + 2 ^ 31 \<and>
     (\<forall>q b. q \<noteq> p \<and> b < 2 ^ 22 \<longrightarrow> vbyte (ms(p \<mapsto> m')) mp' q b = vbyte ms mp q b)"

lemma step_ok_mm:
  assumes "vm_inv ms mp" "ms p = Some m" "pgd m' = pgd m" "rg_inv m'" "area_end m' < area_end m + 2 ^ 31"
  shows "step_ok ms mp p m m' mp"
proof -
  have "ms(p \<mapsto> m) = ms" using assms(2) by auto
  then have "vm_inv (ms(p \<mapsto> m')) mp" "frm_of (ms(p \<mapsto> m')) mp = frm_of ms mp"
    using assms(1) vm_inv_pgd [OF assms(3), of ms p mp] frm_of_pgd [OF assms(3), of ms p mp] by simp_all
  then show ?thesis using assms(4,5) by (simp add: step_ok_def vbyte_def)
qed

lemma step_ok_keeps:
  assumes "keeps_bytes ms mp (ms(p \<mapsto> m')) mp' p a" "rg_inv m" "symrgtbl m' = symrgtbl m" "mmap m' = mmap m"
  shows "step_ok ms mp p m m' mp'"
  using assms by (auto simp: step_ok_def keeps_bytes_def rg_inv_def area_end_def)

text \<open>The second step of an access starts from the map the first one left, with the same device.\<close>

lemma step_ok_after_mm:
  assumes 1: "pgd m1 = pgd m" "area_end m1 + d \<le> area_end m + 2 ^ 31" "ms p = Some m"
    and 2: "step_ok (ms(p \<mapsto> m1)) mp p m1 m2 mp2" "area_end m2 < area_end m1 + d"
  shows "step_ok ms mp p m m2 mp2"
proof -
  have "ms(p \<mapsto> m) = ms" using 1(3) by auto
  then have "frm_of (ms(p \<mapsto> m1)) mp = frm_of ms mp" using frm_of_pgd [OF 1(1), of ms p mp] by simp
  then have "vbyte (ms(p \<mapsto> m1)) mp = vbyte ms mp" by (intro HOL.ext) (simp add: vbyte_def)
  then show ?thesis using 2 1(2) by (simp add: step_ok_def)
qed

section \<open>The library calls\<close>

lemma krnl_mm_same: "mm k = Some m \<Longrightarrow> k\<lparr>mm := Some m\<rparr> = k"
  by (cases k) simp

lemma krnl_same: "mm k = Some m \<Longrightarrow> k\<lparr>mm := Some m, mram := mram k\<rparr> = k"
  by (cases k) simp

lemma mm_alloc_step:
  assumes m: "mm k = Some m" "rg_inv m" and sz: "unat sz + 4095 < 2 ^ 31" "area_end m + 2 ^ 31 < 2 ^ 62"
  shows "\<exists>r a m'. mm_alloc M k 0 rgid sz = Some (r, a, k\<lparr>mm := Some m'\<rparr>) \<and> pgd m' = pgd m \<and> rg_inv m' \<and>
    area_end m' \<le> area_end m + unat sz + 4095"
proof (cases "rgid < 0 \<or> rgid \<ge> int PAGING_MAX_SYMTBL_SZ \<or> rg_used (symrgtbl m ! nat rgid)")
  case True
  have "mmap m \<noteq> []" using m(2) by (simp add: rg_inv_def)
  from mm_alloc_err [OF m(1) this True, of M sz] show ?thesis
    using m by (intro exI [of _ "-1"] exI [of _ 0] exI [of _ m]) (simp add: krnl_mm_same)
next
  case False
  then have r: "0 \<le> rgid" "rgid < int PAGING_MAX_SYMTBL_SZ" "\<not> rg_used (symrgtbl m ! nat rgid)" by auto
  have fits: "alloc_fits m sz" using sz by (simp add: alloc_fits_def area_end_def)
  from mm_alloc_eq [OF m r sz(1), of M] show ?thesis
    using rg_inv_alloc [OF m(2) fits, of "nat rgid"] alloc_mm_nat(3) [OF m(2) fits, of "nat rgid"] r
    by (intro exI [of _ 0] exI [of _ "sbrk (mmap m ! 0)"] exI [of _ "alloc_mm m (nat rgid) sz"])
      (simp add: area_end_def alloc_mm_def Let_def nat_less_iff)
qed

lemma mm_free_step:
  assumes m: "mm k = Some m" "rg_inv m"
  shows "\<exists>r m'. mm_free k 0 rgid = Some (r, k\<lparr>mm := Some m'\<rparr>) \<and> pgd m' = pgd m \<and> rg_inv m' \<and> mmap m' = mmap m"
proof (cases rule: mm_free_cases [OF m(1), of rgid, case_names error freed])
  case error
  then show ?thesis using m by (intro exI [of _ "-1"] exI [of _ m]) (simp add: krnl_mm_same)
next
  case freed
  then show ?thesis
    using rg_inv_free [OF m(2), of "nat rgid"]
    by (intro exI [of _ 0] exI [of _ "free_mm m (nat rgid)"]) (simp add: free_mm_def nat_less_iff)
qed

lemma region_addr_step:
  assumes m: "mm k = Some m" "rg_inv m" and cap: "area_end m + 2 ^ 31 < 2 ^ 62"
  shows "\<exists>t m'. region_addr M k 0 rgid off = Some (t, k\<lparr>mm := Some m'\<rparr>) \<and> pgd m' = pgd m \<and> rg_inv m' \<and>
    area_end m' \<le> area_end m + 5000"
proof (cases "0 \<le> rgid \<and> rgid < int PAGING_MAX_SYMTBL_SZ \<and>
    rg_start (symrgtbl m ! nat rgid) = 0 \<and> rg_end (symrgtbl m ! nat rgid) = 0")
  case True
  have "unat (100::addr_t) + 4095 < 2 ^ 31" by simp
  from mm_alloc_step [OF m this cap, of M rgid] obtain r a m' where
    A: "mm_alloc M k 0 rgid 100 = Some (r, a, k\<lparr>mm := Some m'\<rparr>)" "pgd m' = pgd m" "rg_inv m'"
      "area_end m' \<le> area_end m + unat (100::addr_t) + 4095" by blast
  from A(4) have "area_end m' \<le> area_end m + 5000" by simp
  with True m A(1-3) show ?thesis by (auto simp: region_addr_def Let_def)
next
  case False
  with m show ?thesis
    by (intro exI [of _ "if rgid < 0 \<or> rgid \<ge> int PAGING_MAX_SYMTBL_SZ then None
        else if rg_start (symrgtbl m ! nat rgid) \<ge> rg_end (symrgtbl m ! nat rgid) then None
        else if off \<ge> rg_end (symrgtbl m ! nat rgid) - rg_start (symrgtbl m ! nat rgid) then None
        else Some (rg_start (symrgtbl m ! nat rgid) + off)"] exI [of _ m])
      (auto simp: region_addr_def Let_def krnl_mm_same)
qed

text \<open>
  A read or write of a region: the address is computed on the map, then the page is accessed.
\<close>

lemma pg_getval_step:
  assumes "memphy_ok M" "vm_inv ms (mram k)" "mm k = Some m" "ms p = Some m" "0 \<notin> set (free_fp_list (mram k))"
    and "rg_inv m"
  shows "\<exists>r v m' mp'. pg_getval M k x = Some (r, v, k\<lparr>mm := Some m', mram := mp'\<rparr>) \<and>
    step_ok ms (mram k) p m m' mp' \<and> mmap m' = mmap m"
proof (cases rule: pg_getval_ok [OF assms(1-5) refl, of x, case_names ok fail])
  case (ok v m' mp')
  then show ?thesis using step_ok_keeps [OF ok(2) assms(6) ok(5,6)] by blast
next
  case (fail m' mp')
  then show ?thesis using step_ok_keeps [OF fail(4) assms(6) fail(5,6)] by blast
qed

lemma pg_setval_step:
  assumes "memphy_ok M" "vm_inv ms (mram k)" "mm k = Some m" "ms p = Some m" "0 \<notin> set (free_fp_list (mram k))"
    and "rg_inv m"
  shows "\<exists>r m' mp'. pg_setval M k x v = Some (r, k\<lparr>mm := Some m', mram := mp'\<rparr>) \<and>
    step_ok ms (mram k) p m m' mp' \<and> mmap m' = mmap m"
proof (cases rule: pg_setval_ok [OF assms(1-5) refl, of x v, case_names ok fail])
  case (ok m' mp1 mp')
  have "step_ok ms (mram k) p m m' mp1" using step_ok_keeps [OF ok(2) assms(6) ok(6,7)] .
  then have "step_ok ms (mram k) p m m' mp'" using ok(3-5) by (auto simp: step_ok_def)
  with ok show ?thesis by blast
next
  case (fail m' mp')
  then show ?thesis using step_ok_keeps [OF fail(4) assms(6) fail(5,6)] by blast
qed

lemma mm_read_step:
  assumes M: "memphy_ok M" and inv: "vm_inv ms (mram k)" and m: "mm k = Some m" "ms p = Some m"
    and nz: "0 \<notin> set (free_fp_list (mram k))" and rg: "rg_inv m" and cap: "area_end m + 2 ^ 31 < 2 ^ 62"
  shows "\<exists>r v m' mp'. mm_read M k 0 rgid off = Some (r, v, k\<lparr>mm := Some m', mram := mp'\<rparr>) \<and>
    step_ok ms (mram k) p m m' mp'"
proof -
  from region_addr_step [OF m(1) rg cap, of M rgid off] obtain t m1 where
    R: "region_addr M k 0 rgid off = Some (t, k\<lparr>mm := Some m1\<rparr>)" "pgd m1 = pgd m" "rg_inv m1"
      "area_end m1 \<le> area_end m + 5000" by blast
  let ?k1 = "k\<lparr>mm := Some m1\<rparr>"
  have "ms(p \<mapsto> m) = ms" using m by auto
  then have P: "vm_inv (ms(p \<mapsto> m1)) (mram ?k1)" "mm ?k1 = Some m1" "(ms(p \<mapsto> m1)) p = Some m1"
    "0 \<notin> set (free_fp_list (mram ?k1))"
    using inv vm_inv_pgd [OF R(2), of ms p "mram k"] nz by simp_all
  show ?thesis
  proof (cases t)
    case None
    have "step_ok ms (mram k) p m m1 (mram k)" using R inv m by (intro step_ok_mm) simp_all
    with None R(1) show ?thesis
      by (intro exI [of _ "-1"] exI [of _ 0] exI [of _ m1] exI [of _ "mram k"])
        (simp add: mm_read_def krnl_same [of ?k1])
  next
    case (Some a)
    from pg_getval_step [of M "ms(p \<mapsto> m1)", OF M P R(3), of "ucast a"] obtain r v m2 mp2 where
      G: "pg_getval M ?k1 (ucast a) = Some (r, v, ?k1\<lparr>mm := Some m2, mram := mp2\<rparr>)"
        "step_ok (ms(p \<mapsto> m1)) (mram k) p m1 m2 mp2" "mmap m2 = mmap m1" by auto
    have "step_ok ms (mram k) p m m2 mp2"
      by (rule step_ok_after_mm [OF R(2) _ m(2) G(2), of 1]) (use R(4) G(3) in \<open>simp_all add: area_end_def\<close>)
    with Some R(1) G(1) show ?thesis by (auto simp: mm_read_def)
  qed
qed

lemma mm_write_step:
  assumes M: "memphy_ok M" and inv: "vm_inv ms (mram k)" and m: "mm k = Some m" "ms p = Some m"
    and nz: "0 \<notin> set (free_fp_list (mram k))" and rg: "rg_inv m" and cap: "area_end m + 2 ^ 31 < 2 ^ 62"
  shows "\<exists>r m' mp'. mm_write M k 0 rgid off v = Some (r, k\<lparr>mm := Some m', mram := mp'\<rparr>) \<and>
    step_ok ms (mram k) p m m' mp'"
proof -
  from region_addr_step [OF m(1) rg cap, of M rgid off] obtain t m1 where
    R: "region_addr M k 0 rgid off = Some (t, k\<lparr>mm := Some m1\<rparr>)" "pgd m1 = pgd m" "rg_inv m1"
      "area_end m1 \<le> area_end m + 5000" by blast
  let ?k1 = "k\<lparr>mm := Some m1\<rparr>"
  have "ms(p \<mapsto> m) = ms" using m by auto
  then have P: "vm_inv (ms(p \<mapsto> m1)) (mram ?k1)" "mm ?k1 = Some m1" "(ms(p \<mapsto> m1)) p = Some m1"
    "0 \<notin> set (free_fp_list (mram ?k1))"
    using inv vm_inv_pgd [OF R(2), of ms p "mram k"] nz by simp_all
  show ?thesis
  proof (cases t)
    case None
    have "step_ok ms (mram k) p m m1 (mram k)" using R inv m by (intro step_ok_mm) simp_all
    with None R(1) show ?thesis
      by (intro exI [of _ "-1"] exI [of _ m1] exI [of _ "mram k"]) (simp add: mm_write_def krnl_same [of ?k1])
  next
    case (Some a)
    from pg_setval_step [of M "ms(p \<mapsto> m1)", OF M P R(3), of "ucast a" v] obtain r m2 mp2 where
      G: "pg_setval M ?k1 (ucast a) v = Some (r, ?k1\<lparr>mm := Some m2, mram := mp2\<rparr>)"
        "step_ok (ms(p \<mapsto> m1)) (mram k) p m1 m2 mp2" "mmap m2 = mmap m1" by auto
    have "step_ok ms (mram k) p m m2 mp2"
      by (rule step_ok_after_mm [OF R(2) _ m(2) G(2), of 1]) (use R(4) G(3) in \<open>simp_all add: area_end_def\<close>)
    with Some R(1) G(1) show ?thesis by (auto simp: mm_write_def)
  qed
qed

section \<open>One instruction\<close>

text \<open>
  The static check: the register numbers are inside the register array (or outside the region
  table, where the library refuses them), sizes are below two gigabytes, and the calls
  \<^verbatim>\<open>memmap\<close> and \<^verbatim>\<open>mmstats\<close> are not used.
\<close>

definition safe_inst :: "inst_t \<Rightarrow> bool" where
  "safe_inst ins = (case opcode ins of
     CALC \<Rightarrow> True
   | ALLOC \<Rightarrow> unat (arg_0 ins) + 4095 < 2 ^ 31 \<and>
       (unat (ucast (arg_1 ins) :: u32) < 10 \<or> unat (ucast (arg_1 ins) :: u32) \<ge> PAGING_MAX_SYMTBL_SZ)
   | FREE \<Rightarrow> unat (ucast (arg_0 ins) :: u32) < 10
   | READ \<Rightarrow> unat (arg_2 ins) < 10
   | WRITE \<Rightarrow> True
   | SYSCALL \<Rightarrow> (ucast (arg_0 ins) :: u32) \<noteq> 17 \<and> (ucast (arg_0 ins) :: u32) \<noteq> 440)"

text \<open>What a step of process \<open>p\<close> guarantees to the whole system.\<close>

definition proc_step :: "memphy_ops \<Rightarrow> world \<Rightarrow> proc_ptr \<Rightarrow> world \<Rightarrow> bool" where
  "proc_step M w p w' \<longleftrightarrow> world_inv M w' \<and> (\<forall>q. q \<noteq> p \<longrightarrow> procs w' q = procs w q) \<and> sched w' = sched w \<and>
     set (free_fp_list (ram w')) \<subseteq> set (free_fp_list (ram w)) \<and>
     (\<forall>q b. q \<noteq> p \<and> b < 2 ^ 22 \<longrightarrow> vbyte (maps_of w') (ram w') q b = vbyte (maps_of w) (ram w) q b)"

lemma proc_step_refl: "world_inv M w \<Longrightarrow> proc_step M w p w"
  by (simp add: proc_step_def)

lemma proc_step_trans: "proc_step M w p w1 \<Longrightarrow> proc_step M w1 p w2 \<Longrightarrow> proc_step M w p w2"
  by (auto simp: proc_step_def)

lemma maps_of_commit: "maps_of (commit w p c k) = (maps_of w)(p := mm k)"
  by (intro HOL.ext) (simp add: maps_of_def commit_def)

lemma commit_step:
  assumes w: "world_inv M w" and pr: "procs w p = Some pr" "mm (krnl pr) = Some m"
    and S: "step_ok (maps_of w) (ram w) p m m' mp'" and c: "length (regs c) = 10"
    and k: "mm k = Some m'" "mram k = mp'"
  shows "proc_step M w p (commit w p c k)"
proof -
  have "world_inv M (commit w p c k)"
    using w S c k unfolding world_inv_def maps_of_commit step_ok_def
    by (auto simp: commit_def split: if_splits)
  then show ?thesis
    using S k by (simp add: proc_step_def maps_of_commit step_ok_def) (simp add: commit_def)
qed

definition same_code :: "pcb_t \<Rightarrow> pcb_t \<Rightarrow> bool" where
  "same_code c c' \<longleftrightarrow> pc c' = pc c \<and> code c' = code c \<and> prio c' = prio c"

lemma exec_safe:
  assumes w: "world_inv M w" and pr: "procs w p = Some pr" "mm (krnl pr) = Some m"
    and cap: "area_end m + 2 ^ 31 < 2 ^ 62" and safe: "safe_inst ins"
  shows "\<exists>r w' pr' m'. exec M w p ins = Some (r, w') \<and> proc_step M w p w' \<and> procs w' p = Some pr' \<and>
    same_code (pcb pr) (pcb pr') \<and> mm (krnl pr') = Some m' \<and> area_end m' < area_end m + 2 ^ 31"
proof -
  let ?k = "view w pr" and ?c = "pcb pr"
  have M: "memphy_ok M" and inv: "vm_inv (maps_of w) (mram ?k)" and nz: "0 \<notin> set (free_fp_list (mram ?k))"
    and regs: "length (regs ?c) = 10" and rg: "rg_inv m" and m: "mm ?k = Some m" and mp: "maps_of w p = Some m"
    using w pr by (simp_all add: world_inv_def view_def maps_of_def)
  have step: ?thesis
    if "exec M w p ins = Some (r, commit w p c' (?k\<lparr>mm := Some m', mram := mp'\<rparr>))"
      "step_ok (maps_of w) (mram ?k) p m m' mp'" "same_code ?c c'" "length (regs c') = 10" for r c' m' mp'
  proof -
    have "proc_step M w p (commit w p c' (?k\<lparr>mm := Some m', mram := mp'\<rparr>))"
      by (rule commit_step [OF w pr]) (use that in \<open>simp_all add: view_def\<close>)
    moreover have "area_end m' < area_end m + 2 ^ 31" using that(2) by (simp add: step_ok_def)
    ultimately show ?thesis using that(1,3) by (auto simp: commit_def)
  qed
  have mm_only: "k\<lparr>mm := Some m'\<rparr> = k\<lparr>mm := Some m', mram := mram k\<rparr>" for k :: krnl_t and m' by simp
  have same: "same_code ?c ?c" "same_code ?c (?c\<lparr>regs := rs\<rparr>)" for rs by (simp_all add: same_code_def)
  show ?thesis
  proof (cases "opcode ins")
    case CALC
    then show ?thesis
      using pr proc_step_refl [OF w] same by (auto simp: exec_def Let_def)
  next
    case ALLOC
    let ?r = "ucast (arg_1 ins) :: u32"
    have sz: "unat (arg_0 ins) + 4095 < 2 ^ 31" using safe ALLOC by (simp add: safe_inst_def)
    from mm_alloc_step [OF m rg sz cap, of M "sint ?r"] obtain r a m' where
      A: "mm_alloc M ?k 0 (sint ?r) (arg_0 ins) = Some (r, a, ?k\<lparr>mm := Some m'\<rparr>)" "pgd m' = pgd m" "rg_inv m'"
        "area_end m' \<le> area_end m + unat (arg_0 ins) + 4095" by blast
    have st: "step_ok (maps_of w) (mram ?k) p m m' (mram ?k)"
      by (rule step_ok_mm [OF inv mp A(2,3)]) (use A(4) sz in linarith)
    show ?thesis
    proof (cases "r = 0")
      case True
      have "unat ?r < 10"
      proof (rule ccontr)
        assume "\<not> unat ?r < 10"
        then have "unat ?r \<ge> PAGING_MAX_SYMTBL_SZ" using safe ALLOC by (simp add: safe_inst_def)
        then have "sint ?r < 0 \<or> sint ?r \<ge> int PAGING_MAX_SYMTBL_SZ"
          using sint_eq_unat [of ?r] by (cases "unat ?r < 2 ^ 31") (simp_all add: sint_neg_large del: of_nat_unat)
        then show False using A(1) True by (auto simp: mm_alloc_def)
      qed
      then have "exec M w p ins = Some (0, commit w p (?c\<lparr>regs := (regs ?c)[unat ?r := a]\<rparr>)
          (?k\<lparr>mm := Some m', mram := mram ?k\<rparr>))"
        using A(1) True ALLOC pr regs by (simp add: exec_def Let_def liballoc_def)
      then show ?thesis by (rule step [OF _ st same(2)]) (simp add: regs)
    next
      case False
      then have "exec M w p ins = Some (r, commit w p ?c (?k\<lparr>mm := Some m', mram := mram ?k\<rparr>))"
        using A(1) ALLOC pr by (simp add: exec_def Let_def liballoc_def)
      then show ?thesis using st same(1) regs by (intro step)
    qed
  next
    case FREE
    let ?r = "ucast (arg_0 ins) :: u32"
    from mm_free_step [OF m rg, of "sint ?r"] obtain r m' where
      A: "mm_free ?k 0 (sint ?r) = Some (r, ?k\<lparr>mm := Some m'\<rparr>)" "pgd m' = pgd m" "rg_inv m'" "mmap m' = mmap m"
      by blast
    have st: "step_ok (maps_of w) (mram ?k) p m m' (mram ?k)" "step_ok (maps_of w) (mram ?k) p m m (mram ?k)"
      by (rule step_ok_mm [OF inv mp]; use A rg in \<open>simp add: area_end_def\<close>)+
    have "unat ?r < length (regs ?c)" using safe FREE regs by (simp add: safe_inst_def)
    then have "\<exists>r m'. exec M w p ins = Some (r, commit w p ?c (?k\<lparr>mm := Some m', mram := mram ?k\<rparr>)) \<and>
        step_ok (maps_of w) (mram ?k) p m m' (mram ?k)"
      using A(1) FREE pr st krnl_same [OF m]
      by (cases "regs ?c ! unat ?r = 0") (force simp: exec_def Let_def libfree_def)+
    then show ?thesis using step same(1) regs by blast
  next
    case READ
    from mm_read_step [OF M inv m mp nz rg cap, of "sint (ucast (arg_0 ins) :: u32)" "arg_1 ins"]
    obtain r v m' mp' where A: "mm_read M ?k 0 (sint (ucast (arg_0 ins) :: u32)) (arg_1 ins) =
        Some (r, v, ?k\<lparr>mm := Some m', mram := mp'\<rparr>)" "step_ok (maps_of w) (mram ?k) p m m' mp'" by blast
    have "unat (arg_2 ins) < length (regs ?c)" using safe READ regs by (simp add: safe_inst_def)
    then have "\<exists>r c'. exec M w p ins = Some (r, commit w p c' (?k\<lparr>mm := Some m', mram := mp'\<rparr>)) \<and>
        same_code ?c c' \<and> length (regs c') = 10"
      using A(1) READ pr same regs by (auto simp: exec_def Let_def libread_def)
    then show ?thesis using step A(2) by blast
  next
    case WRITE
    from mm_write_step [OF M inv m mp nz rg cap, of "sint (ucast (arg_1 ins) :: u32)" "arg_2 ins" "ucast (arg_0 ins)"]
    obtain r m' mp' where A: "mm_write M ?k 0 (sint (ucast (arg_1 ins) :: u32)) (arg_2 ins) (ucast (arg_0 ins)) =
        Some (r, ?k\<lparr>mm := Some m', mram := mp'\<rparr>)" "step_ok (maps_of w) (mram ?k) p m m' mp'" by blast
    then have "exec M w p ins = Some (r, commit w p ?c (?k\<lparr>mm := Some m', mram := mp'\<rparr>))"
      using WRITE pr by (simp add: exec_def Let_def libwrite_def)
    then show ?thesis using step A(2) same(1) regs by blast
  next
    case SYSCALL
    then have "\<exists>r. exec M w p ins = Some (r, w)"
      using safe pr by (auto simp: exec_def Let_def libsyscall_def syscall_def safe_inst_def)
    then show ?thesis using pr proc_step_refl [OF w] same by fastforce
  qed
qed

section \<open>Whole programs\<close>

lemma run_safe:
  assumes w: "world_inv M w" and pr: "procs w p = Some pr" "mm (krnl pr) = Some m"
    and cap: "area_end m + 2 ^ 31 < 2 ^ 62"
    and pc: "pc (pcb pr) < cs_size (code (pcb pr))" "unat (pc (pcb pr)) < length (cs_text (code (pcb pr)))"
    and safe: "safe_inst (cs_text (code (pcb pr)) ! unat (pc (pcb pr)))"
  shows "\<exists>r w' pr' m'. run M w p = Some (r, w') \<and> proc_step M w p w' \<and> procs w' p = Some pr' \<and>
    pc (pcb pr') = pc (pcb pr) + 1 \<and> code (pcb pr') = code (pcb pr) \<and>
    mm (krnl pr') = Some m' \<and> area_end m' < area_end m + 2 ^ 31 \<and> prio (pcb pr') = prio (pcb pr)"
proof -
  let ?pr1 = "pr\<lparr>pcb := (pcb pr)\<lparr>pc := pc (pcb pr) + 1\<rparr>\<rparr>"
  let ?w1 = "w\<lparr>procs := (procs w)(p \<mapsto> ?pr1)\<rparr>"
  have maps: "maps_of ?w1 = maps_of w" using pr by (intro HOL.ext) (simp add: maps_of_def)
  have w1: "world_inv M ?w1"
    using w pr unfolding world_inv_def maps by (auto split: if_splits)
  then have st1: "proc_step M w p ?w1" by (simp add: proc_step_def maps)
  have pr1: "procs ?w1 p = Some ?pr1" "mm (krnl ?pr1) = Some m" using pr by simp_all
  from exec_safe [OF w1 pr1 cap safe] obtain r w' pr' m' where
    E: "exec M ?w1 p (cs_text (code (pcb pr)) ! unat (pc (pcb pr))) = Some (r, w')" "proc_step M ?w1 p w'"
      "procs w' p = Some pr'" "same_code (pcb ?pr1) (pcb pr')" "mm (krnl pr') = Some m'"
      "area_end m' < area_end m + 2 ^ 31" by blast
  have "run M w p = Some (r, w')"
    using pr pc E(1) by (auto simp: run_def fetch_def)
  moreover have "proc_step M w p w'" by (rule proc_step_trans [OF st1 E(2)])
  ultimately show ?thesis using E(3-6) by (auto simp: same_code_def)
qed

primrec run_n :: "memphy_ops \<Rightarrow> nat \<Rightarrow> world \<Rightarrow> proc_ptr \<Rightarrow> world option" where
  "run_n M 0 w p = Some w"
| "run_n M (Suc n) w p = do { (_, w') \<leftarrow> run M w p; run_n M n w' p }"

lemma run_n_safe:
  "world_inv M w \<Longrightarrow> procs w p = Some pr \<Longrightarrow> mm (krnl pr) = Some m \<Longrightarrow>
   cs_size (code (pcb pr)) = of_nat (length (cs_text (code (pcb pr)))) \<Longrightarrow>
   length (cs_text (code (pcb pr))) < 2 ^ 32 \<Longrightarrow> (\<forall>ins \<in> set (cs_text (code (pcb pr))). safe_inst ins) \<Longrightarrow>
   unat (pc (pcb pr)) + n = length (cs_text (code (pcb pr))) \<Longrightarrow> area_end m + n * 2 ^ 31 < 2 ^ 62 \<Longrightarrow>
   \<exists>w' pr'. run_n M n w p = Some w' \<and> proc_step M w p w' \<and> procs w' p = Some pr' \<and>
     pc (pcb pr') = cs_size (code (pcb pr)) \<and> code (pcb pr') = code (pcb pr)"
proof (induction n arbitrary: w pr m)
  case 0
  have "unat (of_nat (length (cs_text (code (pcb pr)))) :: u32) = length (cs_text (code (pcb pr)))"
    using "0.prems"(5) by (simp only: unat_of_nat) simp
  then have "pc (pcb pr) = cs_size (code (pcb pr))" using "0.prems" by (simp add: word_unat_eq_iff)
  then show ?case using "0.prems"(2) proc_step_refl [OF "0.prems"(1)] by auto
next
  case (Suc n)
  let ?L = "length (cs_text (code (pcb pr)))"
  have L: "unat (of_nat ?L :: u32) = ?L" using Suc.prems(5) by (simp only: unat_of_nat) simp
  have lt: "unat (pc (pcb pr)) < ?L" using Suc.prems(7) by simp
  then have pc: "pc (pcb pr) < cs_size (code (pcb pr))" using L Suc.prems(4) by (simp add: word_less_nat_alt)
  have cap: "area_end m + 2 ^ 31 < 2 ^ 62" using Suc.prems(8) by simp
  have safe: "safe_inst (cs_text (code (pcb pr)) ! unat (pc (pcb pr)))" using Suc.prems(6) lt by simp
  from run_safe [OF Suc.prems(1-3) cap pc lt safe] obtain r w1 pr1 m1 where
    R: "run M w p = Some (r, w1)" "proc_step M w p w1" "procs w1 p = Some pr1" "pc (pcb pr1) = pc (pcb pr) + 1"
      "code (pcb pr1) = code (pcb pr)" "mm (krnl pr1) = Some m1" "area_end m1 < area_end m + 2 ^ 31" by blast
  have "unat (pc (pcb pr) + 1) = unat (pc (pcb pr)) + 1"
    using lt Suc.prems(5) by (simp add: unat_word_ariths)
  then have n: "unat (pc (pcb pr1)) + n = length (cs_text (code (pcb pr1)))" using R(4,5) Suc.prems(7) by simp
  have "world_inv M w1" using R(2) by (simp add: proc_step_def)
  from Suc.IH [OF this R(3,6) _ _ _ n] Suc.prems(4-6,8) R(5,7) obtain w' pr' where
    "run_n M n w1 p = Some w'" "proc_step M w1 p w'" "procs w' p = Some pr'"
    "pc (pcb pr') = cs_size (code (pcb pr))" "code (pcb pr') = code (pcb pr)" by auto
  then show ?case using R(1) proc_step_trans [OF R(2)] by auto
qed

text \<open>
  A program of fewer than \<open>2 ^ 30\<close> instructions that all pass the static
  check, started at its first instruction in a system that satisfies the invariant and with an area
  below one gigabyte, runs to its end in exactly as many steps as it has instructions, without
  undefined behaviour and whatever the single instructions return; the invariant holds again,
  the other processes and the scheduler are unchanged, and so is every byte of their memory.
\<close>

theorem safe_program_runs:
  assumes "world_inv M w" "procs w p = Some pr" "mm (krnl pr) = Some m" "pc (pcb pr) = 0"
    and "cs_size (code (pcb pr)) = of_nat (length (cs_text (code (pcb pr))))"
    and "length (cs_text (code (pcb pr))) < 2 ^ 30" "\<forall>ins \<in> set (cs_text (code (pcb pr))). safe_inst ins"
    and "area_end m < 2 ^ 30"
  shows "\<exists>w' pr'. run_n M (length (cs_text (code (pcb pr)))) w p = Some w' \<and> world_inv M w' \<and>
    procs w' p = Some pr' \<and> pc (pcb pr') = cs_size (code (pcb pr)) \<and> run M w' p = Some (1, w') \<and>
    sched w' = sched w \<and> (\<forall>q. q \<noteq> p \<longrightarrow> procs w' q = procs w q \<and>
      (\<forall>b < 2 ^ 22. vbyte (maps_of w') (ram w') q b = vbyte (maps_of w) (ram w) q b))"
proof -
  let ?n = "length (cs_text (code (pcb pr)))"
  have "area_end m + ?n * 2 ^ 31 < 2 ^ 62" using assms(6,8) by simp
  moreover have "?n < 2 ^ 32" using assms(6) by simp
  moreover have "unat (pc (pcb pr)) + ?n = ?n" by (simp add: assms(4))
  ultimately obtain w' pr' where R: "run_n M ?n w p = Some w'" "proc_step M w p w'" "procs w' p = Some pr'"
    "pc (pcb pr') = cs_size (code (pcb pr))" "code (pcb pr') = code (pcb pr)"
    using run_n_safe [OF assms(1-3,5)] assms(7) by blast
  moreover have "run M w' p = Some (1, w')" using R(3-5) by (simp add: run_def)
  ultimately show ?thesis by (auto simp: proc_step_def)
qed

definition demo_inst :: "ins_opcode_t \<Rightarrow> arg_t \<Rightarrow> arg_t \<Rightarrow> arg_t \<Rightarrow> inst_t" where
  "demo_inst c a b d = \<lparr>opcode = c, arg_0 = a, arg_1 = b, arg_2 = d, arg_3 = 0\<rparr>"

definition demo_prog :: "inst_t list" where
  "demo_prog = [demo_inst ALLOC 300 0 0, demo_inst WRITE 100 0 20, demo_inst READ 0 20 1,
     demo_inst FREE 0 0 0, demo_inst CALC 0 0 0, demo_inst SYSCALL 0 0 0]"

definition demo_world :: "inst_t list \<Rightarrow> world" where
  "demo_world is = \<lparr>sched = zero_sched,
     procs = [0 \<mapsto> \<lparr>pcb = demo_proc\<lparr>code := \<lparr>cs_text = is, cs_size = of_nat (length is)\<rparr>\<rparr>, krnl = demo_krnl\<rparr>,
              1 \<mapsto> \<lparr>pcb = demo_proc, krnl = demo_krnl\<rparr>],
     ram = demo_ram, swp = demo_ram\<rparr>"

lemma demo_mm_facts: "rg_inv demo_mm" "area_end demo_mm = 2 ^ 20" "sbrk (mmap demo_mm ! 0) = 4096"
  "r < 30 \<Longrightarrow> \<not> rg_used (symrgtbl demo_mm ! r)" "length (symrgtbl demo_mm) = 30"
  using rg_inv_init [of "[]"]
  by (simp_all add: demo_mm_def area_end_def init_mm_def Let_def PAGING_PAGESZ_def rg_used_def PAGING_MAX_SYMTBL_SZ_def)

lemma demo_world_inv: "world_inv list_ops (demo_world is)"
proof -
  have "maps_of (demo_world is) = two_maps"
    by (intro HOL.ext) (simp add: maps_of_def demo_world_def two_maps_def demo_maps_def)
  then show ?thesis
    using list_ops_ok two_maps_inv demo_mm_facts(1)
    by (auto simp: world_inv_def demo_world_def demo_proc_def split: if_splits)
qed

theorem safe_program_runs_witness:
  "world_inv list_ops (demo_world demo_prog) \<and> list_all safe_inst demo_prog \<and>
   (\<exists>w' pr'. run_n list_ops 6 (demo_world demo_prog) 0 = Some w' \<and> procs w' 0 = Some pr' \<and> pc (pcb pr') = 6 \<and>
      run list_ops w' 0 = Some (1, w') \<and> procs w' 1 = procs (demo_world demo_prog) 1)"
proof -
  let ?pr = "\<lparr>pcb = demo_proc\<lparr>code := \<lparr>cs_text = demo_prog, cs_size = of_nat (length demo_prog)\<rparr>\<rparr>, krnl = demo_krnl\<rparr>"
  have safe: "\<forall>ins \<in> set demo_prog. safe_inst ins"
    by (simp add: demo_prog_def demo_inst_def safe_inst_def PAGING_MAX_SYMTBL_SZ_def)
  have len: "length demo_prog = 6" by (simp add: demo_prog_def)
  have pr: "procs (demo_world demo_prog) 0 = Some ?pr" by (simp add: demo_world_def)
  from safe_program_runs [OF demo_world_inv pr, of demo_mm] safe len demo_mm_facts(2)
  show ?thesis using demo_world_inv by (auto simp: demo_proc_def list_all_iff)
qed

section \<open>A program that stores and loads a byte\<close>

lemma view_commit: "view (commit w p c k) \<lparr>pcb = c', krnl = k\<rparr> = k"
  by (simp add: view_def commit_def)

definition store_load :: "arg_t \<Rightarrow> arg_t \<Rightarrow> arg_t \<Rightarrow> arg_t \<Rightarrow> arg_t \<Rightarrow> inst_t list" where
  "store_load sz r v off d =
     [\<lparr>opcode = ALLOC, arg_0 = sz, arg_1 = r, arg_2 = 0, arg_3 = 0\<rparr>,
      \<lparr>opcode = WRITE, arg_0 = v, arg_1 = r, arg_2 = off, arg_3 = 0\<rparr>,
      \<lparr>opcode = READ, arg_0 = r, arg_1 = off, arg_2 = d, arg_3 = 0\<rparr>]"

lemma run_fetch:
  assumes "procs w p = Some pr" "unat (pc (pcb pr)) = n" "n < length (cs_text (code (pcb pr)))"
    "pc (pcb pr) < cs_size (code (pcb pr))"
  shows "run M w p = exec M (w\<lparr>procs := (procs w)(p \<mapsto> pr\<lparr>pcb := (pcb pr)\<lparr>pc := pc (pcb pr) + 1\<rparr>\<rparr>)\<rparr>) p
    (cs_text (code (pcb pr)) ! n)"
  using assms by (auto simp: run_def fetch_def)

lemma commit_again: "commit (commit w p c k) p c' k' = commit w p c' k'"
  by (simp add: commit_def)

lemma commit_pcb:
  "(commit w p c k)\<lparr>procs := (procs (commit w p c k))(p \<mapsto> \<lparr>pcb = c', krnl = k\<rparr>)\<rparr> = commit w p c' k"
  by (simp add: commit_def)

lemma run_commit:
  assumes "unat (pc c) < length (cs_text (code c))" "pc c < cs_size (code c)"
  shows "run M (commit w p c k) p = exec M (commit w p (c\<lparr>pc := pc c + 1\<rparr>) k) p (cs_text (code c) ! unat (pc c))"
proof -
  have "procs (commit w p c k) p = Some \<lparr>pcb = c, krnl = k\<rparr>" by (simp add: commit_def)
  from run_fetch [OF this refl, of M] assms show ?thesis by (simp add: commit_pcb)
qed

lemma exec_commit_write:
  assumes "opcode ins = WRITE" "libwrite M k (ucast (arg_0 ins)) (ucast (arg_1 ins)) (arg_2 ins) = Some (r, k')"
  shows "exec M (commit w p c k) p ins = Some (r, commit w p c k')"
proof -
  have "procs (commit w p c k) p = Some \<lparr>pcb = c, krnl = k\<rparr>" by (simp add: commit_def)
  then show ?thesis using assms by (simp add: exec_def Let_def view_commit commit_again)
qed

lemma exec_commit_read:
  assumes "opcode ins = READ" "libread M k (ucast (arg_0 ins)) (arg_1 ins) 0 = Some (0, v, k')"
    "unat (arg_2 ins) < length (regs c)"
  shows "exec M (commit w p c k) p ins = Some (0, commit w p (c\<lparr>regs := (regs c)[unat (arg_2 ins) := ucast v]\<rparr>) k')"
proof -
  have "procs (commit w p c k) p = Some \<lparr>pcb = c, krnl = k\<rparr>" by (simp add: commit_def)
  then show ?thesis using assms by (simp add: exec_def Let_def view_commit commit_again)
qed

text \<open>
  The program \<^verbatim>\<open>alloc sz r; write v r off; read r off d\<close>, run for
  three steps by a process whose region \<open>r\<close> is free, leaves the address of the region in
  register \<open>r\<close> and the low byte of \<open>v\<close>, extended with its sign to 32 bits, in register \<open>d\<close>.
\<close>

theorem program_stores_and_loads:
  assumes w: "world_inv M w" and pr: "procs w p = Some pr" "mm (krnl pr) = Some m"
    and free: "5 \<le> length (free_fp_list (ram w))" "area_end m + 2 ^ 31 < 2 ^ 62"
    and cd: "code (pcb pr) = \<lparr>cs_text = store_load sz r v off d, cs_size = 3\<rparr>" "pc (pcb pr) = 0"
    and args: "unat r < 10" "\<not> rg_used (symrgtbl m ! unat r)" "off < sz" "unat sz + 4095 < 2 ^ 31" "unat d < 10"
  shows "\<exists>w' pr'. run_n M 3 w p = Some w' \<and> procs w' p = Some pr' \<and> pc (pcb pr') = 3 \<and>
    regs (pcb pr') = (regs (pcb pr))[unat r := sbrk (mmap m ! 0), unat d := ucast (scast (ucast v :: byte) :: u32)]"
proof -
  let ?k = "view w pr" and ?r = "ucast r :: u32" and ?b = "ucast v :: byte"
  let ?m1 = "alloc_mm m (unat r) sz"
  let ?k1 = "?k\<lparr>mm := Some ?m1\<rparr>"
  let ?c1 = "(pcb pr)\<lparr>pc := 1, regs := (regs (pcb pr))[unat r := sbrk (mmap m ! 0)]\<rparr>"
  have rn: "unat ?r = unat r"
    using args(1) by (simp only: unsigned_ucast_eq) (simp add: take_bit_nat_eq_self)
  then have r30: "unat ?r < PAGING_MAX_SYMTBL_SZ" using args(1) by (simp add: PAGING_MAX_SYMTBL_SZ_def)
  have M: "memphy_ok M" and inv: "vm_inv (maps_of w) (ram w)" and nz: "0 \<notin> set (free_fp_list (ram w))"
    and regs: "length (regs (pcb pr)) = 10" and rg: "rg_inv m" and mp: "maps_of w p = Some m"
    and k: "mm ?k = Some m" "mram ?k = ram w"
    using w pr by (simp_all add: world_inv_def view_def maps_of_def)
  have fits: "alloc_fits m sz" using free(2) args(4) by (simp add: alloc_fits_def area_end_def)
  let ?w1 = "w\<lparr>procs := (procs w)(p \<mapsto> pr\<lparr>pcb := (pcb pr)\<lparr>pc := 1\<rparr>\<rparr>)\<rparr>"
  have al: "mm_alloc M ?k 0 (sint ?r) sz = Some (0, sbrk (mmap m ! 0), ?k1)"
    using mm_alloc_eq [OF k(1) rg sint_region(1,2) [OF r30], of sz M] args(2,4) by (simp add: sint_region(3) [OF r30] rn)
  have v1: "view ?w1 (pr\<lparr>pcb := (pcb pr)\<lparr>pc := 1\<rparr>\<rparr>) = ?k" by (simp add: view_def)
  have run1: "run M w p = Some (0, commit ?w1 p ?c1 ?k1)"
    using run_fetch [OF pr(1) refl, of M] cd al args(1) regs
    by (simp add: store_load_def exec_def Let_def v1 liballoc_def rn)
  have ms: "(maps_of w)(p \<mapsto> m) = maps_of w" using mp by auto
  have "pgd ?m1 = pgd m" by (simp add: alloc_mm_def Let_def)
  then have P: "vm_inv ((maps_of w)(p \<mapsto> ?m1)) (mram ?k1)" "mm ?k1 = Some ?m1" "((maps_of w)(p \<mapsto> ?m1)) p = Some ?m1"
      "0 \<notin> set (free_fp_list (mram ?k1))" "5 \<le> length (free_fp_list (mram ?k1))"
    using inv vm_inv_pgd [of ?m1 m "maps_of w" p "ram w"] nz free(1) by (simp_all add: k ms)
  have "length (symrgtbl m) = PAGING_MAX_SYMTBL_SZ" using rg by (simp add: rg_inv_def)
  then have R: "symrgtbl ?m1 ! unat ?r = \<lparr>rg_start = sbrk (mmap m ! 0), rg_end = sbrk (mmap m ! 0) + sz\<rparr>"
    using r30 by (simp add: alloc_mm_def Let_def rn)
  have "rg_start (symrgtbl ?m1 ! unat ?r) < rg_end (symrgtbl ?m1 ! unat ?r)"
    using alloc_mm_nat(1) [OF rg fits] args(3) by (simp add: R word_less_nat_alt)
  moreover have "off < rg_end (symrgtbl ?m1 ! unat ?r) - rg_start (symrgtbl ?m1 ! unat ?r)" using args(3) by (simp add: R)
  ultimately obtain k2 k3 where L: "libwrite M ?k1 ?b ?r off = Some (0, k2)"
      "libread M k2 ?r off 0 = Some (0, scast ?b, k3)"
    using write_read_region [of M "(maps_of w)(p \<mapsto> ?m1)", OF M P r30, of off ?b 0] by blast
  let ?c2 = "?c1\<lparr>pc := 2\<rparr>"
  have run2: "run M (commit ?w1 p ?c1 ?k1) p = Some (0, commit ?w1 p ?c2 k2)"
    using run_commit [of ?c1 M ?w1 p ?k1] exec_commit_write [of _ M ?k1 0 k2 ?w1 p ?c2] L(1) cd
    by (simp add: store_load_def)
  let ?c3 = "?c2\<lparr>pc := 3, regs := (regs ?c2)[unat d := ucast (scast ?b :: u32)]\<rparr>"
  have run3: "run M (commit ?w1 p ?c2 k2) p = Some (0, commit ?w1 p ?c3 k3)"
    using run_commit [of ?c2 M ?w1 p k2] exec_commit_read [of _ M k2 "scast ?b" k3 "?c2\<lparr>pc := 3\<rparr>" ?w1 p] L(2) cd args(5) regs
    by (simp add: store_load_def)
  have "run_n M 3 w p = Some (commit ?w1 p ?c3 k3)"
    using run1 run2 run3 by (simp add: numeral_3_eq_3)
  then show ?thesis by (intro exI [of _ "commit ?w1 p ?c3 k3"] exI [of _ "\<lparr>pcb = ?c3, krnl = k3\<rparr>"]) (simp add: commit_def)
qed

theorem program_stores_and_loads_witness:
  "world_inv list_ops (demo_world (store_load 300 0 200 20 1)) \<and>
   (\<exists>w' pr'. run_n list_ops 3 (demo_world (store_load 300 0 200 20 1)) 0 = Some w' \<and> procs w' 0 = Some pr' \<and>
      regs (pcb pr') ! 0 = 4096 \<and> regs (pcb pr') ! 1 = 0xFFFFFFC8)"
proof -
  let ?is = "store_load 300 0 200 20 1"
  let ?pr = "\<lparr>pcb = demo_proc\<lparr>code := \<lparr>cs_text = ?is, cs_size = of_nat (length ?is)\<rparr>\<rparr>, krnl = demo_krnl\<rparr>"
  have pr: "procs (demo_world ?is) 0 = Some ?pr" by (simp add: demo_world_def)
  have "\<exists>w' pr'. run_n list_ops 3 (demo_world ?is) 0 = Some w' \<and> procs w' 0 = Some pr' \<and> pc (pcb pr') = 3 \<and>
    regs (pcb pr') = (regs (pcb ?pr))[unat (0::arg_t) := sbrk (mmap demo_mm ! 0),
      unat (1::arg_t) := ucast (scast (ucast (200::arg_t) :: byte) :: u32)]"
    by (rule program_stores_and_loads [OF demo_world_inv pr, where sz = 300 and off = 20])
      (simp_all add: demo_mm_facts, simp_all add: demo_world_def demo_proc_def store_load_def)
  then show ?thesis using demo_world_inv by (auto simp: demo_proc_def demo_mm_facts)
qed

end
