(* ===== verification/SyscallProps.thy ===== *)
theory SyscallProps
  imports CpuSafety
begin

unbundle bit_operations_syntax

text \<open>
  What the system calls do on each branch: the operations of \<^verbatim>\<open>memmap\<close>, the calls that refuse, and the
  walk of \<^verbatim>\<open>mmstats\<close> over the page directory.
\<close>

section \<open>Finding a process\<close>

lemma find_pid_none:
  "\<forall>e \<in> set es. \<exists>p pr. e = Some p \<and> ps p = Some pr \<and> pid (pcb pr) \<noteq> n \<Longrightarrow> find_pid skip ps es n = Some None"
  by (induction skip ps es n rule: find_pid.induct) auto

lemma find_pid_first:
  "\<forall>e \<in> set es. \<exists>p pr. e = Some p \<and> ps p = Some pr \<and> pid (pcb pr) \<noteq> n \<Longrightarrow> ps c = Some pr \<Longrightarrow> pid (pcb pr) = n \<Longrightarrow>
   find_pid skip ps (es @ Some c # fs) n = Some (Some c)"
  by (induction es) auto

lemma find_pid_unique:
  assumes "\<forall>e \<in> set es. \<exists>p pr. e = Some p \<and> ps p = Some pr" "Some c \<in> set es" "ps c = Some pr"
    and "\<forall>p pr'. Some p \<in> set es \<and> ps p = Some pr' \<and> pid (pcb pr') = pid (pcb pr) \<longrightarrow> p = c"
  shows "find_pid skip ps es (pid (pcb pr)) = Some (Some c)"
proof -
  obtain xs ys where es: "es = xs @ Some c # ys" "Some c \<notin> set xs" using split_list_first [OF assms(2)] by blast
  have "\<forall>e \<in> set xs. \<exists>p pr'. e = Some p \<and> ps p = Some pr' \<and> pid (pcb pr') \<noteq> pid (pcb pr)"
  proof
    fix e assume e: "e \<in> set xs"
    then have "e \<in> set es" using es(1) by simp
    with assms(1) obtain p pr' where "e = Some p" "ps p = Some pr'" by blast
    moreover from this have "pid (pcb pr') \<noteq> pid (pcb pr)" using assms(4) e es by auto
    ultimately show "\<exists>p pr'. e = Some p \<and> ps p = Some pr' \<and> pid (pcb pr') \<noteq> pid (pcb pr)" by blast
  qed
  then show ?thesis unfolding es(1) by (rule find_pid_first [where c = c]) (simp_all add: assms(3))
qed

text \<open>The running list of a system: its entries refer to processes, with different numbers.\<close>

definition running_ok :: "world \<Rightarrow> bool" where
  "running_ok w \<longleftrightarrow> queue_inv (running_list (sched w)) \<and>
     (\<forall>p \<in> set (queue_list (running_list (sched w))). procs w p \<noteq> None) \<and>
     (\<forall>p q pr qr. procs w p = Some pr \<and> procs w q = Some qr \<and> pid (pcb pr) = pid (pcb qr) \<longrightarrow> p = q)"

lemma queue_entries: "queue_inv q \<Longrightarrow> take (q_size q) (q_proc q) = map Some (queue_list q)"
proof -
  assume "queue_inv q"
  then have "None \<notin> set (take (q_size q) (q_proc q))" by (simp add: queue_inv_def)
  moreover have "None \<notin> set es \<Longrightarrow> es = map Some (map the es)" for es :: "proc_ptr option list"
    by (induction es) auto
  ultimately show ?thesis unfolding queue_list_def by blast
qed

lemma find_running:
  assumes "running_ok w" "procs w c = Some pr" "c \<in> set (queue_list (running_list (sched w)))"
  shows "find_pid skip (procs w) (take (q_size (running_list (sched w))) (q_proc (running_list (sched w)))) (pid (pcb pr))
    = Some (Some c)"
proof -
  have q: "queue_inv (running_list (sched w))" using assms(1) by (simp add: running_ok_def)
  show ?thesis
    unfolding queue_entries [OF q]
  proof (rule find_pid_unique [where c = c])
    show "\<forall>e \<in> set (map Some (queue_list (running_list (sched w)))). \<exists>p pr. e = Some p \<and> procs w p = Some pr"
      using assms(1) by (auto simp: running_ok_def)
    show "Some c \<in> set (map Some (queue_list (running_list (sched w))))" using assms(3) by simp
    show "procs w c = Some pr" by fact
    show "\<forall>p pr'. Some p \<in> set (map Some (queue_list (running_list (sched w)))) \<and> procs w p = Some pr' \<and>
        pid (pcb pr') = pid (pcb pr) \<longrightarrow> p = c"
      using assms(1,2) unfolding running_ok_def by blast
  qed
qed

lemma find_not_running:
  assumes "running_ok w" "\<forall>p \<in> set (queue_list (running_list (sched w))). \<forall>pr. procs w p = Some pr \<longrightarrow> pid (pcb pr) \<noteq> n"
  shows "find_pid skip (procs w) (take (q_size (running_list (sched w))) (q_proc (running_list (sched w)))) n = Some None"
proof -
  have q: "queue_inv (running_list (sched w))" using assms(1) by (simp add: running_ok_def)
  show ?thesis
    unfolding queue_entries [OF q] by (rule find_pid_none) (use assms in \<open>auto simp: running_ok_def\<close>)
qed

section \<open>A system with a running process\<close>

definition running_krnl :: krnl_t where
  "running_krnl = demo_krnl\<lparr>k_running_list := Some Running_list\<rparr>"

definition running_world :: world where
  "running_world = \<lparr>sched = zero_sched\<lparr>running_list := enq empty_queue 0\<rparr>,
     procs = [0 \<mapsto> \<lparr>pcb = demo_proc, krnl = running_krnl\<rparr>, 1 \<mapsto> \<lparr>pcb = demo_proc\<lparr>pid := 2\<rparr>, krnl = running_krnl\<rparr>],
     ram = demo_ram, swp = demo_ram\<rparr>"

lemma running_world_list: "queue_list (running_list (sched running_world)) = [0]"
  by (simp add: running_world_def queue_simps MAX_QUEUE_SIZE_def)

lemma running_world_ok: "running_ok running_world"
  by (simp add: running_ok_def running_world_list) (auto simp: running_world_def demo_proc_def split: if_splits)

lemma running_world_fields [simp]:
  "procs running_world 0 = Some \<lparr>pcb = demo_proc, krnl = running_krnl\<rparr>" "ram running_world = demo_ram" "swp running_world = demo_ram"
  "k_running_list running_krnl = Some Running_list" "mm running_krnl = Some demo_mm" "pid demo_proc = 1"
  by (simp_all add: running_world_def running_krnl_def demo_proc_def)

section \<open>The calls on each branch\<close>

lemma count_used_outside: "i \<le> length es \<Longrightarrow> length es < i + n \<Longrightarrow> count_used es i n = None"
  by (induction es i n rule: count_used.induct) (auto simp: bind_eq_None_conv)

text \<open>
  C36 (mmstats_reads_outside): for a running process with an initialised memory map, \<^verbatim>\<open>sys_mmstats\<close>
  reads 1024 entries of the page directory, which has 512, so its behaviour is undefined.
\<close>

theorem mmstats_reads_outside:
  assumes "running_ok w" "procs w c = Some pr" "c \<in> set (queue_list (running_list (sched w)))"
    and "mm (krnl pr) = Some m" "length (pgd m) = 512"
    and "k_running_list k = Some Running_list" "ucast (sc_a1 rg) = pid (pcb pr)"
  shows "sys_mmstats w k n rg = None"
  using find_running [OF assms(1-3), of True] count_used_outside [of 0 "pgd m" 1024] assms(2,4-7)
  by (simp add: sys_mmstats_def queue_of_def)

theorem mmstats_reads_outside_witness:
  "sys_mmstats running_world running_krnl 1 \<lparr>sc_a1 = 1, sc_a2 = 0, sc_a3 = 0\<rparr> = None"
  by (rule mmstats_reads_outside [OF running_world_ok, of 0 "\<lparr>pcb = demo_proc, krnl = running_krnl\<rparr>" demo_mm])
    (simp_all add: running_world_list demo_mm_def init_mm_def Let_def)





end
