(* ===== verification/OsSafety.thy ===== *)
theory OsSafety
  imports Os SyscallProps
begin

text \<open>
  What holds in every interleaving of the CPUs, the loader and the timer: a process is in one place
  at a time, so no process runs on two CPUs; a system of checked programs never reaches undefined
  behaviour; the threads use the timer as its protocol demands. The contract between the scheduler
  and the threads is the locale \<open>process_pool\<close>.
\<close>

section \<open>Processes in one place\<close>

definition unique :: "'a multiset \<Rightarrow> bool" where
  "unique A \<longleftrightarrow> (\<forall>x. count A x \<le> 1)"

lemma unique_mono: "unique B \<Longrightarrow> A \<subseteq># B \<Longrightarrow> unique A"
  unfolding unique_def by (meson le_trans mset_subset_eq_count)

lemma unique_add: "unique (add_mset p A) \<Longrightarrow> p \<notin># A"
  unfolding unique_def by (drule spec [of _ p]) (simp add: not_in_iff)

lemma unique_insert: "unique A \<Longrightarrow> p \<notin># A \<Longrightarrow> unique (add_mset p A)"
  by (simp add: unique_def not_in_iff)

primrec opt_mset :: "'a option \<Rightarrow> 'a multiset" where
  "opt_mset None = {#}"
| "opt_mset (Some x) = {#x#}"

locale process_pool =
  fixes invar :: "'s \<Rightarrow> bool"
    and ready :: "'s \<Rightarrow> proc_ptr multiset"
    and get :: "'s \<Rightarrow> proc_ptr option \<times> 's"
    and put :: "'s \<Rightarrow> proc_ptr option \<Rightarrow> u32 \<Rightarrow> 's"
    and add :: "'s \<Rightarrow> proc_ptr \<Rightarrow> u32 \<Rightarrow> 's"
  assumes invar_get: "invar s \<Longrightarrow> invar (snd (get s))"
    and invar_put: "invar s \<Longrightarrow> invar (put s (Some p) pr)"
    and invar_add: "invar s \<Longrightarrow> invar (add s p pr)"
    and ready_get: "invar s \<Longrightarrow> ready s = ready (snd (get s)) + opt_mset (fst (get s))"
    and ready_put: "invar s \<Longrightarrow> ready (put s (Some p) pr) \<subseteq># add_mset p (ready s)"
    and ready_add: "invar s \<Longrightarrow> ready (add s p pr) \<subseteq># add_mset p (ready s)"
begin

text \<open>
  The three moves of a thread: it takes what the scheduler hands out, gives back what it holds, or
  brings in something new. None of them puts a process in two places.
\<close>

lemma take_owned: "invar s \<Longrightarrow> get s = (po, s') \<Longrightarrow> ready s' + opt_mset po = ready s"
  using ready_get [of s] by simp

lemma give_owned: "invar s \<Longrightarrow> ready (put s (Some p) pr) \<subseteq># ready s + opt_mset (Some p)"
  using ready_put [of s p pr] by simp

lemma bring_owned:
  assumes "invar s" "unique (ready s + A)" "p \<notin># ready s + A"
  shows "unique (ready (add s p pr) + A)"
  by (rule unique_mono [OF unique_insert [OF assms(2,3)]]) (use ready_add [OF assms(1)] in \<open>simp flip: union_mset_add_mset_left\<close>)

end

definition ready_procs :: "sched_t \<Rightarrow> proc_ptr multiset" where
  "ready_procs s = sum_list (map (\<lambda>q. mset (queue_list q)) (mlq_ready_queue s))"

lemma ready_procs_enqueue:
  assumes "sched_inv s"
  shows "ready_procs (enqueue_by_prio s p pr) \<subseteq># add_mset p (ready_procs s)"
proof (cases "unat pr < MAX_PRIO")
  case True
  let ?q = "mlq_ready_queue s ! unat pr"
  have q: "queue_inv ?q" "unat pr < length (mlq_ready_queue s)"
    using assms True by (simp_all add: sched_inv_mlq) (simp add: sched_inv_def)
  have "mset (queue_list (enq ?q p)) \<subseteq># add_mset p (mset (queue_list ?q))"
    using q(1) by (simp add: queue_simps)
  moreover have "ready_procs (enqueue_by_prio s p pr) + mset (queue_list ?q) = ready_procs s + mset (queue_list (enq ?q p))"
    using sum_list_map_update [OF q(2), of "\<lambda>q. mset (queue_list q)" "enq ?q p"] True
    by (simp add: ready_procs_def enqueue_by_prio_def ac_simps)
  ultimately have "ready_procs (enqueue_by_prio s p pr) + mset (queue_list ?q) \<subseteq># add_mset p (ready_procs s) + mset (queue_list ?q)"
    by (metis mset_subset_eq_mono_add_left_cancel union_mset_add_mset_left union_mset_add_mset_right)
  then show ?thesis by simp
qed (simp add: enqueue_by_prio_def)

lemma ready_procs_get:
  assumes "sched_inv s"
  shows "ready_procs s = ready_procs (snd (get_proc s)) + opt_mset (fst (get_proc s))"
  using assms
proof (cases rule: get_mlq_proc_cases)
  case idle
  then show ?thesis by (simp add: get_proc_def ready_procs_def)
next
  case (run k q)
  have "length (mlq_ready_queue s) = MAX_PRIO" using assms by (simp add: sched_inv_def)
  then show ?thesis
    using run sum_mset_update [of k "mlq_ready_queue s" "\<lambda>q. mset (queue_list q)" q
        "deq_rest (mlq_ready_queue s ! k)"]
    by (simp add: get_proc_def ready_procs_def)
qed

lemma ready_procs_running [simp]: "ready_procs (s\<lparr>running_list := r\<rparr>) = ready_procs s"
  by (simp add: ready_procs_def)

interpretation pool: process_pool sched_inv ready_procs get_proc put_proc enqueue_by_prio
proof
  fix s p pr assume s: "sched_inv s"
  show "sched_inv (snd (get_proc s))" "sched_inv (put_proc s (Some p) pr)"
    using s mlq.invar_get mlq.invar_put by blast+
  show "sched_inv (enqueue_by_prio s p pr)" using s by (rule sched_inv_enqueue_by_prio)
  show "ready_procs s = ready_procs (snd (get_proc s)) + opt_mset (fst (get_proc s))" using s by (rule ready_procs_get)
  show "ready_procs (enqueue_by_prio s p pr) \<subseteq># add_mset p (ready_procs s)" using s by (rule ready_procs_enqueue)
  have "sched_inv (s\<lparr>running_list := the (snd (purgequeue (Some (running_list s)) (Some p)))\<rparr>)"
    using s by (intro sched_inv_upd_running) (simp_all add: sched_inv_running)
  from ready_procs_enqueue [OF this, of p pr] show "ready_procs (put_proc s (Some p) pr) \<subseteq># add_mset p (ready_procs s)"
    by (simp add: put_proc_def put_mlq_proc_def)
qed

section \<open>The invariant of the system\<close>

text \<open>
  A program that passed the check, a process that may be dispatched, and one the loader is still
  preparing. The address space of a process can grow by less than two gigabytes per instruction.
\<close>

definition prog_ok :: "pcb_t \<Rightarrow> bool" where
  "prog_ok c \<longleftrightarrow> cs_size (code c) = of_nat (length (cs_text (code c))) \<and> length (cs_text (code c)) < 2 ^ 30 \<and>
     (\<forall>ins \<in> set (cs_text (code c)). safe_inst ins) \<and> unat (pc c) \<le> length (cs_text (code c))"

definition good_proc :: "proc_t option \<Rightarrow> bool" where
  "good_proc po = (case po of
     None \<Rightarrow> False
   | Some pr \<Rightarrow> prog_ok (pcb pr) \<and>
       (case mm (krnl pr) of
          None \<Rightarrow> False
        | Some m \<Rightarrow> area_end m + (length (cs_text (code (pcb pr))) - unat (pc (pcb pr))) * 2 ^ 31 < 2 ^ 62))"

definition new_proc :: "proc_t option \<Rightarrow> bool" where
  "new_proc po = (case po of None \<Rightarrow> False | Some pr \<Rightarrow> prog_ok (pcb pr) \<and> pc (pcb pr) = 0 \<and> mm (krnl pr) = None)"

definition cpu_held :: "cpu_t list \<Rightarrow> proc_ptr multiset" where
  "cpu_held cs = sum_list (map (\<lambda>c. opt_mset (c_proc c)) cs)"

text \<open>A CPU about to run an instruction has a process, and one about to fetch a process has none.\<close>

definition cpu_ok :: "cpu_t \<Rightarrow> bool" where
  "cpu_ok c = (case c_pc c of Run_inst \<Rightarrow> c_proc c \<noteq> None | Refetch _ \<Rightarrow> c_proc c = None | _ \<Rightarrow> True)"

definition active :: "os_t \<Rightarrow> proc_ptr multiset" where
  "active s = ready_procs (sched (wld s)) + cpu_held (cpus s)"

definition os_inv :: "os_env \<Rightarrow> os_t \<Rightarrow> bool" where
  "os_inv en s \<longleftrightarrow> world_inv (e_ops en) (wld s) \<and> sched_inv (sched (wld s)) \<and>
     unique (active s + opt_mset (l_proc s)) \<and>
     (\<forall>p \<in># active s. good_proc (procs (wld s) p)) \<and> (\<forall>p \<in># opt_mset (l_proc s). new_proc (procs (wld s) p)) \<and>
     (\<forall>c \<in> set (cpus s). cpu_ok c) \<and>
     (l_proc s = None \<longleftrightarrow> l_pc s \<noteq> L_wait \<and> l_pc s \<noteq> L_wait_sleep)"

lemma cpu_held_update:
  "i < length cs \<Longrightarrow> cpu_held (cs[i := c]) + opt_mset (c_proc (cs ! i)) = cpu_held cs + opt_mset (c_proc c)"
  unfolding cpu_held_def by (rule sum_list_map_update)

lemma cpu_held_nth: "i < length cs \<Longrightarrow> c_proc (cs ! i) = Some p \<Longrightarrow> p \<in># cpu_held cs"
  by (force simp: cpu_held_def intro!: bexI [of _ "cs ! i"])

lemma cpu_held_two:
  "i < j \<Longrightarrow> j < length cs \<Longrightarrow> c_proc (cs ! i) = Some p \<Longrightarrow> c_proc (cs ! j) = Some p \<Longrightarrow> 2 \<le> count (cpu_held cs) p"
proof (induction cs arbitrary: i j)
  case (Cons c cs)
  show ?case
  proof (cases i)
    case 0
    then have "p \<in># cpu_held cs" using Cons.prems cpu_held_nth [of "j - 1" cs p] by auto
    then have "0 < count (cpu_held cs) p" by simp
    moreover have "count (cpu_held (c # cs)) p = Suc (count (cpu_held cs) p)" using Cons.prems 0 by (simp add: cpu_held_def)
    ultimately show ?thesis by linarith
  next
    case (Suc k)
    then have "2 \<le> count (cpu_held cs) p" using Cons.prems by (intro Cons.IH [of k "j - 1"]) auto
    then show ?thesis by (simp add: cpu_held_def)
  qed
qed simp

lemma active_set_cpu:
  assumes "i < length (cpus s)" "cpus s' = (cpus s)[i := c]"
    "ready_procs (sched (wld s')) + opt_mset (c_proc c) \<subseteq># ready_procs (sched (wld s)) + opt_mset (c_proc (cpus s ! i))"
  shows "active s' \<subseteq># active s"
proof -
  have "active s' + opt_mset (c_proc (cpus s ! i)) = (ready_procs (sched (wld s')) + opt_mset (c_proc c)) + cpu_held (cpus s)"
    using cpu_held_update [OF assms(1), of c] by (simp add: active_def assms(2) ac_simps)
  also have "\<dots> \<subseteq># (ready_procs (sched (wld s)) + opt_mset (c_proc (cpus s ! i))) + cpu_held (cpus s)"
    using assms(3) by simp
  finally have "active s' + opt_mset (c_proc (cpus s ! i)) \<subseteq># active s + opt_mset (c_proc (cpus s ! i))"
    by (simp add: active_def ac_simps)
  then show ?thesis by simp
qed

text \<open>A process on a CPU is nowhere else.\<close>

lemma held_alone:
  assumes inv: "os_inv en s" and i: "i < length (cpus s)" "c_proc (cpus s ! i) = Some p"
  shows "p \<notin># ready_procs (sched (wld s))" "l_proc s \<noteq> Some p"
    "\<And>j. j < length (cpus s) \<Longrightarrow> j \<noteq> i \<Longrightarrow> c_proc (cpus s ! j) \<noteq> Some p"
proof -
  from inv have U: "count (ready_procs (sched (wld s))) p + count (cpu_held (cpus s)) p + count (opt_mset (l_proc s)) p \<le> 1"
    by (simp add: os_inv_def active_def unique_def)
  have "p \<in># cpu_held (cpus s)" by (rule cpu_held_nth [OF i])
  then have "0 < count (cpu_held (cpus s)) p" by simp
  with U have c: "count (ready_procs (sched (wld s))) p = 0" "count (opt_mset (l_proc s)) p = 0" "count (cpu_held (cpus s)) p < 2"
    by linarith+
  from c(1,2) show "p \<notin># ready_procs (sched (wld s))" "l_proc s \<noteq> Some p" by (auto simp: not_in_iff)
  show "c_proc (cpus s ! j) \<noteq> Some p" if "j < length (cpus s)" "j \<noteq> i" for j
    using cpu_held_two [of i j "cpus s" p] cpu_held_two [of j i "cpus s" p] that i c(3) by (cases "i < j") auto
qed

text \<open>A step of CPU \<open>i\<close> keeps the invariant if it moves processes as the pool allows.\<close>

lemma os_inv_cpu:
  assumes inv: "os_inv en s" and i: "i < length (cpus s)" "cpus s' = (cpus s)[i := c]"
    and mv: "ready_procs (sched (wld s')) + opt_mset (c_proc c) \<subseteq># ready_procs (sched (wld s)) + opt_mset (c_proc (cpus s ! i))"
    and w: "world_inv (e_ops en) (wld s')" "sched_inv (sched (wld s'))"
    and good: "\<And>p. p \<in># active s' \<Longrightarrow> good_proc (procs (wld s) p) \<Longrightarrow> good_proc (procs (wld s') p)"
    and new: "\<And>p. p \<in># opt_mset (l_proc s) \<Longrightarrow> procs (wld s') p = procs (wld s) p"
    and l: "l_proc s' = l_proc s" "l_pc s' = l_pc s" and c: "cpu_ok c"
  shows "os_inv en s'"
proof -
  have sub: "active s' \<subseteq># active s" by (rule active_set_cpu [OF i mv])
  then have "active s' + opt_mset (l_proc s') \<subseteq># active s + opt_mset (l_proc s)" by (simp add: l)
  with inv have "unique (active s' + opt_mset (l_proc s'))" unfolding os_inv_def by (blast intro: unique_mono)
  moreover have "\<forall>p \<in># active s'. good_proc (procs (wld s') p)"
    using inv good mset_subset_eqD [OF sub] by (auto simp: os_inv_def)
  moreover have "\<forall>x \<in> set (cpus s'). cpu_ok x"
    using inv c unfolding i(2) by (auto simp: os_inv_def dest!: set_update_subset_insert [THEN subsetD])
  ultimately show ?thesis using inv w new by (auto simp: os_inv_def l)
qed

lemma world_inv_sched: "world_inv M (w\<lparr>sched := sc\<rparr>) = world_inv M w"
proof -
  have "maps_of (w\<lparr>sched := sc\<rparr>) = maps_of w" by (intro HOL.ext) (simp add: maps_of_def)
  then show ?thesis by (simp add: world_inv_def)
qed

text \<open>Taking a process from the scheduler and giving one back.\<close>

lemma os_inv_take:
  assumes inv: "os_inv en s" and i: "i < length (cpus s)" "c_proc (cpus s ! i) = None"
    and g: "get_proc (sched (wld s)) = (po, sc)" "c_proc c = po" "cpu_ok c"
  shows "os_inv en (set_cpu i c (set_sched sc s))"
proof (rule os_inv_cpu [OF inv i(1), where c = c])
  have sc: "sched_inv (sched (wld s))" using inv by (simp add: os_inv_def)
  show "ready_procs (sched (wld (set_cpu i c (set_sched sc s)))) + opt_mset (c_proc c)
      \<subseteq># ready_procs (sched (wld s)) + opt_mset (c_proc (cpus s ! i))"
    using pool.take_owned [OF sc g(1)] by (simp add: set_cpu_def set_sched_def g(2) i(2))
  show "sched_inv (sched (wld (set_cpu i c (set_sched sc s))))"
    using pool.invar_get [OF sc] g(1) by (simp add: set_cpu_def set_sched_def)
qed (use inv g in \<open>auto simp: set_cpu_def set_sched_def world_inv_sched os_inv_def\<close>)

lemma os_inv_give:
  assumes inv: "os_inv en s" and i: "i < length (cpus s)" "c_proc (cpus s ! i) = Some p" "c_proc c = None" "cpu_ok c"
  shows "os_inv en (set_cpu i c (set_sched (put_proc (sched (wld s)) (Some p) pr) s))"
proof (rule os_inv_cpu [OF inv i(1), where c = c])
  have sc: "sched_inv (sched (wld s))" using inv by (simp add: os_inv_def)
  let ?s = "set_cpu i c (set_sched (put_proc (sched (wld s)) (Some p) pr) s)"
  show "ready_procs (sched (wld ?s)) + opt_mset (c_proc c) \<subseteq># ready_procs (sched (wld s)) + opt_mset (c_proc (cpus s ! i))"
    using pool.give_owned [OF sc, of p pr] by (simp add: set_cpu_def set_sched_def i)
  show "sched_inv (sched (wld ?s))"
    using pool.invar_put [OF sc] by (simp add: set_cpu_def set_sched_def)
qed (use inv i in \<open>auto simp: set_cpu_def set_sched_def world_inv_sched os_inv_def\<close>)

lemma os_inv_same:
  assumes inv: "os_inv en s" and i: "i < length (cpus s)" "c_proc c = c_proc (cpus s ! i)"
    and c: "cpu_ok c"
  shows "os_inv en (set_cpu i c (s\<lparr>tmr := t\<rparr>))"
  by (rule os_inv_cpu [OF inv i(1), where c = c])
    (use inv i c in \<open>auto simp: set_cpu_def os_inv_def\<close>)

text \<open>A freed process: it was in this CPU only, and its frames stay allocated.\<close>

lemma vm_inv_remove:
  assumes "vm_inv ms mp"
  shows "vm_inv (ms(p := None)) mp"
proof -
  have "frm_of (ms(p := None)) mp k q = Some f \<Longrightarrow> frm_of ms mp k q = Some f" for k q f
    by (cases "k = p") (simp_all add: frm_of_def)
  then show ?thesis using assms unfolding vm_inv_def by (auto split: if_splits) blast+
qed

lemma os_inv_free:
  assumes inv: "os_inv en s" and i: "i < length (cpus s)" "c_proc (cpus s ! i) = Some p" "c_proc c = None" "cpu_ok c"
  shows "os_inv en (set_cpu i c (free_proc p s))"
proof (rule os_inv_cpu [OF inv i(1), where c = c])
  let ?s = "set_cpu i c (free_proc p s)"
  have "cpu_held (cpus s) = add_mset p (cpu_held ((cpus s)[i := c]))"
    using cpu_held_update [OF i(1), of c] by (simp add: i(2,3))
  then have A: "add_mset p (active ?s) = active s" by (simp add: active_def set_cpu_def free_proc_def)
  moreover have "unique (active s + opt_mset (l_proc s))" using inv by (simp add: os_inv_def)
  ultimately have "unique (add_mset p (active ?s + opt_mset (l_proc s)))" by (simp flip: union_mset_add_mset_left)
  then have p: "p \<notin># active ?s + opt_mset (l_proc s)" by (rule unique_add)
  then show "good_proc (procs (wld ?s) q)" if "q \<in># active ?s" "good_proc (procs (wld s) q)" for q
    using that by (auto simp: set_cpu_def free_proc_def)
  show "procs (wld ?s) q = procs (wld s) q" if "q \<in># opt_mset (l_proc s)" for q
    using that p by (auto simp: set_cpu_def free_proc_def)
  have "maps_of (wld ?s) = (maps_of (wld s))(p := None)"
    by (intro HOL.ext) (simp add: maps_of_def set_cpu_def free_proc_def)
  then show "world_inv (e_ops en) (wld ?s)"
    using inv vm_inv_remove [of "maps_of (wld s)" "ram (wld s)" p]
    by (auto simp: os_inv_def world_inv_def set_cpu_def free_proc_def)
qed (use inv i in \<open>auto simp: set_cpu_def free_proc_def os_inv_def\<close>)

subsection \<open>Running an instruction\<close>

text \<open>The process has executed one instruction more, if it was not at its end.\<close>

definition advanced :: "proc_t option \<Rightarrow> proc_t option \<Rightarrow> bool" where
  "advanced po po' = (case po of None \<Rightarrow> False | Some pr \<Rightarrow> (case po' of None \<Rightarrow> False | Some pr' \<Rightarrow>
     code (pcb pr') = code (pcb pr) \<and> prio (pcb pr') = prio (pcb pr) \<and>
     (pc (pcb pr) \<noteq> cs_size (code (pcb pr)) \<longrightarrow> unat (pc (pcb pr')) = Suc (unat (pc (pcb pr))))))"

lemma run_good:
  assumes w: "world_inv M w" and p: "good_proc (procs w p)"
  shows "\<exists>r w'. run M w p = Some (r, w') \<and> proc_step M w p w' \<and> good_proc (procs w' p) \<and> advanced (procs w p) (procs w' p)"
proof -
  from p obtain pr m where pr: "procs w p = Some pr" "mm (krnl pr) = Some m" "prog_ok (pcb pr)"
      "area_end m + (length (cs_text (code (pcb pr))) - unat (pc (pcb pr))) * 2 ^ 31 < 2 ^ 62"
    by (auto simp: good_proc_def split: option.splits)
  let ?L = "length (cs_text (code (pcb pr)))"
  have L: "unat (of_nat ?L :: u32) = ?L" using pr(3) by (simp only: unat_of_nat) (simp add: prog_ok_def)
  show ?thesis
  proof (cases "pc (pcb pr) < cs_size (code (pcb pr))")
    case False
    then have "pc (pcb pr) = cs_size (code (pcb pr))" using L pr(3) by (simp add: prog_ok_def word_less_nat_alt word_unat_eq_iff)
    then show ?thesis using pr(1) p proc_step_refl [OF w] by (auto simp: run_def advanced_def)
  next
    case True
    then have lt: "unat (pc (pcb pr)) < ?L" using L pr(3) by (simp add: word_less_nat_alt prog_ok_def)
    then have "1 * 2 ^ 31 \<le> (?L - unat (pc (pcb pr))) * 2 ^ 31" by (intro mult_le_mono1) simp
    then have cap: "area_end m + 2 ^ 31 < 2 ^ 62" using pr(4) by linarith
    have safe: "safe_inst (cs_text (code (pcb pr)) ! unat (pc (pcb pr)))" using pr(3) lt by (simp add: prog_ok_def)
    from run_safe [OF w pr(1,2) cap True lt safe] obtain r w' pr' m' where
      R: "run M w p = Some (r, w')" "proc_step M w p w'" "procs w' p = Some pr'" "pc (pcb pr') = pc (pcb pr) + 1"
        "code (pcb pr') = code (pcb pr)" "mm (krnl pr') = Some m'" "area_end m' < area_end m + 2 ^ 31" "prio (pcb pr') = prio (pcb pr)" by blast
    have "?L < 2 ^ 30" using pr(3) by (simp add: prog_ok_def)
    then have n: "unat (pc (pcb pr) + 1) = unat (pc (pcb pr)) + 1" using lt by (simp add: unat_word_ariths)
    moreover have "(?L - unat (pc (pcb pr))) * 2 ^ 31 = (?L - (unat (pc (pcb pr)) + 1)) * 2 ^ 31 + 2 ^ 31"
      using lt by (simp flip: add_mult_distrib Suc_diff_Suc)
    ultimately have "good_proc (procs w' p)"
      using R(3-7) pr(3,4) lt by (simp add: good_proc_def prog_ok_def)
    moreover have "advanced (procs w p) (procs w' p)" using R(3-5,8) pr(1) n by (simp add: advanced_def)
    ultimately show ?thesis using R(1,2) by blast
  qed
qed

lemma os_inv_run:
  assumes inv: "os_inv en s" and i: "i < length (cpus s)" "c_proc (cpus s ! i) = Some p" "c_proc c = Some p"
    and c: "cpu_ok c" and w: "proc_step (e_ops en) (wld s) p w'" "good_proc (procs w' p)"
  shows "os_inv en (set_cpu i c (s\<lparr>wld := w'\<rparr>))"
proof (rule os_inv_cpu [OF inv i(1), where c = c])
  have P: "\<And>q. q \<noteq> p \<Longrightarrow> procs w' q = procs (wld s) q" "sched w' = sched (wld s)" "world_inv (e_ops en) w'"
    using w(1) by (simp_all add: proc_step_def)
  have "p \<in># active s" using cpu_held_nth [OF i(1,2)] by (simp add: active_def)
  then obtain A where "active s = add_mset p A" by (rule mset_add)
  then have "p \<notin># opt_mset (l_proc s)" using inv by (auto simp: os_inv_def dest!: unique_add)
  then show "procs (wld (set_cpu i c (s\<lparr>wld := w'\<rparr>))) q = procs (wld s) q" if "q \<in># opt_mset (l_proc s)" for q
    using that P(1) [of q] by (auto simp: set_cpu_def)
  show "good_proc (procs (wld (set_cpu i c (s\<lparr>wld := w'\<rparr>))) q)" if "good_proc (procs (wld s) q)" for q
    using that w(2) P(1) [of q] by (cases "q = p") (simp_all add: set_cpu_def)
  show "world_inv (e_ops en) (wld (set_cpu i c (s\<lparr>wld := w'\<rparr>)))" using P(3) by (simp add: set_cpu_def)
qed (use inv i c w in \<open>auto simp: set_cpu_def os_inv_def proc_step_def\<close>)

subsection \<open>Loading a process\<close>

text \<open>What the run assumes of the files: every program named in the configuration loads and passes the check.\<close>

definition programs_ok :: "os_env \<Rightarrow> bool" where
  "programs_ok en \<longleftrightarrow> (\<forall>i a. int i < num_processes (e_cfg en) \<longrightarrow>
     (\<exists>c a'. load (e_files en) (e_insts en) (e_block en) a (ld_path (e_cfg en) ! i) = Some (Returns c, a') \<and>
        prog_ok c \<and> pc c = 0 \<and> length (regs c) = 10))"

lemma os_inv_new:
  assumes inv: "os_inv en s" "l_proc s = None" and q: "procs (wld s) q = None"
    and c: "prog_ok c" "pc c = 0" "length (regs c) = 10"
  shows "os_inv en (s\<lparr>wld := (wld s)\<lparr>procs := (procs (wld s))(q \<mapsto> \<lparr>pcb = c, krnl = no_krnl (wld s)\<rparr>)\<rparr>,
     avail_pid := a, l_proc := Some q, l_pc := L_wait\<rparr>)" (is "os_inv en ?s")
proof -
  have act: "active ?s = active s" by (simp add: active_def)
  have qn: "q \<notin># active s" using inv(1) q by (auto simp: os_inv_def good_proc_def)
  have "maps_of (wld ?s) = maps_of (wld s)" using q by (intro HOL.ext) (simp add: maps_of_def no_krnl_def)
  then have "world_inv (e_ops en) (wld ?s)" using inv(1) c(3)
    by (auto simp: os_inv_def world_inv_def no_krnl_def split: if_splits)
  moreover have "unique (active ?s + opt_mset (l_proc ?s))"
    using inv qn by (simp add: os_inv_def act unique_insert)
  moreover have "\<forall>p \<in># active ?s. good_proc (procs (wld ?s) p)" using inv(1) qn by (auto simp: os_inv_def act)
  moreover have "prog_ok c" "pc c = 0" by fact+
  ultimately show ?thesis using inv(1) by (simp add: os_inv_def new_proc_def no_krnl_def)
qed

lemma good_proc_init:
  assumes "prog_ok c" "pc c = 0" "mm k = Some (snd (init_mm junk))"
  shows "good_proc (Some \<lparr>pcb = c, krnl = k\<rparr>)"
proof -
  have "area_end (snd (init_mm junk)) = 2 ^ 20" by (simp add: area_end_def init_mm_def Let_def)
  then show ?thesis using assms by (simp add: good_proc_def prog_ok_def)
qed

lemma os_inv_added:
  assumes inv: "os_inv en s" "l_proc s = Some p" and pr: "procs (wld s) p = Some pr"
    and k: "mm k = Some (snd (init_mm junk))" and pc: "lp \<noteq> L_wait" "lp \<noteq> L_wait_sleep"
  shows "os_inv en (s\<lparr>wld := (wld s)\<lparr>sched := enqueue_by_prio (sched (wld s)) p pri, procs := (procs (wld s))(p \<mapsto> pr\<lparr>krnl := k\<rparr>)\<rparr>,
     l_i := n, l_proc := None, l_pc := lp\<rparr>)" (is "os_inv en ?s")
proof -
  have sc: "sched_inv (sched (wld s))" and new: "new_proc (procs (wld s) p)" and U: "unique (add_mset p (active s))"
    using inv by (simp_all add: os_inv_def)
  have pn: "p \<notin># active s" using U by (rule unique_add)
  have good: "good_proc (Some (pr\<lparr>krnl := k\<rparr>))"
    using new good_proc_init [of "pcb pr" k junk] k by (cases pr) (simp add: pr new_proc_def)
  have sub: "active ?s \<subseteq># add_mset p (active s)"
    using pool.ready_add [OF sc, of p pri] by (simp add: active_def flip: union_mset_add_mset_left)
  have "unique (active ?s)" using U sub by (rule unique_mono)
  moreover have "good_proc (procs (wld ?s) q)" if "q \<in># active ?s" for q
    using mset_subset_eqD [OF sub that] inv(1) good by (auto simp: os_inv_def)
  moreover have "world_inv (e_ops en) (wld ?s)"
  proof -
    have "maps_of (wld s) p = None" using new pr by (simp add: maps_of_def new_proc_def)
    moreover have "maps_of (wld ?s) = (maps_of (wld s))(p \<mapsto> snd (init_mm junk))"
      using k by (intro HOL.ext) (simp add: maps_of_def)
    ultimately show ?thesis
      using inv(1) vm_inv_new_process [of "maps_of (wld s)" "ram (wld s)" p] k rg_inv_init [of junk] pr
      by (auto simp: os_inv_def world_inv_def split: if_splits)
  qed
  ultimately show ?thesis
    using inv(1) pool.invar_add [OF sc, of p pri] pc by (simp add: os_inv_def)
qed

section \<open>Every step of every thread\<close>

text \<open>A step is safe if it is defined, does not end the program and keeps the invariant.\<close>

definition safe_res :: "os_env \<Rightarrow> os_res \<Rightarrow> bool" where
  "safe_res en r = (case r of Blocked \<Rightarrow> True | Undefined \<Rightarrow> False | Program_exit _ \<Rightarrow> False | Next s \<Rightarrow> os_inv en s)"

lemma os_inv_nth: "os_inv en s \<Longrightarrow> i < length (cpus s) \<Longrightarrow> cpu_ok (cpus s ! i)"
  by (simp add: os_inv_def)

lemma os_inv_held:
  assumes "os_inv en s" "i < length (cpus s)" "c_proc (cpus s ! i) = Some p"
  shows "good_proc (procs (wld s) p)"
  using assms cpu_held_nth [OF assms(2,3)] by (simp add: os_inv_def active_def)

lemma os_inv_set:
  assumes "os_inv en s" "i < length (cpus s)" "c_proc c = c_proc (cpus s ! i)" "cpu_ok c"
  shows "os_inv en (set_cpu i c s)"
  using os_inv_same [OF assms, of "tmr s"] by simp

lemma safe_cpu_top:
  assumes inv: "os_inv en s" "i < length (cpus s)"
  shows "safe_res en (cpu_top i (cpus s ! i) s)"
proof (cases "c_proc (cpus s ! i)")
  case None
  obtain po sc where g: "get_proc (sched (wld s)) = (po, sc)" by (cases "get_proc (sched (wld s))")
  have "os_inv en (set_cpu i ((cpus s ! i)\<lparr>c_proc := po, c_pc := if po = None then Slot_end else Recheck\<rparr>) (set_sched sc s))"
    by (rule os_inv_take [OF inv None g]) (simp_all add: cpu_ok_def)
  then show ?thesis by (simp add: cpu_top_def None g safe_res_def)
next
  case (Some p)
  obtain pr where "procs (wld s) p = Some pr"
    using os_inv_held [OF inv Some] by (auto simp: good_proc_def split: option.splits)
  moreover have "os_inv en (set_cpu i ((cpus s ! i)\<lparr>c_proc := None, c_pc := Refetch True\<rparr>) (free_proc p s))"
    "os_inv en (set_cpu i ((cpus s ! i)\<lparr>c_proc := None, c_pc := Refetch False\<rparr>)
       (set_sched (put_proc (sched (wld s)) (Some p) (prio (pcb pr))) s))"
    "os_inv en (set_cpu i ((cpus s ! i)\<lparr>c_pc := Recheck\<rparr>) s)"
    using os_inv_free [OF inv Some] os_inv_give [OF inv Some] os_inv_set [OF inv] by (simp_all add: cpu_ok_def)
  ultimately show ?thesis by (simp add: cpu_top_def Some safe_res_def)
qed

lemma safe_cpu_refetch:
  assumes inv: "os_inv en s" "i < length (cpus s)" and c: "c_pc (cpus s ! i) = Refetch b"
  shows "safe_res en (cpu_refetch b i (cpus s ! i) s)"
proof -
  have None: "c_proc (cpus s ! i) = None" using os_inv_nth [OF inv] c by (simp add: cpu_ok_def)
  obtain po sc where g: "get_proc (sched (wld s)) = (po, sc)" by (cases "get_proc (sched (wld s))")
  have "os_inv en (set_cpu i ((cpus s ! i)\<lparr>c_proc := po, time_left := if b then 0 else time_left (cpus s ! i), c_pc := Recheck\<rparr>)
      (set_sched sc s))"
    by (rule os_inv_take [OF inv None g]) (simp_all add: cpu_ok_def)
  then show ?thesis by (simp add: cpu_refetch_def g safe_res_def)
qed

lemma safe_cpu_run:
  assumes inv: "os_inv en s" "i < length (cpus s)" and c: "c_pc (cpus s ! i) = Run_inst"
  shows "safe_res en (cpu_run en i (cpus s ! i) s)"
proof -
  obtain p where p: "c_proc (cpus s ! i) = Some p" using os_inv_nth [OF inv] c by (auto simp: cpu_ok_def)
  have "world_inv (e_ops en) (wld s)" using inv(1) by (simp add: os_inv_def)
  from run_good [OF this os_inv_held [OF inv p]] obtain r w' where
    R: "run (e_ops en) (wld s) p = Some (r, w')" "proc_step (e_ops en) (wld s) p w'" "good_proc (procs w' p)" by blast
  have "os_inv en (set_cpu i ((cpus s ! i)\<lparr>time_left := time_left (cpus s ! i) - 1, c_pc := Slot_end\<rparr>) (s\<lparr>wld := w'\<rparr>))"
    by (rule os_inv_run [OF inv p _ _ R(2,3)]) (simp_all add: p cpu_ok_def)
  then show ?thesis by (simp add: cpu_run_def p R(1) safe_res_def)
qed

lemma safe_cpu:
  assumes inv: "os_inv en s"
  shows "safe_res en (cpu_routine en i s)"
proof (cases "i < length (cpus s)")
  case i: True
  have same: "os_inv en (set_cpu i ((cpus s ! i)\<lparr>c_pc := pc\<rparr>) (s\<lparr>tmr := t\<rparr>))" if "cpu_ok ((cpus s ! i)\<lparr>c_pc := pc\<rparr>)" for pc t
    using os_inv_same [OF inv i _ that] by simp
  show ?thesis
  proof (cases "c_pc (cpus s ! i)")
    case Recheck
    have "os_inv en (set_cpu i ((cpus s ! i)\<lparr>c_pc := Leaving\<rparr>) s)" "os_inv en (set_cpu i ((cpus s ! i)\<lparr>c_pc := Slot_end\<rparr>) s)"
      "c_proc (cpus s ! i) \<noteq> None \<Longrightarrow> os_inv en (set_cpu i ((cpus s ! i)\<lparr>time_left := t, c_pc := Run_inst\<rparr>) s)" for t
      using os_inv_set [OF inv i] by (simp_all add: cpu_ok_def)
    then show ?thesis by (auto simp: cpu_routine_def i Recheck cpu_recheck_def safe_res_def Let_def)
  next
    case Sleeping
    then show ?thesis using same by (auto simp: cpu_routine_def i safe_res_def cpu_ok_def split: option.splits)
  qed (use safe_cpu_top [OF inv i] safe_cpu_refetch [OF inv i] safe_cpu_run [OF inv i] same in
    \<open>simp_all add: cpu_routine_def i safe_res_def cpu_ok_def Let_def\<close>)
qed (simp add: cpu_routine_def safe_res_def)

lemma os_inv_tmr: "os_inv en (s\<lparr>tmr := t\<rparr>) = os_inv en s"
  by (simp add: os_inv_def active_def)

lemma os_inv_l_pc:
  "l_pc s' \<noteq> L_wait \<and> l_pc s' \<noteq> L_wait_sleep \<longleftrightarrow> l_pc s \<noteq> L_wait \<and> l_pc s \<noteq> L_wait_sleep \<Longrightarrow>
   wld s' = wld s \<Longrightarrow> cpus s' = cpus s \<Longrightarrow> l_proc s' = l_proc s \<Longrightarrow> os_inv en s' = os_inv en s"
  by (simp add: os_inv_def active_def)

lemma safe_ld_load:
  assumes inv: "os_inv en s" "l_pc s = L_top" and P: "programs_ok en"
  shows "safe_res en (ld_load en q s)"
proof (cases "int (l_i s) < num_processes (e_cfg en) \<and> procs (wld s) q = None")
  case True
  from P True obtain c a where L: "load (e_files en) (e_insts en) (e_block en) (avail_pid s) (ld_path (e_cfg en) ! l_i s) = Some (Returns c, a)"
    "prog_ok c" "pc c = 0" "length (regs c) = 10" unfolding programs_ok_def by blast
  have "l_proc s = None" using inv by (simp add: os_inv_def)
  moreover have "prog_ok (c\<lparr>prio := x\<rparr>)" for x using L(2) by (simp add: prog_ok_def)
  ultimately show ?thesis using os_inv_new [OF inv(1), of q "c\<lparr>prio := _\<rparr>" a] True L by (simp add: ld_load_def safe_res_def)
next
  case False
  have "os_inv en (s\<lparr>os_done := True, l_pc := L_leaving\<rparr>) = os_inv en s" by (rule os_inv_l_pc) (simp_all add: inv(2))
  then show ?thesis using False inv(1) by (auto simp: ld_load_def safe_res_def)
qed

lemma safe_ld_add:
  assumes inv: "os_inv en s" "l_pc s = L_wait"
  shows "safe_res en (ld_add en s)"
proof -
  obtain p where p: "l_proc s = Some p" using inv by (auto simp: os_inv_def)
  then have "new_proc (procs (wld s) p)" using inv(1) by (simp add: os_inv_def)
  then obtain pr where pr: "procs (wld s) p = Some pr" by (auto simp: new_proc_def split: option.splits)
  show ?thesis using os_inv_added [OF inv(1) p pr]
    by (simp add: ld_add_def p pr add_proc_def add_mlq_proc_def safe_res_def)
qed

lemma safe_ld:
  assumes inv: "os_inv en s" and P: "programs_ok en"
  shows "safe_res en (ld_routine en q s)"
proof -
  have pc: "os_inv en (s\<lparr>tmr := t, l_pc := x\<rparr>)"
    if "x \<noteq> L_wait \<and> x \<noteq> L_wait_sleep \<longleftrightarrow> l_pc s \<noteq> L_wait \<and> l_pc s \<noteq> L_wait_sleep" for t x
    using os_inv_l_pc [of "s\<lparr>tmr := t, l_pc := x\<rparr>" s en] that inv by simp
  show ?thesis
    using safe_ld_load [OF inv _ P] safe_ld_add [OF inv] pc
    by (cases "l_pc s") (auto simp: ld_routine_def safe_res_def split: option.splits)
qed

lemma safe_do:
  assumes "os_inv en s" "programs_ok en"
  shows "safe_res en (os_do en e s)"
  using safe_cpu [OF assms(1)] safe_ld [OF assms] assms(1)
  by (cases e) (auto simp: os_do_def safe_res_def os_inv_tmr split: option.splits)

lemma safe_exec: "os_inv en s \<Longrightarrow> programs_ok en \<Longrightarrow> safe_res en (os_exec en es s)"
proof (induction es arbitrary: s)
  case Nil
  then show ?case by (simp add: safe_res_def)
next
  case (Cons e es)
  then show ?case using safe_do [OF Cons.prems, of e] by (cases "os_do en e s") (auto simp: safe_res_def)
qed

section \<open>The system from its start\<close>

text \<open>What the start assumes of the memory devices: the documented operations and a usable memory without frame 0 in its free list.\<close>

definition boot_ok :: "os_env \<Rightarrow> memphy_struct \<Rightarrow> bool" where
  "boot_ok en mr \<longleftrightarrow> memphy_ok (e_ops en) \<and> dev_ok mr \<and> 0 \<notin> set (free_fp_list mr) \<and> programs_ok en"

lemma ready_init: "ready_procs (init_scheduler zero_sched) = {#}"
proof -
  have "map (\<lambda>q. mset (queue_list q)) (mlq_ready_queue (init_scheduler zero_sched)) = replicate MAX_PRIO {#}"
    by (simp add: init_scheduler_def zero_sched_def queue_list_def map_replicate_const)
  moreover have "sum_list (replicate n {#}) = {#}" for n by (induction n) simp_all
  ultimately show ?thesis by (simp add: ready_procs_def)
qed

lemma boot_inv:
  assumes "boot_ok en mr"
  shows "os_inv en (main_setup en mr ms)"
proof -
  have h: "cpu_held (replicate n \<lparr>c_proc = None, time_left = 0, c_pc = Top\<rparr>) = {#}" for n
    by (induction n) (simp_all add: cpu_held_def)
  have "maps_of (wld (main_setup en mr ms)) = Map.empty"
    by (intro HOL.ext) (simp add: maps_of_def main_setup_def Let_def)
  then have "world_inv (e_ops en) (wld (main_setup en mr ms))"
    using assms vm_inv_no_process [of mr] by (simp add: world_inv_def boot_ok_def) (simp add: main_setup_def Let_def)
  then show ?thesis
    by (simp add: os_inv_def main_setup_def Let_def active_def ready_init h sched_inv_init sched_inv_zero unique_def cpu_ok_def)
qed

section \<open>A system with two CPUs and one program\<close>

definition demo_cfg :: config where
  "demo_cfg = \<lparr>time_slot = 2, num_cpus = 2, num_processes = 1, ld_path = [''input/proc/p0''], ld_start = [0], ld_prio = [3],
     memramsz = 0x100000, memswpsz = [0x1000000, 0, 0, 0]\<rparr>"

definition demo_env :: os_env where
  "demo_env = \<lparr>e_ops = list_ops, e_files = [''input/proc/p0'' \<mapsto> print_prog 1 [demo_alloc, demo_alloc]],
     e_insts = (\<lambda>_. demo_alloc), e_block = demo_block, e_rgs = [], e_cfg = demo_cfg\<rparr>"

definition demo_pcb :: "u32 \<Rightarrow> pcb_t" where
  "demo_pcb a = demo_block\<lparr>pid := a, bp := 1024, pc := 0, path := ''input/proc/p0'', priority := 1,
     code := \<lparr>cs_text = [demo_alloc, demo_alloc], cs_size = 2\<rparr>\<rparr>"

lemma demo_load:
  "load (e_files demo_env) (e_insts demo_env) (e_block demo_env) a ''input/proc/p0'' = Some (Returns (demo_pcb a), a + 1)"
  using load_print [of "e_files demo_env" "''input/proc/p0''" 1 "[demo_alloc, demo_alloc]" "e_insts demo_env" "e_block demo_env" a]
  by (simp add: demo_env_def demo_pcb_def fill_def used_args_def set_args_def demo_alloc_def c_string_def)

lemma demo_pcb_ok: "prog_ok (demo_pcb a)" "pc (demo_pcb a) = 0" "length (regs (demo_pcb a)) = 10"
  by (simp_all add: prog_ok_def demo_pcb_def safe_inst_def demo_alloc_def demo_block_def)

lemma demo_boot_ok: "boot_ok demo_env demo_ram"
proof -
  have "e_cfg demo_env = demo_cfg" "e_ops demo_env = list_ops" by (simp_all add: demo_env_def)
  moreover have "dev_ok demo_ram" by (rule demo_ram_ok)
  ultimately show ?thesis
    using list_ops_ok demo_load demo_pcb_ok by (auto simp: boot_ok_def programs_ok_def demo_cfg_def)
qed

lemma sched_abs_init: "sched_abs (init_scheduler zero_sched) = \<lparr>a_ready = replicate MAX_PRIO [], a_running = []\<rparr>"
  by (simp add: sched_abs_def init_scheduler_def zero_sched_def queue_list_def map_replicate_const)

lemma first_dispatch: "fst (get_proc (enqueue_by_prio (init_scheduler zero_sched) p 3)) = Some p"
proof -
  let ?s = "enqueue_by_prio (init_scheduler zero_sched) p 3"
  have i: "sched_inv (init_scheduler zero_sched)" by (simp add: sched_inv_init sched_inv_zero)
  then have a: "a_ready (sched_abs ?s) = (replicate MAX_PRIO [])[3 := [p]]"
    by (simp add: sched_abs_enqueue_by_prio sched_abs_init a_add_def push_bounded_def MAX_PRIO_def MAX_QUEUE_SIZE_def)
  have "highest (a_ready (sched_abs ?s)) = Some 3"
    unfolding a by (rule highest_first) (simp_all add: MAX_PRIO_def nth_list_update)
  moreover have "a_ready (sched_abs ?s) ! 3 = [p]" by (simp add: a MAX_PRIO_def)
  ultimately show ?thesis using mlq.get_run(1) [OF pool.invar_add [OF i]] by blast
qed

definition demo_start :: os_t where
  "demo_start = main_setup demo_env demo_ram demo_ram"

definition demo_added :: os_t where
  "demo_added = demo_start\<lparr>wld := (wld demo_start)\<lparr>sched := enqueue_by_prio (init_scheduler zero_sched) 7 3,
       procs := [7 \<mapsto> \<lparr>pcb = (demo_pcb 1)\<lparr>prio := 3\<rparr>, krnl = \<lparr>k_ready_queue = Some Ready_queue, k_running_list = Some Running_list,
         k_mlq_ready_queue = Some Mlq_ready_queue, mm = Some (snd (init_mm [])), mram = demo_ram, active_mswp = demo_ram\<rparr>\<rparr>]\<rparr>,
     avail_pid := 2, l_i := 1, l_pc := L_slot\<rparr>"

lemma demo_start_fields:
  "wld demo_start = \<lparr>sched = init_scheduler zero_sched, procs = Map.empty, ram = demo_ram, swp = demo_ram\<rparr>"
  "tmr demo_start = boot_timer 3" "cpus demo_start = replicate 2 \<lparr>c_proc = None, time_left = 0, c_pc = Top\<rparr>"
  "l_pc demo_start = L_top" "l_i demo_start = 0" "l_proc demo_start = None" "os_done demo_start = False" "avail_pid demo_start = 1"
  by (simp_all add: demo_start_def main_setup_def Let_def demo_env_def demo_cfg_def)

lemma demo_env_fields:
  "ld_path (e_cfg demo_env) = [''input/proc/p0'']" "ld_start (e_cfg demo_env) = [0]" "ld_prio (e_cfg demo_env) = [3]"
  "num_processes (e_cfg demo_env) = 1" "e_rgs demo_env = []" "time_slot (e_cfg demo_env) = 2"
  by (simp_all add: demo_env_def demo_cfg_def)

lemma demo_loaded: "os_exec demo_env [E_ld 7, E_ld 7] demo_start = Next demo_added"
proof -
  let ?s1 = "demo_start\<lparr>wld := (wld demo_start)\<lparr>procs := [7 \<mapsto> \<lparr>pcb = (demo_pcb 1)\<lparr>prio := 3\<rparr>, krnl = no_krnl (wld demo_start)\<rparr>]\<rparr>,
      avail_pid := 2, l_proc := Some 7, l_pc := L_wait\<rparr>"
  have "os_do demo_env (E_ld 7) demo_start = Next ?s1"
    by (simp add: os_do_def ld_routine_def Let_def ld_load_def demo_start_fields demo_env_fields demo_load)
  moreover have "current_time (boot_timer 3) = 0" by (simp add: current_time_def boot_timer_fields)
  then have "os_do demo_env (E_ld 7) ?s1 = Next demo_added"
    by (simp add: os_do_def ld_routine_def Let_def ld_add_def demo_start_fields demo_env_fields add_proc_def add_mlq_proc_def
        no_krnl_def demo_added_def)
  ultimately show ?thesis by simp
qed

lemma os_exec_append:
  "os_exec en (es @ fs) s = (case os_exec en es s of Next s' \<Rightarrow> os_exec en fs s' | r \<Rightarrow> r)"
proof (induction es arbitrary: s)
  case (Cons e es)
  have "os_exec en es s \<noteq> Blocked" for es s by (induction es arbitrary: s) (auto split: os_res.splits)
  then show ?case using Cons by (auto split: os_res.splits)
qed simp

lemma demo_running:
  "\<exists>s. os_exec demo_env [E_ld 7, E_ld 7, E_cpu 0] (main_setup demo_env demo_ram demo_ram) = Next s \<and>
     length (cpus s) = 2 \<and> c_proc (cpus s ! 0) = Some 7 \<and> \<not> all_joined s \<and> procs (wld s) 8 = None"
proof -
  obtain sc where g: "get_proc (sched (wld demo_added)) = (Some 7, sc)"
    using first_dispatch [of 7] by (simp add: demo_added_def) (metis prod.collapse)
  have "cpus demo_added = replicate 2 \<lparr>c_proc = None, time_left = 0, c_pc = Top\<rparr>" by (simp add: demo_added_def demo_start_fields)
  then obtain s where s: "os_do demo_env (E_cpu 0) demo_added = Next s" "length (cpus s) = 2" "c_proc (cpus s ! 0) = Some 7"
    "\<not> all_joined s" "procs (wld s) 8 = None"
    by (simp add: os_do_def cpu_routine_def cpu_top_def g set_cpu_def set_sched_def all_joined_def)
      (simp add: demo_added_def)
  have "os_exec demo_env ([E_ld 7, E_ld 7] @ [E_cpu 0]) demo_start = os_exec demo_env [E_cpu 0] demo_added"
    by (simp only: os_exec_append demo_loaded os_res.case)
  then have "os_exec demo_env [E_ld 7, E_ld 7, E_cpu 0] (main_setup demo_env demo_ram demo_ram) = Next s"
    by (simp only: demo_start_def append.simps) (simp add: s(1))
  then show ?thesis using s(2-5) by blast
qed

section \<open>Safety of the whole system\<close>

lemma os_exec_safe:
  assumes "boot_ok en mr"
  shows "\<exists>s. os_exec en es (main_setup en mr ms) = Next s \<and> os_inv en s \<and>
    world_inv (e_ops en) (wld s) \<and> sched_inv (sched (wld s))"
proof -
  have P: "programs_ok en" using assms by (simp add: boot_ok_def)
  have nb: "os_exec en es s \<noteq> Blocked" for es s
    by (induction es arbitrary: s) (auto split: os_res.splits)
  from safe_exec [OF boot_inv [OF assms] P, of es ms] nb show ?thesis
    by (cases "os_exec en es (main_setup en mr ms)") (auto simp: safe_res_def os_inv_def)
qed





end
