(* ===== verification/OsTimer.thy ===== *)
theory OsTimer
  imports OsSafety
begin

text \<open>
  The threads of the system and the barrier of the timer together: every run of the system is a run
  of the barrier, the threads always make progress, and what keeps the program from ending.
\<close>

section \<open>The threads follow the protocol of the timer\<close>

definition cpu_dev :: "cpu_pc \<Rightarrow> dev_pc" where
  "cpu_dev x = (case x of Sleeping \<Rightarrow> Waiting | Stopped \<Rightarrow> Detached | _ \<Rightarrow> Working)"

definition ld_dev :: "ld_pc \<Rightarrow> dev_pc" where
  "ld_dev x = (case x of L_sleep \<Rightarrow> Waiting | L_wait_sleep \<Rightarrow> Waiting | L_stopped \<Rightarrow> Detached | _ \<Rightarrow> Working)"

definition linked :: "nat \<Rightarrow> os_t \<Rightarrow> bool" where
  "linked n s \<longleftrightarrow> length (cpus s) = n \<and> set (dev_list (tmr s)) = {..<Suc n} \<and>
     (\<forall>i < n. dpc (tmr s) i = cpu_dev (c_pc (cpus s ! i))) \<and> dpc (tmr s) n = ld_dev (l_pc s)"

lemma linked_boot: "linked (nat (num_cpus (e_cfg en))) (main_setup en mr ms)"
  by (auto simp: linked_def main_setup_def Let_def boot_timer_fields cpu_dev_def ld_dev_def)

lemma timer_routine_fields: "timer_routine t = Some t' \<Longrightarrow> dpc t' = dpc t \<and> dev_list t' = dev_list t"
  by (auto simp: timer_routine_def split: timer_pc.splits list.splits if_splits)

text \<open>
  What a step does to the barrier: some events \<open>evs\<close> of it. If CPU \<open>i\<close> executes \<open>k i\<close> instructions in the
  step, it is then at the end of its slot, and it leaves that point only by calling \<^verbatim>\<open>next_slot\<close>.
\<close>

definition at_end :: "os_t \<Rightarrow> nat \<Rightarrow> nat" where
  "at_end s i = of_bool (c_pc (cpus s ! i) = Slot_end)"

definition barrier_step :: "nat \<Rightarrow> (nat \<Rightarrow> nat) \<Rightarrow> os_t \<Rightarrow> os_t \<Rightarrow> bool" where
  "barrier_step n k s s' \<longleftrightarrow> linked n s' \<and> (\<exists>evs. timer_exec evs (tmr s) = Some (tmr s') \<and>
     (\<forall>i < n. k i + at_end s i \<le> slot_calls evs i + at_end s' i))"

lemma barrier_step_refl: "linked n s \<Longrightarrow> barrier_step n (\<lambda>_. 0) s s"
  by (auto simp: barrier_step_def intro!: exI [of _ "[]"])

lemma barrier_step_trans:
  assumes "barrier_step n k s s1" "barrier_step n k' s1 s2"
  shows "barrier_step n (\<lambda>i. k i + k' i) s s2"
proof -
  from assms obtain evs evs' where E: "timer_exec evs (tmr s) = Some (tmr s1)" "timer_exec evs' (tmr s1) = Some (tmr s2)"
      "\<forall>i < n. k i + at_end s i \<le> slot_calls evs i + at_end s1 i" "\<forall>i < n. k' i + at_end s1 i \<le> slot_calls evs' i + at_end s2 i"
    unfolding barrier_step_def by blast
  have "k i + k' i + at_end s i \<le> slot_calls (evs @ evs') i + at_end s2 i" if "i < n" for i
    using E(3) [rule_format, OF that] E(4) [rule_format, OF that] by (simp add: slot_calls_def)
  moreover have "timer_exec (evs @ evs') (tmr s) = Some (tmr s2)" using E(1,2) by (simp add: timer_exec_append)
  ultimately show ?thesis using assms(2) unfolding barrier_step_def by blast
qed

definition runs_inst :: "os_event \<Rightarrow> os_t \<Rightarrow> nat \<Rightarrow> nat" where
  "runs_inst e s i = of_bool (e = E_cpu i \<and> i < length (cpus s) \<and> c_pc (cpus s ! i) = Run_inst)"

text \<open>
  A step of a CPU: either the timer is untouched and the CPU stays in its own code, or it is one
  event of the barrier.
\<close>

lemma cpu_local:
  assumes "linked n s" "i < n" "cpu_dev (c_pc (cpus s ! i)) = Working" "cpu_dev (c_pc c) = Working"
    and "tmr s' = tmr s" "cpus s' = (cpus s)[i := c]" "l_pc s' = l_pc s"
    and "runs_inst (E_cpu i) s i + at_end s i \<le> of_bool (c_pc c = Slot_end)"
  shows "barrier_step n (runs_inst (E_cpu i) s) s s'"
proof -
  have "linked n s'" using assms(1-7) by (auto simp: linked_def nth_list_update)
  moreover have "runs_inst (E_cpu i) s j + at_end s j \<le> slot_calls [] j + at_end s' j" if "j < n" for j
    using assms(8) that assms(1) by (cases "j = i") (auto simp: linked_def at_end_def runs_inst_def slot_calls_def assms(6))
  ultimately show ?thesis unfolding barrier_step_def using assms(5) by (metis timer_exec.simps(1))
qed

lemma cpu_event:
  assumes "linked n s" "i < n" "timer_do ev (tmr s) = Some t" "dpc t = (dpc (tmr s))(i := cpu_dev (c_pc c))"
    and "tmr s' = t" "cpus s' = (cpus s)[i := c]" "l_pc s' = l_pc s"
    and "c_pc (cpus s ! i) \<noteq> Run_inst" "c_pc (cpus s ! i) = Slot_end \<Longrightarrow> ev = Signal i"
  shows "barrier_step n (runs_inst (E_cpu i) s) s s'"
proof -
  have "linked n s'" using assms(1-7) timer_do_list [OF assms(3)] by (auto simp: linked_def nth_list_update)
  moreover have "runs_inst (E_cpu i) s j + at_end s j \<le> slot_calls [ev] j + at_end s' j" if "j < n" for j
    using assms(8,9) that assms(1) by (cases "j = i") (auto simp: linked_def at_end_def runs_inst_def slot_calls_def assms(6))
  moreover have "timer_exec [ev] (tmr s) = Some (tmr s')" using assms(3,5) by simp
  ultimately show ?thesis unfolding barrier_step_def by blast
qed

lemma linked_cpu:
  assumes L: "linked n s" and r: "cpu_routine en i s = Next s'"
  shows "barrier_step n (runs_inst (E_cpu i) s) s s'"
proof -
  have i: "i < n" "i < length (cpus s)" using L r by (auto simp: cpu_routine_def linked_def split: if_splits)
  have d: "dpc (tmr s) i = cpu_dev (c_pc (cpus s ! i))" "i \<in> set (dev_list (tmr s))" using L i by (simp_all add: linked_def)
  show ?thesis
  proof (cases "c_pc (cpus s ! i)")
    case Top
    with r i obtain c where "tmr s' = tmr s" "cpus s' = (cpus s)[i := c]" "l_pc s' = l_pc s" "cpu_dev (c_pc c) = Working"
      by (auto simp: cpu_routine_def cpu_top_def set_cpu_def set_sched_def free_proc_def cpu_dev_def Let_def
          split: option.splits prod.splits if_splits)
    then show ?thesis using cpu_local [OF L i(1)] Top by (simp add: cpu_dev_def runs_inst_def at_end_def)
  next
    case (Refetch b)
    with r i obtain c where "tmr s' = tmr s" "cpus s' = (cpus s)[i := c]" "l_pc s' = l_pc s" "cpu_dev (c_pc c) = Working"
      by (auto simp: cpu_routine_def cpu_refetch_def set_cpu_def set_sched_def cpu_dev_def Let_def split: prod.splits)
    then show ?thesis using cpu_local [OF L i(1)] Refetch by (simp add: cpu_dev_def runs_inst_def at_end_def)
  next
    case Recheck
    with r i obtain c where "tmr s' = tmr s" "cpus s' = (cpus s)[i := c]" "l_pc s' = l_pc s" "cpu_dev (c_pc c) = Working"
      by (auto simp: cpu_routine_def cpu_recheck_def set_cpu_def Let_def cpu_dev_def split: if_splits)
    then show ?thesis using cpu_local [OF L i(1)] Recheck by (simp add: cpu_dev_def runs_inst_def at_end_def)
  next
    case Run_inst
    with r i obtain c where "tmr s' = tmr s" "cpus s' = (cpus s)[i := c]" "l_pc s' = l_pc s" "c_pc c = Slot_end"
      by (auto simp: cpu_routine_def cpu_run_def set_cpu_def cpu_dev_def Let_def split: option.splits prod.splits)
    then show ?thesis using cpu_local [OF L i(1), of c s'] Run_inst by (simp add: cpu_dev_def runs_inst_def at_end_def)
  next
    case Slot_end
    have "timer_do (Signal i) (tmr s) = Some (next_slot_signal i (tmr s))" using d Slot_end by (simp add: cpu_dev_def)
    from cpu_event [OF L i(1) this, of "(cpus s ! i)\<lparr>c_pc := Sleeping\<rparr>" s'] show ?thesis
      using r i Slot_end by (auto simp: cpu_routine_def set_cpu_def next_slot_signal_def cpu_dev_def)
  next
    case Sleeping
    with r i obtain t where t: "next_slot_wake i (tmr s) = Some t"
      "s' = set_cpu i ((cpus s ! i)\<lparr>c_pc := Top\<rparr>) (s\<lparr>tmr := t\<rparr>)" by (auto simp: cpu_routine_def split: option.splits)
    then have "timer_do (Wake i) (tmr s) = Some t" using d Sleeping by (simp add: cpu_dev_def)
    from cpu_event [OF L i(1) this, of "(cpus s ! i)\<lparr>c_pc := Top\<rparr>" s'] show ?thesis
      using t Sleeping by (auto simp: set_cpu_def next_slot_wake_def cpu_dev_def split: if_splits)
  next
    case Leaving
    have "timer_do (Detach i) (tmr s) = Some (detach_event i (tmr s))" using d Leaving by (simp add: cpu_dev_def)
    from cpu_event [OF L i(1) this, of "(cpus s ! i)\<lparr>c_pc := Stopped\<rparr>" s'] show ?thesis
      using r i Leaving by (auto simp: cpu_routine_def set_cpu_def detach_event_def cpu_dev_def)
  next
    case Stopped
    then show ?thesis using r i by (simp add: cpu_routine_def)
  qed
qed

lemma ld_event:
  assumes "linked n s" "timer_do ev (tmr s) = Some t" "dpc t = (dpc (tmr s))(n := ld_dev (l_pc s'))"
    and "tmr s' = t" "cpus s' = cpus s"
  shows "barrier_step n (\<lambda>_. 0) s s'"
proof -
  have "linked n s'" using assms timer_do_list [OF assms(2)] by (auto simp: linked_def)
  moreover have "at_end s j \<le> slot_calls [ev] j + at_end s' j" for j by (simp add: at_end_def assms(5))
  moreover have "timer_exec [ev] (tmr s) = Some (tmr s')" using assms(2,4) by simp
  ultimately show ?thesis unfolding barrier_step_def add_0 by blast
qed

lemma ld_local:
  assumes "linked n s" "ld_dev (l_pc s) = Working" "ld_dev (l_pc s') = Working" "tmr s' = tmr s" "cpus s' = cpus s"
  shows "barrier_step n (\<lambda>_. 0) s s'"
  using assms by (auto simp: barrier_step_def linked_def at_end_def intro!: exI [of _ "[]"])

lemma linked_ld:
  assumes L: "linked n s" and r: "ld_routine en q s = Next s'"
  shows "barrier_step n (\<lambda>_. 0) s s'"
proof -
  have d: "dpc (tmr s) n = ld_dev (l_pc s)" "n \<in> set (dev_list (tmr s))" "length (cpus s) = n" using L by (simp_all add: linked_def)
  have sig: ?thesis if "ld_dev (l_pc s) = Working" "s' = s\<lparr>tmr := next_slot_signal n (tmr s), l_pc := x\<rparr>" "ld_dev x = Waiting" for x
  proof -
    have "timer_do (Signal n) (tmr s) = Some (next_slot_signal n (tmr s))" using d that(1) by simp
    from ld_event [OF L this, of s'] that(2,3) show ?thesis by (simp add: next_slot_signal_def)
  qed
  have wake: ?thesis
    if "next_slot_wake n (tmr s) = Some t" "ld_dev (l_pc s) = Waiting" "s' = s\<lparr>tmr := t, l_pc := x\<rparr>" "ld_dev x = Working" for t x
  proof -
    have ev: "timer_do (Wake n) (tmr s) = Some t" using d that(1,2) by simp
    have "dpc t = (dpc (tmr s))(n := Working)" using that(1) by (auto simp: next_slot_wake_def split: if_splits)
    with ld_event [OF L ev, of s'] that(3,4) show ?thesis by simp
  qed
  show ?thesis
  proof (cases "l_pc s")
    case L_top
    with r have "tmr s' = tmr s" "cpus s' = cpus s" "ld_dev (l_pc s') = Working"
      by (auto simp: ld_routine_def ld_load_def ld_dev_def split: if_splits option.splits prod.splits outcome.splits)
    then show ?thesis using ld_local [OF L] L_top by (simp add: ld_dev_def)
  next
    case L_wait
    show ?thesis
    proof (cases "current_time (tmr s) < ld_start (e_cfg en) ! l_i s")
      case True
      then show ?thesis using r L_wait sig [of L_wait_sleep] d(3) by (auto simp: ld_routine_def ld_dev_def)
    next
      case False
      with r L_wait have "tmr s' = tmr s" "cpus s' = cpus s" "ld_dev (l_pc s') = Working"
        by (auto simp: ld_routine_def ld_add_def ld_dev_def split: option.splits prod.splits)
      then show ?thesis using ld_local [OF L] L_wait by (simp add: ld_dev_def)
    qed
  next
    case L_wait_sleep
    then show ?thesis using r wake [of _ L_wait] d(3) by (auto simp: ld_routine_def ld_dev_def split: option.splits)
  next
    case L_slot
    then show ?thesis using r sig [of L_sleep] d(3) by (auto simp: ld_routine_def ld_dev_def)
  next
    case L_sleep
    then show ?thesis using r wake [of _ L_top] d(3) by (auto simp: ld_routine_def ld_dev_def split: option.splits)
  next
    case L_leaving
    have "timer_do (Detach n) (tmr s) = Some (detach_event n (tmr s))" using d L_leaving by (simp add: ld_dev_def)
    from ld_event [OF L this, of s'] show ?thesis
      using r L_leaving d(3) by (auto simp: ld_routine_def detach_event_def ld_dev_def)
  next
    case L_stopped
    then show ?thesis using r by (simp add: ld_routine_def)
  qed
qed

lemma linked_do:
  assumes L: "linked n s" and r: "os_do en e s = Next s'"
  shows "barrier_step n (runs_inst e s) s s'"
proof (cases e)
  case E_timer
  then obtain t where t: "timer_routine (tmr s) = Some t" "s' = s\<lparr>tmr := t\<rparr>"
    using r by (auto simp: os_do_def split: option.splits)
  then have "timer_exec [Timer_step] (tmr s) = Some (tmr s')" by simp
  moreover have "linked n s'" using L timer_routine_fields [OF t(1)] t(2) by (simp add: linked_def)
  moreover have "runs_inst e s i + at_end s i \<le> slot_calls [Timer_step] i + at_end s' i" for i
    using t(2) by (simp add: runs_inst_def E_timer at_end_def)
  ultimately show ?thesis unfolding barrier_step_def by blast
next
  case (E_cpu i)
  then show ?thesis using linked_cpu [OF L] r by (simp add: os_do_def)
next
  case (E_ld q)
  then have "runs_inst e s = (\<lambda>_. 0)" by (auto simp: runs_inst_def)
  then show ?thesis using linked_ld [OF L] r E_ld by (simp add: os_do_def)
qed

text \<open>The instructions CPU \<open>i\<close> executes in a run.\<close>

fun insts_run :: "os_env \<Rightarrow> os_event list \<Rightarrow> os_t \<Rightarrow> nat \<Rightarrow> nat" where
  "insts_run en [] s i = 0"
| "insts_run en (e # es) s i =
     (case os_do en e s of
        Next s' \<Rightarrow> runs_inst e s i + insts_run en es s' i
      | Blocked \<Rightarrow> insts_run en es s i
      | _ \<Rightarrow> 0)"

lemma linked_exec:
  "os_exec en es s = Next s' \<Longrightarrow> linked n s \<Longrightarrow> barrier_step n (insts_run en es s) s s'"
proof (induction es arbitrary: s)
  case Nil
  then show ?case using barrier_step_refl by simp
next
  case (Cons e es)
  show ?case
  proof (cases "os_do en e s")
    case (Next s1)
    have st: "barrier_step n (runs_inst e s) s s1" by (rule linked_do [OF Cons.prems(2) Next])
    then have "barrier_step n (insts_run en es s1) s1 s'"
      using Cons.IH [of s1] Cons.prems(1) Next by (simp add: barrier_step_def)
    from barrier_step_trans [OF st this] show ?thesis using Next by simp
  qed (use Cons in auto)
qed

section \<open>Properties of the system with its timer\<close>



lemma os_exec_timer:
  "timer_exec (replicate k Timer_step) (tmr s) = Some t \<Longrightarrow> os_exec en (replicate k E_timer) s = Next (s\<lparr>tmr := t\<rparr>)"
proof (induction k arbitrary: s)
  case (Suc k)
  then obtain t1 where "timer_routine (tmr s) = Some t1" "timer_exec (replicate k Timer_step) t1 = Some t"
    by (auto split: option.splits)
  then show ?case using Suc.IH [of "s\<lparr>tmr := t1\<rparr>"] by (simp add: os_do_def)
qed simp

lemma cpu_working_enabled:
  "i < length (cpus s) \<Longrightarrow> cpu_dev (c_pc (cpus s ! i)) = Working \<Longrightarrow> cpu_routine en i s \<noteq> Blocked"
  by (cases "c_pc (cpus s ! i)")
    (auto simp: cpu_dev_def cpu_routine_def cpu_top_def cpu_refetch_def cpu_recheck_def cpu_run_def Let_def
      split: option.splits prod.splits)

lemma ld_working_enabled:
  "ld_dev (l_pc s) = Working \<Longrightarrow> procs (wld s) q = None \<Longrightarrow> ld_routine en q s \<noteq> Blocked"
  by (cases "l_pc s")
    (auto simp: ld_dev_def ld_routine_def ld_load_def ld_add_def Let_def split: option.splits prod.splits outcome.splits)

lemma progress:
  assumes "os_exec en es (main_setup en mr ms) = Next s" "n = nat (num_cpus (e_cfg en))"
    and "\<not> all_joined s" "procs (wld s) q = None"
  shows "\<exists>k s'. k \<le> 3 * n + 7 \<and> os_exec en (replicate k E_timer) s = Next s' \<and>
    (os_do en (E_ld q) s' \<noteq> Blocked \<or> (\<exists>i < n. os_do en (E_cpu i) s' \<noteq> Blocked))"
proof -
  have t: "tmr (main_setup en mr ms) = boot_timer (Suc n)" by (simp add: main_setup_def Let_def assms(2))
  from linked_exec [OF assms(1) linked_boot] assms(2) t obtain tes where
    L: "linked n s" "timer_exec tes (boot_timer (Suc n)) = Some (tmr s)" unfolding barrier_step_def by auto
  have len: "length (cpus s) = n" and ds: "set (dev_list (tmr s)) = {..<Suc n}"
    and dc: "\<And>i. i < n \<Longrightarrow> dpc (tmr s) i = cpu_dev (c_pc (cpus s ! i))" and dl: "dpc (tmr s) n = ld_dev (l_pc s)"
    using L(1) by (simp_all add: linked_def)
  show ?thesis
  proof (cases "\<forall>d < Suc n. dpc (tmr s) d \<noteq> Working")
    case False
    then obtain d where d: "d < Suc n" "dpc (tmr s) d = Working" by blast
    then have "os_do en (E_ld q) s \<noteq> Blocked \<or> (\<exists>i < n. os_do en (E_cpu i) s \<noteq> Blocked)"
      using cpu_working_enabled [of d s en] ld_working_enabled [of s q en] dc dl len assms(4)
      by (cases "d = n") (auto simp: os_do_def less_Suc_eq)
    then show ?thesis by (intro exI [of _ 0] exI [of _ s]) simp
  next
    case True
    have "\<exists>x < Suc n. dpc (tmr s) x = Waiting"
    proof (rule ccontr)
      assume "\<not> ?thesis"
      then have D: "dpc (tmr s) x = Detached" if "x < Suc n" for x using True that by (cases "dpc (tmr s) x") auto
      have "c_pc (cpus s ! i) = Stopped" if "i < n" for i
        using D [of i] dc [OF that] that by (cases "c_pc (cpus s ! i)") (auto simp: cpu_dev_def)
      moreover have "l_pc s = L_stopped" using D [of n] dl by (cases "l_pc s") (auto simp: ld_dev_def)
      ultimately show False using assms(3) len by (auto simp: all_joined_def in_set_conv_nth)
    qed
    then obtain x where x: "x < Suc n" "dpc (tmr s) x = Waiting" by blast
    from never_stuck [OF L(2) True x] obtain k t' d where
      K: "k \<le> 3 * Suc n + 4" "timer_exec (replicate k Timer_step) (tmr s) = Some t'" "d < Suc n" "timer_do (Wake d) t' \<noteq> None"
      by blast
    let ?s = "s\<lparr>tmr := t'\<rparr>"
    have X: "os_exec en (replicate k E_timer) s = Next ?s" by (rule os_exec_timer [OF K(2)])
    have L': "linked n ?s" using linked_exec [OF X L(1)] by (simp add: barrier_step_def)
    have W: "dpc t' d = Waiting" "next_slot_wake d t' \<noteq> None" using K(4) by (auto split: if_splits)
    have "os_do en (E_ld q) ?s \<noteq> Blocked \<or> (\<exists>i < n. os_do en (E_cpu i) ?s \<noteq> Blocked)"
    proof (cases "d = n")
      case True
      then have "ld_dev (l_pc s) = Waiting" using L' W(1) by (simp add: linked_def)
      then show ?thesis using W(2) True len
        by (cases "l_pc s") (auto simp: os_do_def ld_routine_def ld_dev_def split: option.splits)
    next
      case False
      then have "d < n" using K(3) by simp
      moreover have "cpu_dev (c_pc (cpus s ! d)) = Waiting" using L' W(1) \<open>d < n\<close> by (simp add: linked_def)
      ultimately have "os_do en (E_cpu d) ?s \<noteq> Blocked" using W(2) len
        by (cases "c_pc (cpus s ! d)") (auto simp: os_do_def cpu_routine_def cpu_dev_def split: option.splits)
      then show ?thesis using \<open>d < n\<close> by blast
    qed
    then show ?thesis using K(1) X by (intro exI [of _ k] exI [of _ ?s]) simp
  qed
qed

text \<open>
  C23 (system_makes_progress): the system never deadlocks. As long as some CPU or the loader has not
  ended, at most \<open>3 n + 7\<close> steps of the timer alone bring it to a state where some CPU or the loader
  can take a step.
\<close>

theorem system_makes_progress:
  assumes "os_exec en es (main_setup en mr ms) = Next s" "n = nat (num_cpus (e_cfg en))"
    and "\<not> all_joined s" "procs (wld s) q = None"
  shows "\<exists>k s'. k \<le> 3 * n + 7 \<and> os_exec en (replicate k E_timer) s = Next s' \<and>
    (os_do en (E_ld q) s' \<noteq> Blocked \<or> (\<exists>i < n. os_do en (E_cpu i) s' \<noteq> Blocked))"
  using assms by (rule progress)

theorem system_makes_progress_witness:
  "\<exists>s k s'. os_exec demo_env [E_ld 7, E_ld 7, E_cpu 0] (main_setup demo_env demo_ram demo_ram) = Next s \<and> k \<le> 13 \<and>
     os_exec demo_env (replicate k E_timer) s = Next s' \<and>
     (os_do demo_env (E_ld 8) s' \<noteq> Blocked \<or> (\<exists>i < 2. os_do demo_env (E_cpu i) s' \<noteq> Blocked))"
proof -
  obtain s where s: "os_exec demo_env [E_ld 7, E_ld 7, E_cpu 0] (main_setup demo_env demo_ram demo_ram) = Next s"
    "\<not> all_joined s" "procs (wld s) 8 = None" using demo_running by blast
  have "2 = nat (num_cpus (e_cfg demo_env))" by (simp add: demo_env_def demo_cfg_def)
  from system_makes_progress [OF s(1) this s(2,3)] s(1) show ?thesis by auto
qed

section \<open>Idle CPUs\<close>

text \<open>
  A CPU without a process at its loop head or in its waiting; and a system in which nothing is left
  to do: the loader is done, no process is ready, and no CPU has one.
\<close>

definition idle_cpu :: "cpu_t \<Rightarrow> bool" where
  "idle_cpu c \<longleftrightarrow> c_proc c = None \<and> (c_pc c = Top \<or> c_pc c = Slot_end \<or> c_pc c = Sleeping)"

definition nothing_left :: "os_t \<Rightarrow> bool" where
  "nothing_left s \<longleftrightarrow> sched_inv (sched (wld s)) \<and> ready_procs (sched (wld s)) = {#} \<and>
     (l_pc s = L_leaving \<or> l_pc s = L_stopped) \<and>
     (\<forall>c \<in> set (cpus s). idle_cpu c \<or> c_pc c = Leaving \<or> c_pc c = Stopped)"

lemma nothing_left_set_cpu:
  assumes "nothing_left s" "i < length (cpus s)" "cpus s' = (cpus s)[i := c]" "wld s' = wld s \<or> nothing_left s'" "l_pc s' = l_pc s"
    and "idle_cpu (cpus s ! i) \<Longrightarrow> idle_cpu c" "idle_cpu c \<or> c_pc c = Leaving \<or> c_pc c = Stopped"
  shows "nothing_left s' \<and> (\<forall>j < length (cpus s). idle_cpu (cpus s ! j) \<longrightarrow> idle_cpu (cpus s' ! j))"
  using assms by (auto simp: nothing_left_def nth_list_update dest!: set_update_subset_insert [THEN subsetD])

lemma get_nothing:
  assumes "nothing_left s" "get_proc (sched (wld s)) = (po, sc)"
  shows "po = None" "sched_inv sc" "ready_procs sc = {#}"
proof -
  have i: "sched_inv (sched (wld s))" "ready_procs (sched (wld s)) = {#}" using assms(1) by (simp_all add: nothing_left_def)
  from pool.take_owned [OF i(1) assms(2)] i(2) show "ready_procs sc = {#}" "po = None" by (cases po; simp)+
  show "sched_inv sc" using pool.invar_get [OF i(1)] assms(2) by simp
qed

lemma nothing_left_cpu:
  assumes N: "nothing_left s" and i: "i < length (cpus s)"
  shows "cpu_routine en i s = Blocked \<or> (\<exists>s'. cpu_routine en i s = Next s' \<and> nothing_left s' \<and>
    length (cpus s') = length (cpus s) \<and> (\<forall>j < length (cpus s). idle_cpu (cpus s ! j) \<longrightarrow> idle_cpu (cpus s' ! j)))"
proof -
  have c: "idle_cpu (cpus s ! i) \<or> c_pc (cpus s ! i) = Leaving \<or> c_pc (cpus s ! i) = Stopped" using N i by (simp add: nothing_left_def)
  have step: "\<exists>s'. Next (set_cpu i ((cpus s ! i)\<lparr>c_pc := x\<rparr>) (s\<lparr>tmr := t\<rparr>)) = Next s' \<and> nothing_left s' \<and>
      length (cpus s') = length (cpus s) \<and> (\<forall>j < length (cpus s). idle_cpu (cpus s ! j) \<longrightarrow> idle_cpu (cpus s' ! j))"
    if "idle_cpu (cpus s ! i) \<Longrightarrow> idle_cpu ((cpus s ! i)\<lparr>c_pc := x\<rparr>)"
      "idle_cpu ((cpus s ! i)\<lparr>c_pc := x\<rparr>) \<or> x = Leaving \<or> x = Stopped" for x t
    using nothing_left_set_cpu [OF N i, of "set_cpu i ((cpus s ! i)\<lparr>c_pc := x\<rparr>) (s\<lparr>tmr := t\<rparr>)" "(cpus s ! i)\<lparr>c_pc := x\<rparr>"] that
    by (simp add: set_cpu_def)
  show ?thesis
  proof (cases "c_pc (cpus s ! i)")
    case Top
    then have n: "c_proc (cpus s ! i) = None" using c by (simp add: idle_cpu_def)
    obtain po sc where g: "get_proc (sched (wld s)) = (po, sc)" by (cases "get_proc (sched (wld s))")
    note G = get_nothing [OF N g]
    let ?c = "(cpus s ! i)\<lparr>c_proc := None, c_pc := Slot_end\<rparr>"
    let ?s = "set_cpu i ?c (set_sched sc s)"
    have "nothing_left ?s" using N G i
      by (auto simp: nothing_left_def set_cpu_def set_sched_def idle_cpu_def dest!: set_update_subset_insert [THEN subsetD])
    then have "nothing_left ?s \<and> (\<forall>j < length (cpus s). idle_cpu (cpus s ! j) \<longrightarrow> idle_cpu (cpus ?s ! j))"
      using i by (auto simp: set_cpu_def set_sched_def nth_list_update idle_cpu_def)
    then show ?thesis using Top n g G(1) i by (simp add: cpu_routine_def cpu_top_def) (simp add: set_cpu_def set_sched_def)
  next
    case Slot_end
    then show ?thesis using c i step [of Sleeping] by (simp add: cpu_routine_def idle_cpu_def)
  next
    case Sleeping
    then show ?thesis using c i step [of Top] by (cases "next_slot_wake i (tmr s)") (simp_all add: cpu_routine_def idle_cpu_def)
  next
    case Leaving
    then show ?thesis using i step [of Stopped] by (simp add: cpu_routine_def idle_cpu_def)
  next
    case Stopped
    then show ?thesis using i by (simp add: cpu_routine_def)
  qed (use c in \<open>simp_all add: idle_cpu_def\<close>)
qed

lemma nothing_left_do:
  assumes N: "nothing_left s"
  shows "os_do en e s = Blocked \<or> (\<exists>s'. os_do en e s = Next s' \<and> nothing_left s' \<and>
    length (cpus s') = length (cpus s) \<and> (\<forall>j < length (cpus s). idle_cpu (cpus s ! j) \<longrightarrow> idle_cpu (cpus s' ! j)))"
proof (cases e)
  case E_timer
  then show ?thesis using N by (cases "timer_routine (tmr s)") (simp_all add: os_do_def nothing_left_def)
next
  case (E_cpu i)
  then show ?thesis using nothing_left_cpu [OF N, of i en]
    by (cases "i < length (cpus s)") (simp_all add: os_do_def cpu_routine_def)
next
  case (E_ld q)
  then show ?thesis using N by (auto simp: os_do_def ld_routine_def nothing_left_def)
qed

text \<open>
  C26 (idle_cpu_never_stops): once nothing is left to do, a CPU that is idle at its loop head stays idle
  for ever: \<^verbatim>\<open>cpu_routine\<close> tests the flag \<^verbatim>\<open>done\<close> only after it had a process, so the thread never ends and
  the join in \<^verbatim>\<open>main\<close> never returns, whatever the threads do from there on.
\<close>

theorem idle_cpu_never_stops:
  assumes "nothing_left s" "i < length (cpus s)" "idle_cpu (cpus s ! i)"
  shows "\<exists>s'. os_exec en es s = Next s' \<and> idle_cpu (cpus s' ! i) \<and> \<not> all_joined s'"
  using assms
proof (induction es arbitrary: s)
  case Nil
  then have "cpus s ! i \<in> set (cpus s)" "c_pc (cpus s ! i) \<noteq> Stopped" by (auto simp: idle_cpu_def)
  then show ?case using Nil by (auto simp: all_joined_def)
next
  case (Cons e es)
  from nothing_left_do [OF Cons.prems(1), of en e] Cons show ?case by auto
qed

definition no_process_env :: os_env where
  "no_process_env = demo_env\<lparr>e_cfg := demo_cfg\<lparr>num_processes := 0\<rparr>\<rparr>"

theorem idle_cpu_never_stops_witness:
  "\<exists>s s'. os_exec no_process_env [E_ld 0] (main_setup no_process_env demo_ram demo_ram) = Next s \<and> os_done s \<and>
     os_exec no_process_env [E_cpu 0, E_cpu 0, E_cpu 1, E_timer, E_timer] s = Next s' \<and> \<not> all_joined s'"
proof -
  let ?s = "(main_setup no_process_env demo_ram demo_ram)\<lparr>os_done := True, l_pc := L_leaving\<rparr>"
  have c: "e_cfg no_process_env = demo_cfg\<lparr>num_processes := 0\<rparr>" by (simp add: no_process_env_def)
  have r: "os_exec no_process_env [E_ld 0] (main_setup no_process_env demo_ram demo_ram) = Next ?s"
    by (simp add: os_do_def ld_routine_def ld_load_def main_setup_def Let_def c)
  have "nothing_left ?s" "0 < length (cpus ?s)" "idle_cpu (cpus ?s ! 0)"
    by (simp_all add: nothing_left_def main_setup_def Let_def c demo_cfg_def sched_inv_init sched_inv_zero ready_init idle_cpu_def)
  from idle_cpu_never_stops [OF this] obtain s' where
    "os_exec no_process_env [E_cpu 0, E_cpu 0, E_cpu 1, E_timer, E_timer] ?s = Next s'" "\<not> all_joined s'" by blast
  moreover have "os_done ?s" by simp
  ultimately show ?thesis using r by blast
qed

end
