(* ===== verification/OsStep.thy ===== *)
theory OsStep
  imports OsTimer
begin

text \<open>
  The steps of a CPU and of the loader as relations, one rule for every path through the loop of
  \<^verbatim>\<open>cpu_routine\<close> and \<^verbatim>\<open>ld_routine\<close> (\<^verbatim>\<open>src/src/os.c\<close>). They are what the functions of \<open>Os\<close> do, and the
  invariants of the system are shown by cases on their rules.
\<close>

section \<open>The rules\<close>

inductive cpu_step :: "os_env \<Rightarrow> nat \<Rightarrow> os_t \<Rightarrow> os_t \<Rightarrow> bool" for en i s where
  take: "i < length (cpus s) \<Longrightarrow> c = cpus s ! i \<Longrightarrow> c_pc c = Top \<Longrightarrow> c_proc c = None \<Longrightarrow>
    get_proc (sched (wld s)) = (po, sc) \<Longrightarrow>
    s' = set_cpu i (c\<lparr>c_proc := po, c_pc := if po = None then Slot_end else Recheck\<rparr>) (set_sched sc s) \<Longrightarrow> cpu_step en i s s'"
| finish: "i < length (cpus s) \<Longrightarrow> c = cpus s ! i \<Longrightarrow> c_pc c = Top \<Longrightarrow> c_proc c = Some p \<Longrightarrow> procs (wld s) p = Some pr \<Longrightarrow>
    pc (pcb pr) = cs_size (code (pcb pr)) \<Longrightarrow>
    s' = set_cpu i (c\<lparr>c_proc := None, c_pc := Refetch True\<rparr>) (free_proc p s) \<Longrightarrow> cpu_step en i s s'"
| give: "i < length (cpus s) \<Longrightarrow> c = cpus s ! i \<Longrightarrow> c_pc c = Top \<Longrightarrow> c_proc c = Some p \<Longrightarrow> procs (wld s) p = Some pr \<Longrightarrow>
    pc (pcb pr) \<noteq> cs_size (code (pcb pr)) \<Longrightarrow> time_left c = 0 \<Longrightarrow>
    s' = set_cpu i (c\<lparr>c_proc := None, c_pc := Refetch False\<rparr>)
      (set_sched (put_proc (sched (wld s)) (Some p) (prio (pcb pr))) s) \<Longrightarrow> cpu_step en i s s'"
| keep: "i < length (cpus s) \<Longrightarrow> c = cpus s ! i \<Longrightarrow> c_pc c = Top \<Longrightarrow> c_proc c = Some p \<Longrightarrow> procs (wld s) p = Some pr \<Longrightarrow>
    pc (pcb pr) \<noteq> cs_size (code (pcb pr)) \<Longrightarrow> time_left c \<noteq> 0 \<Longrightarrow>
    s' = set_cpu i (c\<lparr>c_pc := Recheck\<rparr>) s \<Longrightarrow> cpu_step en i s s'"
| refetch: "i < length (cpus s) \<Longrightarrow> c = cpus s ! i \<Longrightarrow> c_pc c = Refetch b \<Longrightarrow> get_proc (sched (wld s)) = (po, sc) \<Longrightarrow>
    s' = set_cpu i (c\<lparr>c_proc := po, time_left := if b then 0 else time_left c, c_pc := Recheck\<rparr>) (set_sched sc s) \<Longrightarrow>
    cpu_step en i s s'"
| leave: "i < length (cpus s) \<Longrightarrow> c = cpus s ! i \<Longrightarrow> c_pc c = Recheck \<Longrightarrow> c_proc c = None \<Longrightarrow> os_done s \<Longrightarrow>
    s' = set_cpu i (c\<lparr>c_pc := Leaving\<rparr>) s \<Longrightarrow> cpu_step en i s s'"
| skip: "i < length (cpus s) \<Longrightarrow> c = cpus s ! i \<Longrightarrow> c_pc c = Recheck \<Longrightarrow> c_proc c = None \<Longrightarrow> \<not> os_done s \<Longrightarrow>
    s' = set_cpu i (c\<lparr>c_pc := Slot_end\<rparr>) s \<Longrightarrow> cpu_step en i s s'"
| dispatch: "i < length (cpus s) \<Longrightarrow> c = cpus s ! i \<Longrightarrow> c_pc c = Recheck \<Longrightarrow> c_proc c = Some p \<Longrightarrow>
    s' = set_cpu i (c\<lparr>time_left := if time_left c = 0 then time_slot (e_cfg en) else time_left c, c_pc := Run_inst\<rparr>) s \<Longrightarrow>
    cpu_step en i s s'"
| execute: "i < length (cpus s) \<Longrightarrow> c = cpus s ! i \<Longrightarrow> c_pc c = Run_inst \<Longrightarrow> c_proc c = Some p \<Longrightarrow>
    run (e_ops en) (wld s) p = Some (r, w) \<Longrightarrow>
    s' = set_cpu i (c\<lparr>time_left := time_left c - 1, c_pc := Slot_end\<rparr>) (s\<lparr>wld := w\<rparr>) \<Longrightarrow> cpu_step en i s s'"
| signal: "i < length (cpus s) \<Longrightarrow> c = cpus s ! i \<Longrightarrow> c_pc c = Slot_end \<Longrightarrow>
    s' = set_cpu i (c\<lparr>c_pc := Sleeping\<rparr>) (s\<lparr>tmr := next_slot_signal i (tmr s)\<rparr>) \<Longrightarrow> cpu_step en i s s'"
| wake: "i < length (cpus s) \<Longrightarrow> c = cpus s ! i \<Longrightarrow> c_pc c = Sleeping \<Longrightarrow> next_slot_wake i (tmr s) = Some t \<Longrightarrow>
    s' = set_cpu i (c\<lparr>c_pc := Top\<rparr>) (s\<lparr>tmr := t\<rparr>) \<Longrightarrow> cpu_step en i s s'"
| detach: "i < length (cpus s) \<Longrightarrow> c = cpus s ! i \<Longrightarrow> c_pc c = Leaving \<Longrightarrow>
    s' = set_cpu i (c\<lparr>c_pc := Stopped\<rparr>) (s\<lparr>tmr := detach_event i (tmr s)\<rparr>) \<Longrightarrow> cpu_step en i s s'"

inductive ld_step :: "os_env \<Rightarrow> proc_ptr \<Rightarrow> os_t \<Rightarrow> os_t \<Rightarrow> bool" for en q s where
  loads: "l_pc s = L_top \<Longrightarrow> int (l_i s) < num_processes (e_cfg en) \<Longrightarrow> procs (wld s) q = None \<Longrightarrow>
    load (e_files en) (e_insts en) (e_block en) (avail_pid s) (ld_path (e_cfg en) ! l_i s) = Some (Returns c, a) \<Longrightarrow>
    s' = s\<lparr>wld := (wld s)\<lparr>procs := (procs (wld s))(q \<mapsto>
             \<lparr>pcb = c\<lparr>prio := ucast (ld_prio (e_cfg en) ! l_i s)\<rparr>, krnl = no_krnl (wld s)\<rparr>)\<rparr>,
           avail_pid := a, l_proc := Some q, l_pc := L_wait\<rparr> \<Longrightarrow> ld_step en q s s'"
| ends: "l_pc s = L_top \<Longrightarrow> \<not> int (l_i s) < num_processes (e_cfg en) \<Longrightarrow>
    s' = s\<lparr>os_done := True, l_pc := L_leaving\<rparr> \<Longrightarrow> ld_step en q s s'"
| waits: "l_pc s = L_wait \<Longrightarrow> current_time (tmr s) < ld_start (e_cfg en) ! l_i s \<Longrightarrow>
    s' = s\<lparr>tmr := next_slot_signal (length (cpus s)) (tmr s), l_pc := L_wait_sleep\<rparr> \<Longrightarrow> ld_step en q s s'"
| adds: "l_pc s = L_wait \<Longrightarrow> \<not> current_time (tmr s) < ld_start (e_cfg en) ! l_i s \<Longrightarrow> l_proc s = Some p \<Longrightarrow>
    procs (wld s) p = Some pr \<Longrightarrow>
    add_proc (sched (wld s)) ((krnl pr)\<lparr>mm := Some (snd (init_mm (e_rgs en))), mram := ram (wld s), active_mswp := swp (wld s)\<rparr>)
      p (prio (pcb pr)) = (sc, k) \<Longrightarrow>
    s' = s\<lparr>wld := (wld s)\<lparr>sched := sc, procs := (procs (wld s))(p \<mapsto> pr\<lparr>krnl := k\<rparr>)\<rparr>,
           l_i := l_i s + 1, l_proc := None, l_pc := L_slot\<rparr> \<Longrightarrow> ld_step en q s s'"
| wakes_wait: "l_pc s = L_wait_sleep \<Longrightarrow> next_slot_wake (length (cpus s)) (tmr s) = Some t \<Longrightarrow>
    s' = s\<lparr>tmr := t, l_pc := L_wait\<rparr> \<Longrightarrow> ld_step en q s s'"
| signals: "l_pc s = L_slot \<Longrightarrow> s' = s\<lparr>tmr := next_slot_signal (length (cpus s)) (tmr s), l_pc := L_sleep\<rparr> \<Longrightarrow> ld_step en q s s'"
| wakes: "l_pc s = L_sleep \<Longrightarrow> next_slot_wake (length (cpus s)) (tmr s) = Some t \<Longrightarrow>
    s' = s\<lparr>tmr := t, l_pc := L_top\<rparr> \<Longrightarrow> ld_step en q s s'"
| detaches: "l_pc s = L_leaving \<Longrightarrow> s' = s\<lparr>tmr := detach_event (length (cpus s)) (tmr s), l_pc := L_stopped\<rparr> \<Longrightarrow> ld_step en q s s'"

section \<open>The rules are the code\<close>

lemma cpu_step_sound: "cpu_routine en i s = Next s' \<Longrightarrow> cpu_step en i s s'"
proof -
  assume r: "cpu_routine en i s = Next s'"
  then have i: "i < length (cpus s)" by (simp add: cpu_routine_def split: if_splits)
  note C = r [unfolded cpu_routine_def, simplified i if_True Let_def]
  show ?thesis
  proof (cases "c_pc (cpus s ! i)")
    case Top
    with C i show ?thesis
      by (auto simp: cpu_top_def split: option.splits prod.splits if_splits intro: take finish give keep)
  next
    case (Refetch b)
    with C i show ?thesis by (auto simp: cpu_refetch_def split: prod.splits intro: refetch)
  next
    case Recheck
    with C i show ?thesis by (auto simp: cpu_recheck_def split: if_splits intro: leave skip dispatch)
  next
    case Run_inst
    with C i show ?thesis by (auto simp: cpu_run_def split: option.splits intro: execute)
  qed (use C i in \<open>auto split: option.splits intro: signal wake detach\<close>)
qed

lemma cpu_step_complete: "cpu_step en i s s' \<Longrightarrow> cpu_routine en i s = Next s'"
  by (induction rule: cpu_step.induct)
    (simp_all add: cpu_routine_def cpu_top_def cpu_refetch_def cpu_recheck_def cpu_run_def Let_def)

lemma ld_step_sound: "ld_routine en q s = Next s' \<Longrightarrow> ld_step en q s s'"
proof (cases "l_pc s")
  case L_top
  moreover assume "ld_routine en q s = Next s'"
  ultimately show ?thesis
    by (auto simp: ld_routine_def ld_load_def split: if_splits option.splits outcome.splits prod.splits intro: loads ends)
next
  case L_wait
  moreover assume "ld_routine en q s = Next s'"
  ultimately show ?thesis
    by (auto simp: ld_routine_def ld_add_def Let_def split: if_splits option.splits prod.splits intro: waits adds)
qed (auto simp: ld_routine_def split: option.splits intro: wakes_wait signals wakes detaches)

lemma ld_step_complete: "ld_step en q s s' \<Longrightarrow> ld_routine en q s = Next s'"
  by (induction rule: ld_step.induct) (simp_all add: ld_routine_def ld_load_def ld_add_def Let_def)

text \<open>
  The rules are exactly the code. A CPU can take a step from one state to another by a rule
  if and only if its routine makes this step, and the same holds for the loader; so every step is
  deterministic once the thread that takes it, and the address of a new process, are chosen.
\<close>

theorem steps_are_the_code:
  "(cpu_step en i s s' \<longleftrightarrow> cpu_routine en i s = Next s') \<and> (ld_step en q s s' \<longleftrightarrow> ld_routine en q s = Next s')"
  using cpu_step_sound cpu_step_complete ld_step_sound ld_step_complete by blast

end
