(* ===== verification/OsWork.thy ===== *)
theory OsWork
  imports OsStep
begin

text \<open>
  The work of the system: whatever the interleaving, no process is lost, and every step of a CPU either
  moves a process or reduces what is left of it. The interface \<open>work_rounds\<close> says how such a system comes to
  its end, \<open>roomy_pool\<close> what the scheduler promises while its queues have room.
\<close>

section \<open>Work done in rounds\<close>

text \<open>
  A system that works in rounds. A run passes over the events that are not enabled; some steps end a
  round. While the system is \<open>busy\<close>, \<open>hope\<close> says that work will still be done in the current round.
\<close>

fun rounds_run :: "('e \<Rightarrow> 's \<Rightarrow> 's option) \<Rightarrow> 'e list \<Rightarrow> 's \<Rightarrow> 's" where
  "rounds_run step [] s = s"
| "rounds_run step (e # es) s = (case step e s of None \<Rightarrow> rounds_run step es s | Some s' \<Rightarrow> rounds_run step es s')"

fun rounds_ended :: "('e \<Rightarrow> 's \<Rightarrow> 's option) \<Rightarrow> ('e \<Rightarrow> 's \<Rightarrow> bool) \<Rightarrow> 'e list \<Rightarrow> 's \<Rightarrow> nat" where
  "rounds_ended step tick [] s = 0"
| "rounds_ended step tick (e # es) s =
     (case step e s of None \<Rightarrow> rounds_ended step tick es s | Some s' \<Rightarrow> of_bool (tick e s) + rounds_ended step tick es s')"

locale work_rounds =
  fixes step :: "'e \<Rightarrow> 's \<Rightarrow> 's option"
    and tick :: "'e \<Rightarrow> 's \<Rightarrow> bool"
    and inv busy hope :: "'s \<Rightarrow> bool"
    and work :: "'s \<Rightarrow> nat"
  assumes inv_step: "inv s \<Longrightarrow> step e s = Some s' \<Longrightarrow> inv s'"
    and work_step: "inv s \<Longrightarrow> step e s = Some s' \<Longrightarrow> work s' \<le> work s"
    and hope_step: "inv s \<Longrightarrow> step e s = Some s' \<Longrightarrow> \<not> tick e s \<Longrightarrow> hope s \<Longrightarrow> hope s' \<or> work s' < work s"
    and hope_last: "inv s \<Longrightarrow> step e s = Some s' \<Longrightarrow> tick e s \<Longrightarrow> \<not> hope s"
    and hope_next: "inv s \<Longrightarrow> step e s = Some s' \<Longrightarrow> tick e s \<Longrightarrow> busy s' \<Longrightarrow> hope s'"
    and busy_step: "inv s \<Longrightarrow> step e s = Some s' \<Longrightarrow> busy s' \<Longrightarrow> busy s"
    and busy_work: "inv s \<Longrightarrow> busy s \<Longrightarrow> 0 < work s"
begin

lemma inv_run: "inv s \<Longrightarrow> inv (rounds_run step es s)"
  by (induction es arbitrary: s) (auto split: option.splits intro: inv_step)

text \<open>With a budget of \<open>n\<close> rounds: the work fits the rounds that are left.\<close>

lemma budget:
  assumes "inv s" "busy s \<Longrightarrow> work s < n \<or> work s \<le> n \<and> hope s"
  shows "busy (rounds_run step es s) \<Longrightarrow> rounds_ended step tick es s < n"
  using assms
proof (induction es arbitrary: s n)
  case Nil
  then show ?case using busy_work [of s] by auto
next
  case (Cons e es)
  show ?case
  proof (cases "step e s")
    case None
    then show ?thesis using Cons by simp
  next
    case (Some s')
    have i: "inv s'" by (rule inv_step [OF Cons.prems(2) Some])
    have w: "work s' \<le> work s" by (rule work_step [OF Cons.prems(2) Some])
    have b: "busy s" if "busy s'" using busy_step [OF Cons.prems(2) Some that] .
    have r: "busy (rounds_run step es s')" using Cons.prems(1) Some by simp
    show ?thesis
    proof (cases "tick e s")
      case False
      then have "rounds_ended step tick es s' < n"
        using b w hope_step [OF Cons.prems(2) Some False] Cons.prems(3) by (intro Cons.IH [OF r i]) fastforce
      then show ?thesis using Some False by simp
    next
      case True
      have h: "\<not> hope s" by (rule hope_last [OF Cons.prems(2) Some True])
      have "rounds_ended step tick es s' < n - 1"
        using b w h hope_next [OF Cons.prems(2) Some True] Cons.prems(3) by (intro Cons.IH [OF r i]) fastforce
      then show ?thesis using Some True by auto
    qed
  qed
qed

lemma done_after: "inv s \<Longrightarrow> work s < rounds_ended step tick es s \<Longrightarrow> \<not> busy (rounds_run step es s)"
  using budget [of s "Suc (work s)" es] by auto

end

section \<open>No process is lost\<close>

text \<open>
  A pool with room: as long as fewer than \<open>cap\<close> processes are ready, a process that is given back or
  brought in is ready afterwards, and the pool hands out a process whenever one is ready.
\<close>

locale roomy_pool = process_pool invar ready get put add
  for invar :: "'s \<Rightarrow> bool"
    and ready :: "'s \<Rightarrow> proc_ptr multiset"
    and get :: "'s \<Rightarrow> proc_ptr option \<times> 's"
    and put :: "'s \<Rightarrow> proc_ptr option \<Rightarrow> u32 \<Rightarrow> 's"
    and add :: "'s \<Rightarrow> proc_ptr \<Rightarrow> u32 \<Rightarrow> 's" +
  fixes cap :: nat and valid :: "u32 \<Rightarrow> bool"
  assumes put_room: "invar s \<Longrightarrow> valid pr \<Longrightarrow> size (ready s) < cap \<Longrightarrow> ready (put s (Some p) pr) = add_mset p (ready s)"
    and add_room: "invar s \<Longrightarrow> valid pr \<Longrightarrow> size (ready s) < cap \<Longrightarrow> ready (add s p pr) = add_mset p (ready s)"
    and get_none: "invar s \<Longrightarrow> fst (get s) = None \<Longrightarrow> ready s = {#}"
begin

lemma get_nothing_ready: "invar s \<Longrightarrow> get s = (None, s') \<Longrightarrow> ready s = {#} \<and> ready s' = {#}"
  using get_none [of s] take_owned [of s None s'] by simp

lemma get_ready: "invar s \<Longrightarrow> get s = (Some p, s') \<Longrightarrow> p \<in># ready s \<and> set_mset (ready s') \<subseteq> set_mset (ready s)"
  by (auto dest!: take_owned simp flip: take_owned [of s "Some p" s'])

end

lemma sum_list_member: "i < length xs \<Longrightarrow> f (xs ! i) \<subseteq># sum_list (map f xs)"
proof (induction xs arbitrary: i)
  case (Cons x xs)
  then show ?case by (cases i) (auto intro: subset_mset.add_increasing)
qed simp

lemma ready_empty_iff: "ready_procs s = {#} \<longleftrightarrow> (\<forall>q \<in> set (mlq_ready_queue s). queue_list q = [])"
proof -
  have "sum_list xs = {#} \<longleftrightarrow> (\<forall>x \<in> set xs. x = {#})" for xs :: "proc_ptr multiset list" by (induction xs) auto
  then show ?thesis by (simp add: ready_procs_def)
qed

lemma ready_enqueue_room:
  assumes "sched_inv s" "unat pr < MAX_PRIO" "size (ready_procs s) < MAX_QUEUE_SIZE"
  shows "ready_procs (enqueue_by_prio s p pr) = add_mset p (ready_procs s)"
proof -
  let ?q = "mlq_ready_queue s ! unat pr"
  have q: "queue_inv ?q" "unat pr < length (mlq_ready_queue s)"
    using assms(1,2) by (simp_all add: sched_inv_mlq) (simp add: sched_inv_def)
  have "mset (queue_list ?q) \<subseteq># ready_procs s"
    using sum_list_member [OF q(2), of "\<lambda>q. mset (queue_list q)"] by (simp add: ready_procs_def)
  then have "length (queue_list ?q) < MAX_QUEUE_SIZE" using assms(3) size_mset_mono le_less_trans by fastforce
  then have "mset (queue_list (enq ?q p)) = add_mset p (mset (queue_list ?q))"
    using q(1) by (simp add: queue_simps)
  then show ?thesis
    using sum_list_map_update [OF q(2), of "\<lambda>q. mset (queue_list q)" "enq ?q p"] assms(2)
    by (simp add: ready_procs_def enqueue_by_prio_def)
qed

interpretation room: roomy_pool sched_inv ready_procs get_proc put_proc enqueue_by_prio MAX_QUEUE_SIZE "\<lambda>pr. unat pr < MAX_PRIO"
proof
  fix s p and pr :: u32
  assume s: "sched_inv s"
  show "ready_procs s = {#}" if "fst (get_proc s) = None"
    using s
  proof (cases rule: get_mlq_proc_cases)
    case idle
    then show ?thesis
      using s by (simp add: ready_empty_iff sched_abs_def highest_None_iff)
  next
    case (run k q)
    then show ?thesis using that by (simp add: get_proc_def)
  qed
  assume pr: "unat pr < MAX_PRIO" and n: "size (ready_procs s) < MAX_QUEUE_SIZE"
  show "ready_procs (enqueue_by_prio s p pr) = add_mset p (ready_procs s)" by (rule ready_enqueue_room [OF s pr n])
  have "sched_inv (s\<lparr>running_list := the (snd (purgequeue (Some (running_list s)) (Some p)))\<rparr>)"
    using s by (intro sched_inv_upd_running) (simp_all add: sched_inv_running)
  from ready_enqueue_room [OF this pr] n show "ready_procs (put_proc s (Some p) pr) = add_mset p (ready_procs s)"
    by (simp add: put_proc_def put_mlq_proc_def)
qed

text \<open>
  What the workload has to satisfy: at least one CPU, no more processes than a queue holds, valid
  priorities, start times up to \<open>S\<close>, and programs of at least one and at most \<open>B\<close> instructions.
\<close>

definition workload_ok :: "os_env \<Rightarrow> nat \<Rightarrow> nat \<Rightarrow> bool" where
  "workload_ok en S B \<longleftrightarrow> 0 < num_cpus (e_cfg en) \<and> 0 \<le> num_processes (e_cfg en) \<and>
     num_processes (e_cfg en) \<le> int MAX_QUEUE_SIZE \<and> S + MAX_QUEUE_SIZE + 1 < 2 ^ 64 \<and>
     (\<forall>i. int i < num_processes (e_cfg en) \<longrightarrow>
        unat (ucast (ld_prio (e_cfg en) ! i) :: u32) < MAX_PRIO \<and> unat (ld_start (e_cfg en) ! i) \<le> S \<and>
        (\<forall>a c a'. load (e_files en) (e_insts en) (e_block en) a (ld_path (e_cfg en) ! i) = Some (Returns c, a') \<longrightarrow>
           cs_size (code c) \<noteq> 0 \<and> length (cs_text (code c)) \<le> B))"

definition unfinished :: "proc_t option \<Rightarrow> bool" where
  "unfinished po = (case po of None \<Rightarrow> False | Some pr \<Rightarrow> pc (pcb pr) \<noteq> cs_size (code (pcb pr)))"

definition going :: "cpu_t \<Rightarrow> bool" where
  "going c \<longleftrightarrow> c_pc c = Recheck \<or> c_pc c = Run_inst"

definition kept_inv :: "os_env \<Rightarrow> os_t \<Rightarrow> bool" where
  "kept_inv en s \<longleftrightarrow>
     (\<forall>p. procs (wld s) p \<noteq> None \<longrightarrow> p \<in># active s + opt_mset (l_proc s)) \<and>
     (\<forall>p pr. procs (wld s) p = Some pr \<longrightarrow> unat (prio (pcb pr)) < MAX_PRIO) \<and>
     (\<forall>p \<in># ready_procs (sched (wld s)) + opt_mset (l_proc s). unfinished (procs (wld s) p)) \<and>
     (\<forall>c \<in> set (cpus s). \<forall>p. c_proc c = Some p \<and> going c \<longrightarrow> unfinished (procs (wld s) p)) \<and>
     size (active s) \<le> l_i s \<and> int (l_i s) \<le> num_processes (e_cfg en) \<and>
     (l_proc s \<noteq> None \<longrightarrow> int (l_i s) < num_processes (e_cfg en))"

definition left_of :: "proc_t option \<Rightarrow> nat" where
  "left_of po = (case po of None \<Rightarrow> 0 | Some pr \<Rightarrow> Suc (length (cs_text (code (pcb pr))) - unat (pc (pcb pr))))"

text \<open>A step of CPU \<open>i\<close> that neither frees a process nor runs one.\<close>

lemma active_same:
  assumes "i < length (cpus s)" "cpus s' = (cpus s)[i := c]"
    "ready_procs (sched (wld s')) + opt_mset (c_proc c) = ready_procs (sched (wld s)) + opt_mset (c_proc (cpus s ! i))"
  shows "active s' = active s"
proof -
  have "active s' + opt_mset (c_proc (cpus s ! i)) = (ready_procs (sched (wld s')) + opt_mset (c_proc c)) + cpu_held (cpus s)"
    using cpu_held_update [OF assms(1), of c] by (simp add: active_def assms(2) ac_simps)
  also have "\<dots> = active s + opt_mset (c_proc (cpus s ! i))" unfolding assms(3) by (simp add: active_def)
  finally show ?thesis by simp
qed

lemma kept_move:
  assumes K: "kept_inv en s" and i: "i < length (cpus s)" "cpus s' = (cpus s)[i := c]"
    and mv: "ready_procs (sched (wld s')) + opt_mset (c_proc c) = ready_procs (sched (wld s)) + opt_mset (c_proc (cpus s ! i))"
    and same: "procs (wld s') = procs (wld s)" "l_proc s' = l_proc s" "l_i s' = l_i s"
    and r: "\<And>p. p \<in># ready_procs (sched (wld s')) \<Longrightarrow> p \<in># ready_procs (sched (wld s)) \<or> unfinished (procs (wld s) p)"
    and c: "\<And>p. c_proc c = Some p \<Longrightarrow> going c \<Longrightarrow> unfinished (procs (wld s) p)"
  shows "kept_inv en s'"
proof -
  have a: "active s' = active s" by (rule active_same [OF i mv])
  have "\<forall>x \<in> set (cpus s'). \<forall>p. c_proc x = Some p \<and> going x \<longrightarrow> unfinished (procs (wld s) p)"
    using K c unfolding i(2) by (auto simp: kept_inv_def dest!: set_update_subset_insert [THEN subsetD])
  moreover have "\<forall>p \<in># ready_procs (sched (wld s')) + opt_mset (l_proc s). unfinished (procs (wld s) p)"
    using K r unfolding kept_inv_def by (metis union_iff)
  ultimately show ?thesis using K unfolding kept_inv_def a same by blast
qed

text \<open>A step in which CPU \<open>i\<close> changes the control block of the process it holds, or frees it.\<close>

lemma kept_own:
  assumes inv: "os_inv en s" and K: "kept_inv en s" and i: "i < length (cpus s)" "c_proc (cpus s ! i) = Some p" "cpus s' = (cpus s)[i := c]"
    and sch: "sched (wld s') = sched (wld s)" and others: "\<And>q. q \<noteq> p \<Longrightarrow> procs (wld s') q = procs (wld s) q"
    and same: "l_proc s' = l_proc s" "l_i s' = l_i s" and c: "\<not> going c"
    and own: "\<And>pr. procs (wld s') p = Some pr \<Longrightarrow> c_proc c = Some p \<and> unat (prio (pcb pr)) < MAX_PRIO"
    and cp: "c_proc c = Some p \<or> c_proc c = None"
  shows "kept_inv en s'"
proof -
  note al = held_alone [OF inv i(1,2)]
  have H: "cpu_held (cpus s') + {#p#} = cpu_held (cpus s) + opt_mset (c_proc c)"
    using cpu_held_update [OF i(1), of c] by (simp add: i)
  have A: "active s' + {#p#} = active s + opt_mset (c_proc c)" using H by (simp add: active_def sch)
  have ex: "q \<in># active s' + opt_mset (l_proc s')" if "procs (wld s') q \<noteq> None" for q
  proof (cases "q = p")
    case True
    then have "active s' = active s" using own that A by auto
    then show ?thesis using cpu_held_nth [OF i(1,2)] True by (simp add: active_def)
  next
    case False
    then have "q \<in># active s + opt_mset (l_proc s)" using K that others by (simp add: kept_inv_def)
    moreover have "q \<in># active s' \<longleftrightarrow> q \<in># active s' + {#p#}" using False by simp
    ultimately show ?thesis unfolding A same by auto
  qed
  have r: "unfinished (procs (wld s') q)" if "q \<in># ready_procs (sched (wld s')) + opt_mset (l_proc s')" for q
  proof -
    have "q \<noteq> p" using that al(1,2) by (cases "l_proc s") (auto simp: sch same)
    then show ?thesis using K that others by (simp add: kept_inv_def sch same)
  qed
  have g: "unfinished (procs (wld s') q)" if x: "x \<in> set (cpus s')" "c_proc x = Some q" "going x" for x q
  proof -
    obtain j where j: "j < length (cpus s)" "x = cpus s' ! j" using x(1) by (auto simp: in_set_conv_nth i(3))
    with x(3) c i(1) have "j \<noteq> i" by (auto simp: i(3))
    with j have xj: "x = cpus s ! j" by (simp add: i(3))
    then have "q \<noteq> p" using al(3) [OF j(1) \<open>j \<noteq> i\<close>] x(2) by auto
    then show ?thesis using K x(2,3) xj nth_mem [OF j(1)] others by (auto simp: kept_inv_def)
  qed
  have p': "unat (prio (pcb pr)) < MAX_PRIO" if "procs (wld s') q = Some pr" for q pr
    using that own K others by (cases "q = p") (auto simp: kept_inv_def)
  have "size (active s') \<le> size (active s)" using arg_cong [OF A, of size] cp by auto
  then have "size (active s') \<le> l_i s" using K by (simp add: kept_inv_def)
  then show ?thesis using K ex r g p' unfolding kept_inv_def same by blast
qed

text \<open>
  Every step of a CPU is of one of two kinds: it moves processes between the CPU and the scheduler, or it
  executes or frees the process it holds, which reduces what is left of this process.
\<close>

lemma cpu_step_kinds:
  assumes inv: "os_inv en s" and K: "kept_inv en s" and W: "workload_ok en S B" and st: "cpu_step en i s s'"
  obtains (moves) c where "i < length (cpus s)" "cpus s' = (cpus s)[i := c]" "procs (wld s') = procs (wld s)"
      "ready_procs (sched (wld s')) + opt_mset (c_proc c) = ready_procs (sched (wld s)) + opt_mset (c_proc (cpus s ! i))"
      "l_proc s' = l_proc s" "l_i s' = l_i s"
      "\<forall>p \<in># ready_procs (sched (wld s')). p \<in># ready_procs (sched (wld s)) \<or> unfinished (procs (wld s) p)"
      "\<forall>p. c_proc c = Some p \<longrightarrow> going c \<longrightarrow> unfinished (procs (wld s) p)"
      "c_pc (cpus s ! i) \<noteq> Run_inst" "c_pc c \<noteq> Refetch True"
  | (own) p c where "i < length (cpus s)" "c_proc (cpus s ! i) = Some p" "cpus s' = (cpus s)[i := c]"
      "sched (wld s') = sched (wld s)" "\<forall>q. q \<noteq> p \<longrightarrow> procs (wld s') q = procs (wld s) q" "l_proc s' = l_proc s" "l_i s' = l_i s"
      "\<not> going c" "\<forall>pr. procs (wld s') p = Some pr \<longrightarrow> c_proc c = Some p \<and> unat (prio (pcb pr)) < MAX_PRIO"
      "c_proc c = Some p \<or> c_proc c = None" "left_of (procs (wld s') p) < left_of (procs (wld s) p)"
proof -
  have sc: "sched_inv (sched (wld s))" using inv by (simp add: os_inv_def)
  have taken: "ready_procs sc' + opt_mset po = ready_procs (sched (wld s))" "p \<in># ready_procs sc' \<Longrightarrow> p \<in># ready_procs (sched (wld s))"
    "po = Some p \<Longrightarrow> unfinished (procs (wld s) p)" if "get_proc (sched (wld s)) = (po, sc')" for po sc' p
  proof -
    show t: "ready_procs sc' + opt_mset po = ready_procs (sched (wld s))" by (rule pool.take_owned [OF sc that])
    show "p \<in># ready_procs sc' \<Longrightarrow> p \<in># ready_procs (sched (wld s))" by (simp flip: t)
    assume "po = Some p"
    then have "p \<in># ready_procs (sched (wld s))" by (simp flip: t)
    then show "unfinished (procs (wld s) p)" using K by (simp add: kept_inv_def)
  qed
  from st show ?thesis
  proof cases
    case (take c po sc')
    then show ?thesis using taken [OF take(5)] by (intro moves) (auto simp: set_cpu_def set_sched_def split: if_splits)
  next
    case (refetch c b po sc')
    have "c_proc (cpus s ! i) = None" using os_inv_nth [OF inv refetch(1)] refetch(2,3) by (simp add: cpu_ok_def)
    then show ?thesis using refetch taken [OF refetch(4)] by (intro moves) (auto simp: set_cpu_def set_sched_def)
  next
    case (give c p pr)
    have "p \<in># cpu_held (cpus s)" using cpu_held_nth give by blast
    then have "size (ready_procs (sched (wld s))) < size (active s)"
      by (auto simp: active_def dest!: multi_member_split)
    then have "size (ready_procs (sched (wld s))) < MAX_QUEUE_SIZE" using K W by (simp add: kept_inv_def workload_ok_def)
    moreover have "unat (prio (pcb pr)) < MAX_PRIO" using K give(5) by (simp add: kept_inv_def)
    ultimately have "ready_procs (put_proc (sched (wld s)) (Some p) (prio (pcb pr))) = add_mset p (ready_procs (sched (wld s)))"
      using room.put_room [OF sc] by blast
    then show ?thesis using give by (intro moves) (auto simp: set_cpu_def set_sched_def unfinished_def)
  next
    case (keep c p pr)
    then show ?thesis by (intro moves) (auto simp: set_cpu_def unfinished_def)
  next
    case (dispatch c p)
    moreover have "unfinished (procs (wld s) p)" using K dispatch nth_mem [OF dispatch(1)] by (auto simp: kept_inv_def going_def)
    ultimately show ?thesis by (intro moves) (auto simp: set_cpu_def)
  next
    case (finish c p pr)
    then show ?thesis by (intro own [of p]) (auto simp: set_cpu_def free_proc_def going_def left_of_def)
  next
    case (execute c p r w)
    have "world_inv (e_ops en) (wld s)" using inv by (simp add: os_inv_def)
    from run_good [OF this os_inv_held [OF inv execute(1)]] execute have
      R: "proc_step (e_ops en) (wld s) p w" "advanced (procs (wld s) p) (procs w p)" "good_proc (procs w p)" by auto
    have u: "unfinished (procs (wld s) p)" using K execute nth_mem [OF execute(1)] by (auto simp: kept_inv_def going_def)
    have "left_of (procs w p) < left_of (procs (wld s) p)"
      using R(2,3) u by (auto simp: advanced_def unfinished_def left_of_def good_proc_def prog_ok_def split: option.splits)
    moreover have "unat (prio (pcb pr)) < MAX_PRIO" if "procs w p = Some pr" for pr
      using K that R(2) by (auto simp: advanced_def kept_inv_def split: option.splits)
    ultimately show ?thesis using execute R(1) by (intro own [of p]) (auto simp: set_cpu_def going_def proc_step_def)
  qed (auto intro!: moves simp: set_cpu_def going_def)
qed

lemma kept_cpu:
  assumes "os_inv en s" "kept_inv en s" "workload_ok en S B" "cpu_step en i s s'"
  shows "kept_inv en s'"
  using assms
proof (cases rule: cpu_step_kinds)
  case (moves c)
  show ?thesis by (rule kept_move [OF assms(2) moves(1,2,4)]) (use moves in auto)
next
  case (own p c)
  show ?thesis by (rule kept_own [OF assms(1,2) own(1-3)]) (use own in auto)
qed

lemma kept_ld:
  assumes inv: "os_inv en s" and K: "kept_inv en s" and W: "workload_ok en S B" and P: "programs_ok en" and st: "ld_step en q s s'"
  shows "kept_inv en s'"
  using st
proof cases
  case (loads c a)
  from P loads obtain c' a' where "load (e_files en) (e_insts en) (e_block en) (avail_pid s) (ld_path (e_cfg en) ! l_i s) = Some (Returns c', a')"
    "pc c' = 0" unfolding programs_ok_def by blast
  then have "pc c = 0" "cs_size (code c) \<noteq> 0" using W loads by (auto simp: workload_ok_def)
  moreover have "p \<noteq> q" if "p \<in># active s" for p using that inv loads(3) by (auto simp: os_inv_def good_proc_def)
  moreover have "l_proc s = None" using inv loads(1) by (simp add: os_inv_def)
  moreover have "unat (ucast (ld_prio (e_cfg en) ! l_i s) :: u32) < MAX_PRIO" using W loads(2) by (simp add: workload_ok_def)
  moreover have "p \<in># active s" if "c \<in> set (cpus s)" "c_proc c = Some p" for c p
    using that cpu_held_nth by (fastforce simp: active_def in_set_conv_nth)
  ultimately show ?thesis using K loads(2) unfolding loads(5)
    by (auto simp: kept_inv_def active_def unfinished_def)
next
  case (adds p pr sc k)
  have sc: "sched_inv (sched (wld s))" using inv by (simp add: os_inv_def)
  have "size (ready_procs (sched (wld s))) \<le> size (active s)" by (simp add: active_def)
  then have "size (ready_procs (sched (wld s))) < MAX_QUEUE_SIZE" using K W adds(3) by (simp add: kept_inv_def workload_ok_def)
  moreover have "unat (prio (pcb pr)) < MAX_PRIO" using K adds(4) by (simp add: kept_inv_def)
  ultimately have "ready_procs sc = add_mset p (ready_procs (sched (wld s)))"
    using room.add_room [OF sc, of "prio (pcb pr)" p] adds(5) by (simp add: add_proc_def add_mlq_proc_def)
  then show ?thesis using K adds(3,4) unfolding adds(6)
    by (auto simp: kept_inv_def active_def unfinished_def)
qed (use K in \<open>auto simp: kept_inv_def active_def\<close>)

section \<open>The work that is left\<close>

definition work_left :: "os_t \<Rightarrow> nat" where
  "work_left s = (\<Sum>p \<in># active s. left_of (procs (wld s) p))"

lemma work_left_cong: "active s' = active s \<Longrightarrow> procs (wld s') = procs (wld s) \<Longrightarrow> work_left s' = work_left s"
  by (simp add: work_left_def)

lemma work_left_busy:
  assumes "os_inv en s" "active s \<noteq> {#}"
  shows "0 < work_left s"
proof -
  from assms(2) obtain p A where A: "active s = add_mset p A" by (meson multiset_cases)
  then have "good_proc (procs (wld s) p)" using assms(1) by (simp add: os_inv_def)
  then have "0 < left_of (procs (wld s) p)" by (auto simp: good_proc_def left_of_def split: option.splits)
  then show ?thesis by (simp add: work_left_def A)
qed

text \<open>Freeing a process and executing an instruction reduce the work, the other steps of a CPU keep it.\<close>

lemma work_own:
  assumes inv: "os_inv en s" and i: "i < length (cpus s)" "c_proc (cpus s ! i) = Some p" "cpus s' = (cpus s)[i := c]"
    and sch: "sched (wld s') = sched (wld s)" and others: "\<And>q. q \<noteq> p \<Longrightarrow> procs (wld s') q = procs (wld s) q"
    and less: "left_of (procs (wld s') p) < left_of (procs (wld s) p)" and cp: "c_proc c = Some p \<or> c_proc c = None"
  shows "work_left s' < work_left s"
proof -
  have "cpu_held (cpus s') + {#p#} = cpu_held (cpus s) + opt_mset (c_proc c)"
    using cpu_held_update [OF i(1), of c] by (simp add: i)
  then have A: "active s' + {#p#} = active s + opt_mset (c_proc c)" by (simp add: active_def sch)
  have "p \<in># active s" using cpu_held_nth [OF i(1,2)] by (simp add: active_def)
  then obtain R where R: "active s = add_mset p R" by (rule mset_add)
  moreover have "unique (active s + opt_mset (l_proc s))" using inv by (simp add: os_inv_def)
  ultimately have "unique (add_mset p (R + opt_mset (l_proc s)))" by simp
  then have "p \<notin># R" by (auto dest!: unique_add)
  then have same: "(\<Sum>q \<in># R. left_of (procs (wld s') q)) = (\<Sum>q \<in># R. left_of (procs (wld s) q))"
    using others by (intro arg_cong [of _ _ sum_mset] image_mset_cong) (metis)
  have "active s' = R + opt_mset (c_proc c)" using A R by auto
  then show ?thesis using less cp by (auto simp: work_left_def R same)
qed

lemma work_cpu:
  assumes "os_inv en s" "kept_inv en s" "workload_ok en S B" "cpu_step en i s s'"
  shows "work_left s' < work_left s \<or> active s' = active s \<and> procs (wld s') = procs (wld s) \<and>
    c_pc (cpus s ! i) \<noteq> Run_inst \<and> c_pc (cpus s' ! i) \<noteq> Refetch True \<and>
    ready_procs (sched (wld s')) + opt_mset (c_proc (cpus s' ! i)) = ready_procs (sched (wld s)) + opt_mset (c_proc (cpus s ! i))"
  using assms
proof (cases rule: cpu_step_kinds)
  case (moves c)
  then show ?thesis using active_same [OF moves(1,2,4)] by simp
next
  case (own p c)
  have "work_left s' < work_left s" by (rule work_own [OF assms(1) own(1-4)]) (use own in auto)
  then show ?thesis ..
qed

end
