(* ===== verification/OsSlots.thy ===== *)
theory OsSlots
  imports OsWork
begin

text \<open>
  The slots of the timer as the threads see them: which threads have passed the current slot, and why in
  every slot in which a process is left some CPU will execute an instruction or free a process.
\<close>

section \<open>Slots\<close>

text \<open>
  A thread has passed the current slot when it has called \<^verbatim>\<open>next_slot\<close> since the last tick, or has ended.
  The tick is the step of the timer that advances the time.
\<close>

definition passed :: "timer_t \<Rightarrow> nat \<Rightarrow> bool" where
  "passed t d \<longleftrightarrow> dpc t d = Detached \<or> id_done (ids t d) \<and> d \<notin> pending t"

definition ticking :: "timer_t \<Rightarrow> bool" where
  "ticking t = (case tpc t of Wait_loop [] _ _ \<Rightarrow> True | _ \<Rightarrow> False)"

definition timed :: "timer_t \<Rightarrow> bool" where
  "timed t \<longleftrightarrow> (\<exists>c T. timer_inv c T t)"

lemma timed_slot:
  assumes "timed t" "d \<in> set (dev_list t)"
  shows "dpc t d = Working \<Longrightarrow> \<not> id_done (ids t d)" "dpc t d = Working \<Longrightarrow> d \<notin> pending t"
    "ticking t \<Longrightarrow> passed t d"
proof -
  from assms obtain c T where s: "slot_ok c T t d" unfolding timed_def using timer_inv_devs by blast
  then show "dpc t d = Working \<Longrightarrow> \<not> id_done (ids t d)" by (simp add: slot_ok_def)
  show "dpc t d = Working \<Longrightarrow> d \<notin> pending t"
    using s by (auto simp: slot_ok_def held_def pending_def split: timer_pc.splits)
  show "ticking t \<Longrightarrow> passed t d"
    using s assms(2) by (auto simp: ticking_def passed_def slot_ok_def held_def pending_def split: timer_pc.splits list.splits)
qed

lemma timed_working: "timed t \<Longrightarrow> d \<in> set (dev_list t) \<Longrightarrow> dpc t d = Working \<Longrightarrow> \<not> passed t d"
  using timed_slot(1) [of t d] by (auto simp: passed_def)

lemma passed_signal:
  assumes "timed t" "d \<in> set (dev_list t)" "dpc t d = Working"
  shows "passed (next_slot_signal d t) x \<longleftrightarrow> x = d \<or> passed t x"
  using timed_slot(2) [OF assms] by (auto simp: passed_def next_slot_signal_def pending_def)

lemma passed_wake:
  assumes "next_slot_wake d t = Some t'" "dpc t d = Waiting"
  shows "passed t' x = passed t x" "\<not> passed t d"
  using assms by (auto simp: passed_def next_slot_wake_def pending_def split: if_splits)

lemma passed_detach: "passed (detach_event d t) x \<longleftrightarrow> x = d \<or> passed t x"
  by (auto simp: passed_def detach_event_def pending_def)

lemma passed_routine:
  assumes "timed t" "timer_routine t = Some t'" "x \<in> set (dev_list t)"
  shows "passed t' x \<longleftrightarrow> passed t x \<and> (ticking t \<longrightarrow> dpc t x = Detached)"
proof -
  from assms(1) obtain c T where T: "timer_inv c T t" by (auto simp: timed_def)
  show ?thesis
  proof (cases "tpc t")
    case (Release_loop ds f e)
    then have "distinct ds" using T by (auto simp: timer_inv_def loop_ok_def)
    then show ?thesis using assms(2,3) Release_loop
      by (cases ds) (auto simp: timer_routine_def passed_def pending_def ticking_def split: if_splits)
  qed (use assms in \<open>auto simp: timer_routine_def passed_def pending_def ticking_def split: list.splits if_splits\<close>)
qed

lemma timed_do: "timed t \<Longrightarrow> timer_do e t = Some t' \<Longrightarrow> timed t'"
  unfolding timed_def using timer_inv_do by blast

lemma timed_exec: "timed t \<Longrightarrow> timer_exec es t = Some t' \<Longrightarrow> timed t'"
  unfolding timed_def using timer_inv_exec by blast

text \<open>The threads and the timer fit together.\<close>

definition joint :: "os_t \<Rightarrow> bool" where
  "joint s \<longleftrightarrow> linked (length (cpus s)) s \<and> timed (tmr s) \<and> 0 < length (cpus s)"

lemma joint_do:
  assumes "joint s" "os_do en e s = Next s'"
  shows "joint s'"
proof -
  have "barrier_step (length (cpus s)) (runs_inst e s) s s'" using assms by (intro linked_do) (simp_all add: joint_def)
  then show ?thesis using assms(1) timed_exec by (auto simp: barrier_step_def joint_def linked_def)
qed

lemma joint_cpu:
  assumes "joint s" "i < length (cpus s)"
  shows "i \<in> set (dev_list (tmr s))" "dpc (tmr s) i = cpu_dev (c_pc (cpus s ! i))"
  using assms by (simp_all add: joint_def linked_def)

lemma joint_ld:
  assumes "joint s"
  shows "length (cpus s) \<in> set (dev_list (tmr s))" "dpc (tmr s) (length (cpus s)) = ld_dev (l_pc s)"
  using assms by (simp_all add: joint_def linked_def)

text \<open>What the steps of the threads do to the set of those that have passed the slot.\<close>

lemma passed_cpu:
  assumes J: "joint s" and st: "cpu_step en i s s'" and j: "j \<noteq> i"
  shows "passed (tmr s') j = passed (tmr s) j"
proof -
  have i: "i < length (cpus s)" using st by cases simp_all
  note d = joint_cpu [OF J i]
  from st show ?thesis
  proof cases
    case (signal c)
    then show ?thesis using passed_signal [of "tmr s" i j] J d j by (simp add: joint_def cpu_dev_def set_cpu_def)
  next
    case (wake c t)
    then show ?thesis using passed_wake(1) [of i "tmr s" t] d by (simp add: cpu_dev_def set_cpu_def)
  qed (use j in \<open>simp_all add: set_cpu_def set_sched_def free_proc_def passed_detach\<close>)
qed

lemma passed_ld:
  assumes J: "joint s" and st: "ld_step en q s s'" and j: "j \<noteq> length (cpus s)"
  shows "passed (tmr s') j = passed (tmr s) j"
proof -
  note d = joint_ld [OF J]
  have sig: "passed (next_slot_signal (length (cpus s)) (tmr s)) j = passed (tmr s) j" if "ld_dev (l_pc s) = Working"
    using passed_signal [of "tmr s" "length (cpus s)" j] J d j that by (simp add: joint_def)
  from st show ?thesis
  proof cases
    case (wakes_wait t)
    then show ?thesis using passed_wake(1) [of _ "tmr s" t] d by (simp add: ld_dev_def)
  next
    case (wakes t)
    then show ?thesis using passed_wake(1) [of _ "tmr s" t] d by (simp add: ld_dev_def)
  qed (use j sig in \<open>simp_all add: passed_detach ld_dev_def\<close>)
qed

section \<open>CPUs do not leave while a process is ready\<close>

text \<open>
  The loader is past its last process: it was added in an earlier slot. A CPU is closing when it will leave
  if the loader is done. A process can only wait for ever if every CPU closes; this does not happen, because a CPU
  that finds no process in a slot after the last addition is not the last one that could take one.
\<close>

definition ld_past :: "os_env \<Rightarrow> os_t \<Rightarrow> bool" where
  "ld_past en s \<longleftrightarrow> \<not> int (l_i s) < num_processes (e_cfg en) \<and>
     (l_pc s = L_top \<or> l_pc s = L_leaving \<or> l_pc s = L_stopped \<or> l_pc s = L_sleep \<and> \<not> passed (tmr s) (length (cpus s)))"

definition closing :: "cpu_t \<Rightarrow> bool" where
  "closing c \<longleftrightarrow> c_pc c = Leaving \<or> c_pc c = Stopped \<or> c_pc c = Recheck \<and> c_proc c = None"

definition stop_inv :: "os_env \<Rightarrow> os_t \<Rightarrow> bool" where
  "stop_inv en s \<longleftrightarrow> (\<forall>c \<in> set (cpus s). c_pc c = Leaving \<or> c_pc c = Stopped \<longrightarrow> c_proc c = None) \<and>
     (if ld_past en s then ready_procs (sched (wld s)) \<noteq> {#} \<longrightarrow> (\<exists>c \<in> set (cpus s). \<not> closing c)
      else \<not> os_done s \<and> (\<forall>c \<in> set (cpus s). c_pc c \<noteq> Leaving \<and> c_pc c \<noteq> Stopped))"

lemma cpu_step_fields:
  assumes "cpu_step en i s s'"
  shows "i < length (cpus s)" "\<exists>c. cpus s' = (cpus s)[i := c]" "l_pc s' = l_pc s" "l_i s' = l_i s" "os_done s' = os_done s"
    "l_proc s' = l_proc s"
  using assms by (cases; auto simp: set_cpu_def set_sched_def free_proc_def)+

lemma ld_past_cpu:
  assumes "joint s" "cpu_step en i s s'"
  shows "ld_past en s' = ld_past en s"
proof -
  note f = cpu_step_fields [OF assms(2)]
  have "length (cpus s') = length (cpus s)" using f(2) by auto
  then show ?thesis using f passed_cpu [OF assms, of "length (cpus s)"] by (simp add: ld_past_def)
qed

lemma closing_cpu:
  assumes inv: "os_inv en s" and st: "cpu_step en i s s'" and c: "closing (cpus s' ! i)"
  shows "ready_procs (sched (wld s')) = {#} \<or> closing (cpus s ! i) \<and> ready_procs (sched (wld s')) = ready_procs (sched (wld s))"
proof -
  have sc: "sched_inv (sched (wld s))" using inv by (simp add: os_inv_def)
  from st show ?thesis
  proof cases
    case (refetch c' b po sc')
    then show ?thesis using c room.get_nothing_ready [OF sc, of sc'] by (cases po) (simp_all add: closing_def set_cpu_def set_sched_def)
  qed (use c in \<open>auto simp: closing_def set_cpu_def set_sched_def free_proc_def split: if_splits\<close>)
qed

lemma leaving_cpu:
  assumes st: "cpu_step en i s s'" and c: "c_pc (cpus s' ! i) = Leaving \<or> c_pc (cpus s' ! i) = Stopped"
    and old: "c_pc (cpus s ! i) = Leaving \<Longrightarrow> c_proc (cpus s ! i) = None"
  shows "c_proc (cpus s' ! i) = None" "os_done s \<or> c_pc (cpus s ! i) = Leaving"
  using st by (cases; use c old in \<open>auto simp: set_cpu_def set_sched_def free_proc_def split: if_splits\<close>)+

lemma stop_cpu:
  assumes inv: "os_inv en s" and J: "joint s" and S: "stop_inv en s" and st: "cpu_step en i s s'"
  shows "stop_inv en s'"
proof -
  note f = cpu_step_fields [OF st]
  obtain c where c: "cpus s' = (cpus s)[i := c]" using f(2) ..
  have ci: "c = cpus s' ! i" using f(1) c by simp
  have old: "c_pc (cpus s ! i) = Leaving \<Longrightarrow> c_proc (cpus s ! i) = None" using S f(1) by (auto simp: stop_inv_def)
  have none: "c_pc x = Leaving \<or> c_pc x = Stopped \<Longrightarrow> c_proc x = None" if "x \<in> set (cpus s')" for x
  proof -
    have "x = cpus s' ! i \<or> x \<in> set (cpus s)" using set_update_subset_insert [of "cpus s" i c] that by (auto simp: c f(1))
    then show "c_pc x = Leaving \<or> c_pc x = Stopped \<Longrightarrow> c_proc x = None"
      using leaving_cpu(1) [OF st _ old] S by (auto simp: stop_inv_def)
  qed
  have past: "\<exists>x \<in> set (cpus s'). \<not> closing x" if lp: "ld_past en s" and "ready_procs (sched (wld s')) \<noteq> {#}"
  proof (cases "closing c")
    case True
    with closing_cpu [OF inv st] that have "closing (cpus s ! i)" "ready_procs (sched (wld s)) \<noteq> {#}" by (auto simp: ci)
    then obtain x where "x \<in> set (cpus s)" "\<not> closing x" using S lp by (auto simp: stop_inv_def)
    then obtain j where "j < length (cpus s)" "\<not> closing (cpus s ! j)" "j \<noteq> i"
      using \<open>closing (cpus s ! i)\<close> by (metis in_set_conv_nth)
    then show ?thesis using nth_mem [of j "cpus s'"] by (auto simp: c)
  next
    case False
    then show ?thesis using f(1) nth_mem [of i "cpus s'"] by (auto simp: c)
  qed
  have "\<not> os_done s' \<and> (\<forall>x \<in> set (cpus s'). c_pc x \<noteq> Leaving \<and> c_pc x \<noteq> Stopped)" if "\<not> ld_past en s"
  proof -
    have d: "\<not> os_done s" "\<And>x. x \<in> set (cpus s) \<Longrightarrow> c_pc x \<noteq> Leaving \<and> c_pc x \<noteq> Stopped" using S that by (auto simp: stop_inv_def)
    then have "c_pc c \<noteq> Leaving \<and> c_pc c \<noteq> Stopped" using leaving_cpu(2) [OF st _ old] f(1) by (auto simp: ci)
    then show ?thesis using d f(5) set_update_subset_insert [of "cpus s" i c] by (auto simp: c)
  qed
  then show ?thesis using none past by (auto simp: stop_inv_def ld_past_cpu [OF J st])
qed

lemma stop_same:
  assumes "stop_inv en s" "ld_past en s' = ld_past en s" "cpus s' = cpus s" "ready_procs (sched (wld s')) = ready_procs (sched (wld s))"
    "\<not> ld_past en s \<Longrightarrow> \<not> os_done s'"
  shows "stop_inv en s'"
  using assms by (auto simp: stop_inv_def)

lemma stop_ld:
  assumes J: "joint s" and S: "stop_inv en s" and st: "ld_step en q s s'"
  shows "stop_inv en s'"
  using st
proof cases
  case (adds p pr sc k)
  then show ?thesis using S by (simp add: stop_inv_def ld_past_def)
next
  case signals
  have "passed (next_slot_signal (length (cpus s)) (tmr s)) (length (cpus s))"
    using passed_signal [of "tmr s"] J joint_ld [OF J] signals by (simp add: joint_def ld_dev_def)
  then show ?thesis using S signals by (simp add: stop_inv_def ld_past_def)
next
  case (wakes t)
  have "\<not> passed (tmr s) (length (cpus s))" using passed_wake(2) [OF wakes(2)] joint_ld [OF J] wakes by (simp add: ld_dev_def)
  then show ?thesis using S wakes by (intro stop_same [OF S]) (simp_all add: stop_inv_def ld_past_def)
next
  case ends
  then show ?thesis by (intro stop_same [OF S]) (simp_all add: ld_past_def)
qed (use S in \<open>simp_all add: stop_inv_def ld_past_def\<close>)

lemma asleep_at_tick:
  assumes "joint s" "ticking (tmr s)" "i < length (cpus s)" "c_pc (cpus s ! i) \<noteq> Stopped"
  shows "c_pc (cpus s ! i) = Sleeping"
proof -
  note d = joint_cpu [OF assms(1,3)]
  have "passed (tmr s) i" using timed_slot(3) [OF _ d(1)] assms(1,2) by (simp add: joint_def)
  then have "dpc (tmr s) i \<noteq> Working" using timed_working d(1) assms(1) by (auto simp: joint_def)
  then show ?thesis using d(2) assms(4) by (simp add: cpu_dev_def split: cpu_pc.splits)
qed

lemma stop_timer:
  assumes J: "joint s" and S: "stop_inv en s" and t: "timer_routine (tmr s) = Some t"
  shows "stop_inv en (s\<lparr>tmr := t\<rparr>)"
proof (cases "ld_past en (s\<lparr>tmr := t\<rparr>) = ld_past en s")
  case True
  then show ?thesis using S by (intro stop_same [OF S]) (simp_all add: stop_inv_def)
next
  case False
  note d = joint_ld [OF J]
  have p: "passed t (length (cpus s)) \<longleftrightarrow> passed (tmr s) (length (cpus s)) \<and> (ticking (tmr s) \<longrightarrow> dpc (tmr s) (length (cpus s)) = Detached)"
    using passed_routine [OF _ t d(1)] J by (simp add: joint_def)
  with False have n: "ticking (tmr s)" "\<not> ld_past en s" "ld_past en (s\<lparr>tmr := t\<rparr>)" by (auto simp: ld_past_def)
  obtain c where c: "c \<in> set (cpus s)" "c = cpus s ! 0" "0 < length (cpus s)" using J by (auto simp: joint_def)
  then have "c_pc c \<noteq> Stopped" using S n(2) by (auto simp: stop_inv_def)
  then have "\<not> closing c" using asleep_at_tick [OF J n(1) c(3)] c(2) by (simp add: closing_def)
  then show ?thesis using S n c(1) by (auto simp: stop_inv_def)
qed

section \<open>Hope\<close>

text \<open>
  A CPU from which work is to be expected in the current slot: it holds a process and has not executed an
  instruction yet, or it will fetch a process and one is ready.
\<close>

definition cpu_hope :: "bool \<Rightarrow> bool \<Rightarrow> cpu_t \<Rightarrow> bool" where
  "cpu_hope rdy over c = (case c_pc c of
     Top \<Rightarrow> c_proc c \<noteq> None \<or> rdy
   | Refetch _ \<Rightarrow> rdy
   | Recheck \<Rightarrow> c_proc c \<noteq> None
   | Run_inst \<Rightarrow> True
   | Sleeping \<Rightarrow> \<not> over \<and> (c_proc c \<noteq> None \<or> rdy)
   | _ \<Rightarrow> False)"

definition hope :: "os_t \<Rightarrow> bool" where
  "hope s \<longleftrightarrow> (\<exists>i < length (cpus s). cpu_hope (ready_procs (sched (wld s)) \<noteq> {#}) (passed (tmr s) i) (cpus s ! i))"

text \<open>If CPU \<open>i\<close> does not hope after its step, it did not before, and the step changed nothing for the others.\<close>

lemma hope_cpu:
  assumes inv: "os_inv en s" and J: "joint s" and st: "cpu_step en i s s'" and h: "hope s"
    and own: "c_pc (cpus s ! i) \<noteq> Run_inst" "c_pc (cpus s' ! i) \<noteq> Refetch True"
    and mv: "ready_procs (sched (wld s')) + opt_mset (c_proc (cpus s' ! i)) = ready_procs (sched (wld s)) + opt_mset (c_proc (cpus s ! i))"
  shows "hope s'"
proof -
  note f = cpu_step_fields [OF st]
  have sc: "sched_inv (sched (wld s))" using inv by (simp add: os_inv_def)
  let ?r = "ready_procs (sched (wld s)) \<noteq> {#}" and ?r' = "ready_procs (sched (wld s')) \<noteq> {#}"
  have i': "i < length (cpus s')" using f(1,2) by auto
  have K: "cpu_hope ?r' (passed (tmr s') i) (cpus s' ! i) \<or> \<not> cpu_hope ?r (passed (tmr s) i) (cpus s ! i) \<and> ?r' = ?r"
    using st
  proof cases
    case (take c po sc')
    then show ?thesis using room.get_nothing_ready [OF sc, of sc']
      by (cases po) (auto simp: cpu_hope_def set_cpu_def set_sched_def)
  next
    case (refetch c b po sc')
    then show ?thesis using room.get_nothing_ready [OF sc, of sc']
      by (cases po) (auto simp: cpu_hope_def set_cpu_def set_sched_def)
  next
    case (give c p pr)
    then show ?thesis using mv by (simp add: cpu_hope_def set_cpu_def set_sched_def)
  next
    case (wake c t)
    then show ?thesis using passed_wake [OF wake(4)] joint_cpu [OF J wake(1)]
      by (auto simp: cpu_hope_def cpu_dev_def set_cpu_def)
  qed (use own in \<open>auto simp: cpu_hope_def set_cpu_def free_proc_def\<close>)
  from h obtain j where j: "j < length (cpus s)" "cpu_hope ?r (passed (tmr s) j) (cpus s ! j)" by (auto simp: hope_def)
  show ?thesis
  proof (cases "cpu_hope ?r' (passed (tmr s') i) (cpus s' ! i)")
    case True
    then show ?thesis using i' by (auto simp: hope_def)
  next
    case False
    with K j have "j \<noteq> i" "?r' = ?r" by auto
    then have "cpu_hope ?r' (passed (tmr s') j) (cpus s' ! j)" using j f(2) passed_cpu [OF J st] by auto
    then show ?thesis using j(1) f(2) by (auto simp: hope_def)
  qed
qed

lemma hope_ld:
  assumes J: "joint s" and past: "ld_past en s" and st: "ld_step en q s s'"
  shows "hope s' = hope s" "active s' = active s" "procs (wld s') = procs (wld s)"
proof -
  have w: "wld s' = wld s" "cpus s' = cpus s" using st past by (cases; simp add: ld_past_def)+
  then show "hope s' = hope s" "active s' = active s" "procs (wld s') = procs (wld s)"
    using passed_ld [OF J st] by (auto simp: hope_def active_def)
qed

lemma ld_past_ld:
  assumes J: "joint s" and past: "ld_past en s" and st: "ld_step en q s s'"
  shows "ld_past en s'"
  using st past by cases (auto simp: ld_past_def)

lemma hope_timer:
  assumes J: "joint s" and t: "timer_routine (tmr s) = Some t" "\<not> ticking (tmr s)"
  shows "hope (s\<lparr>tmr := t\<rparr>) = hope s"
  using passed_routine [OF _ t(1)] t(2) J joint_cpu(1) [OF J] by (auto simp: hope_def joint_def)

lemma ld_past_timer:
  assumes J: "joint s" and past: "ld_past en s" and t: "timer_routine (tmr s) = Some t"
  shows "ld_past en (s\<lparr>tmr := t\<rparr>)"
  using passed_routine [OF _ t joint_ld(1) [OF J]] J past by (auto simp: ld_past_def joint_def)

text \<open>At the tick every CPU is asleep or has ended, so nobody hopes; after it the processes that are left give hope again.\<close>

lemma no_hope_at_tick:
  assumes J: "joint s" and t: "ticking (tmr s)"
  shows "\<not> hope s"
proof -
  have "\<not> cpu_hope r (passed (tmr s) i) (cpus s ! i)" if i: "i < length (cpus s)" for i r
    using asleep_at_tick [OF J t i] timed_slot(3) [OF _ joint_cpu(1) [OF J i] t] J
    by (cases "c_pc (cpus s ! i) = Stopped") (simp_all add: cpu_hope_def joint_def)
  then show ?thesis by (simp add: hope_def)
qed

lemma cpu_held_eq: "cpu_held cs = {#} \<longleftrightarrow> (\<forall>c \<in> set cs. c_proc c = None)"
proof (induction cs)
  case (Cons c cs)
  then show ?case by (cases "c_proc c") (simp_all add: cpu_held_def)
qed (simp add: cpu_held_def)

lemma hope_after_tick:
  assumes J: "joint s" and S: "stop_inv en s" and past: "ld_past en s"
    and t: "ticking (tmr s)" "timer_routine (tmr s) = Some t" and busy: "active s \<noteq> {#}"
  shows "hope (s\<lparr>tmr := t\<rparr>)"
proof -
  have fresh: "c_pc (cpus s ! i) = Sleeping" "\<not> passed t i" if i: "i < length (cpus s)" "c_pc (cpus s ! i) \<noteq> Stopped" for i
  proof -
    show sl: "c_pc (cpus s ! i) = Sleeping" by (rule asleep_at_tick [OF J t(1) i])
    then have "dpc (tmr s) i \<noteq> Detached" using joint_cpu(2) [OF J i(1)] by (simp add: cpu_dev_def)
    then show "\<not> passed t i" using passed_routine [OF _ t(2) joint_cpu(1) [OF J i(1)]] J t(1) by (simp add: joint_def)
  qed
  show ?thesis
  proof (cases "ready_procs (sched (wld s)) = {#}")
    case False
    then obtain c where "c \<in> set (cpus s)" "\<not> closing c" using S past by (auto simp: stop_inv_def)
    then obtain i where i: "i < length (cpus s)" "\<not> closing (cpus s ! i)" by (metis in_set_conv_nth)
    then show ?thesis using fresh [OF i(1)] False by (auto simp: hope_def cpu_hope_def closing_def)
  next
    case True
    with busy have "cpu_held (cpus s) \<noteq> {#}" by (simp add: active_def)
    then obtain c p where "c \<in> set (cpus s)" "c_proc c = Some p" by (auto simp: cpu_held_eq)
    then obtain i where i: "i < length (cpus s)" "c_proc (cpus s ! i) = Some p" by (metis in_set_conv_nth)
    then have "c_pc (cpus s ! i) \<noteq> Stopped" using S nth_mem [OF i(1)] by (force simp: stop_inv_def)
    then show ?thesis using fresh [OF i(1)] i by (auto simp: hope_def cpu_hope_def)
  qed
qed

end
