(* ===== verification/OsFinish.thy ===== *)
theory OsFinish
  imports OsSlots
begin

text \<open>
  The system executes its workload: after a number of slots that depends only on the start times, the number
  and the lengths of the programs, every program of the configuration was loaded, ran to its end and was freed; and a
  slot takes a bounded number of steps of the threads. Both hold for every interleaving.
\<close>

section \<open>The invariant from the start\<close>

text \<open>
  When the loader adds its \<open>i\<close>-th process, the time is at most \<open>i\<close> slots past the last start time \<open>S\<close>; the work that is left
  is bounded by what was added.
\<close>

definition time_inv :: "os_env \<Rightarrow> nat \<Rightarrow> os_t \<Rightarrow> bool" where
  "time_inv en S s \<longleftrightarrow>
     (if l_pc s = L_leaving \<or> l_pc s = L_stopped then \<not> int (l_i s) < num_processes (e_cfg en)
      else unat (current_time (tmr s)) + of_bool (l_pc s = L_slot \<or> passed (tmr s) (length (cpus s))) \<le> S + l_i s)"

definition load_inv :: "nat \<Rightarrow> os_t \<Rightarrow> bool" where
  "load_inv B s \<longleftrightarrow> work_left s \<le> l_i s * Suc B \<and> (\<forall>p. l_proc s = Some p \<longrightarrow> left_of (procs (wld s) p) \<le> Suc B)"

definition fin_inv :: "os_env \<Rightarrow> nat \<Rightarrow> nat \<Rightarrow> os_t \<Rightarrow> bool" where
  "fin_inv en S B s \<longleftrightarrow> os_inv en s \<and> kept_inv en s \<and> joint s \<and> stop_inv en s \<and> time_inv en S s \<and> load_inv B s \<and>
     workload_ok en S B \<and> programs_ok en"

lemma current_time_same:
  "current_time (next_slot_signal d t) = current_time t" "current_time (detach_event d t) = current_time t"
  "next_slot_wake d t = Some t' \<Longrightarrow> current_time t' = current_time t"
  by (auto simp: current_time_def next_slot_signal_def detach_event_def next_slot_wake_def split: if_splits)

lemma time_cpu:
  assumes J: "joint s" and T: "time_inv en S s" and st: "cpu_step en i s s'"
  shows "time_inv en S s'"
proof -
  note f = cpu_step_fields [OF st]
  have "current_time (tmr s') = current_time (tmr s)"
    using st by cases (simp_all add: set_cpu_def set_sched_def free_proc_def current_time_same)
  moreover have "length (cpus s') = length (cpus s)" using f(2) by auto
  ultimately show ?thesis using T f(1,3,4) passed_cpu [OF J st, of "length (cpus s)"] by (simp only: time_inv_def)
qed

lemma time_ld:
  assumes J: "joint s" and T: "time_inv en S s" and K: "kept_inv en s" and inv: "os_inv en s" and W: "workload_ok en S B"
    and st: "ld_step en q s s'"
  shows "time_inv en S s'"
proof -
  note d = joint_ld [OF J]
  have w: "\<not> passed (tmr s) (length (cpus s))" if "ld_dev (l_pc s) = Working"
    using timed_working d J that by (simp add: joint_def)
  from st show ?thesis
  proof cases
    case waits
    have "l_proc s \<noteq> None" using inv waits(1) by (auto simp: os_inv_def)
    then have "unat (ld_start (e_cfg en) ! l_i s) \<le> S" using K W by (auto simp: kept_inv_def workload_ok_def)
    then show ?thesis using waits by (simp add: time_inv_def current_time_same word_less_nat_alt)
  next
    case (wakes_wait t)
    then show ?thesis using T passed_wake [OF wakes_wait(2)] d by (simp add: time_inv_def current_time_same ld_dev_def)
  next
    case (wakes t)
    then show ?thesis using T passed_wake [OF wakes(2)] d by (simp add: time_inv_def current_time_same ld_dev_def)
  qed (use T w in \<open>simp_all add: time_inv_def current_time_same ld_dev_def\<close>)
qed

lemma time_timer:
  assumes J: "joint s" and T: "time_inv en S s" and t: "timer_routine (tmr s) = Some t"
  shows "time_inv en S (s\<lparr>tmr := t\<rparr>)"
proof -
  note d = joint_ld [OF J]
  have ti: "timed (tmr s)" using J by (simp add: joint_def)
  have c: "current_time t = current_time (tmr s) + of_bool (ticking (tmr s))"
    using t by (auto simp: timer_routine_def ticking_def current_time_def split: timer_pc.splits list.splits if_splits)
  have le: "unat (current_time (tmr s) + 1) \<le> unat (current_time (tmr s)) + 1" by (simp add: unat_word_ariths)
  have p: "passed (tmr s) (length (cpus s))" "l_pc s \<noteq> L_slot" if "ticking (tmr s)"
    using timed_slot(3) [OF ti d(1) that] timed_working [OF ti d(1)] d(2) by (auto simp: ld_dev_def)
  show ?thesis
  proof (cases "l_pc s = L_leaving \<or> l_pc s = L_stopped")
    case True
    then show ?thesis using T by (auto simp: time_inv_def)
  next
    case False
    then have "dpc (tmr s) (length (cpus s)) \<noteq> Detached" using d(2) by (simp add: ld_dev_def split: ld_pc.splits)
    then have "passed t (length (cpus s)) \<longleftrightarrow> passed (tmr s) (length (cpus s)) \<and> \<not> ticking (tmr s)"
      using passed_routine [OF ti t d(1)] by blast
    then show ?thesis using False T c le p by (auto simp: time_inv_def split: if_splits)
  qed
qed

lemma load_cpu:
  assumes "os_inv en s" "kept_inv en s" "workload_ok en S B" "load_inv B s" "cpu_step en i s s'"
  shows "load_inv B s'"
proof -
  note f = cpu_step_fields [OF assms(5)]
  have w: "work_left s' \<le> work_left s"
    using work_cpu [OF assms(1,2,3,5)] work_left_cong [of s' s] by auto
  have "procs (wld s') p = procs (wld s) p" if "l_proc s = Some p" for p
    using assms(1,2,3,5)
  proof (cases rule: cpu_step_kinds)
    case (own q c)
    then show ?thesis using held_alone(2) [OF assms(1) own(1,2)] that by auto
  qed simp
  then show ?thesis using assms(4) w f by (auto simp: load_inv_def)
qed

lemma sum_mset_part: "A \<subseteq># B \<Longrightarrow> (\<Sum>x \<in># A. f x :: nat) \<le> (\<Sum>x \<in># B. f x)"
  by (auto simp: mset_subset_eq_exists_conv)

lemma load_ld:
  assumes inv: "os_inv en s" and K: "kept_inv en s" and W: "workload_ok en S B" and L: "load_inv B s" and P: "programs_ok en"
    and st: "ld_step en q s s'"
  shows "load_inv B s'"
  using st
proof cases
  case (loads c a)
  have "p \<noteq> q" if "p \<in># active s" for p using that inv loads(3) by (auto simp: os_inv_def good_proc_def)
  then have "procs (wld s') p = procs (wld s) p" if "p \<in># active s" for p using that by (simp add: loads(5))
  moreover have "active s' = active s" by (simp add: active_def loads(5))
  ultimately have "work_left s' = work_left s" unfolding work_left_def by (metis image_mset_cong)
  moreover have "length (cs_text (code c)) \<le> B" using W loads(2,4) unfolding workload_ok_def by blast
  ultimately show ?thesis using L unfolding loads(5) by (auto simp: load_inv_def left_of_def)
next
  case (adds p pr sc k)
  have sc: "sched_inv (sched (wld s))" using inv by (simp add: os_inv_def)
  have "ready_procs sc \<subseteq># add_mset p (ready_procs (sched (wld s)))"
    using pool.ready_add [OF sc, of p "prio (pcb pr)"] adds(5) by (auto simp: add_proc_def add_mlq_proc_def)
  then have "active s' \<subseteq># add_mset p (active s)" unfolding adds(6) by (simp add: active_def flip: union_mset_add_mset_left)
  then have "work_left s' \<le> (\<Sum>x \<in># add_mset p (active s). left_of (procs (wld s') x))"
    unfolding work_left_def by (rule sum_mset_part)
  also have "\<dots> = left_of (procs (wld s) p) + work_left s"
  proof -
    have "left_of (procs (wld s') x) = left_of (procs (wld s) x)" for x using adds(4) by (simp add: adds(6) left_of_def)
    then show ?thesis by (simp add: work_left_def)
  qed
  also have "\<dots> \<le> (l_i s + 1) * Suc B" using L adds(3) by (auto simp: load_inv_def)
  finally show ?thesis unfolding adds(6) by (simp add: load_inv_def work_left_def active_def)
qed (use L in \<open>auto simp: load_inv_def work_left_def active_def\<close>)

section \<open>Runs in slots\<close>

definition os_next :: "os_env \<Rightarrow> os_event \<Rightarrow> os_t \<Rightarrow> os_t option" where
  "os_next en e s = (case os_do en e s of Next s' \<Rightarrow> Some s' | _ \<Rightarrow> None)"

definition tick :: "os_event \<Rightarrow> os_t \<Rightarrow> bool" where
  "tick e s \<longleftrightarrow> e = E_timer \<and> ticking (tmr s)"

text \<open>The slots that end in a run.\<close>

definition slots :: "os_env \<Rightarrow> os_event list \<Rightarrow> os_t \<Rightarrow> nat" where
  "slots en es s = rounds_ended (os_next en) tick es s"

lemma os_next_cases:
  assumes "os_next en e s = Some s'"
  obtains (timer) t where "e = E_timer" "timer_routine (tmr s) = Some t" "s' = s\<lparr>tmr := t\<rparr>"
  | (cpu) i where "e = E_cpu i" "cpu_step en i s s'"
  | (ld) q where "e = E_ld q" "ld_step en q s s'"
proof -
  have "os_do en e s = Next s'" using assms by (auto simp: os_next_def split: os_res.splits)
  then show ?thesis using timer cpu ld cpu_step_sound ld_step_sound
    by (cases e) (auto simp: os_do_def split: option.splits)
qed

lemma fin_inv_next:
  assumes F: "fin_inv en S B s" and n: "os_next en e s = Some s'"
  shows "fin_inv en S B s'"
proof -
  have I: "os_inv en s" "kept_inv en s" "joint s" "stop_inv en s" "time_inv en S s" "load_inv B s" "workload_ok en S B" "programs_ok en"
    using F by (simp_all add: fin_inv_def)
  have d: "os_do en e s = Next s'" using n by (auto simp: os_next_def split: os_res.splits)
  have "os_inv en s'" using safe_do [OF I(1,8), of e] d by (simp add: safe_res_def)
  moreover have "joint s'" by (rule joint_do [OF I(3) d])
  moreover have "kept_inv en s' \<and> stop_inv en s' \<and> time_inv en S s' \<and> load_inv B s'"
    using n
  proof (cases rule: os_next_cases)
    case (timer t)
    then show ?thesis using I stop_timer [OF I(3,4)] time_timer [OF I(3,5)]
      by (simp add: kept_inv_def load_inv_def active_def work_left_def)
  next
    case (cpu i)
    then show ?thesis
      using kept_cpu [OF I(1,2,7)] stop_cpu [OF I(1,3,4)] time_cpu [OF I(3,5)] load_cpu [OF I(1,2,7,6)] by blast
  next
    case (ld q)
    then show ?thesis
      using kept_ld [OF I(1,2,7,8)] stop_ld [OF I(3,4)] time_ld [OF I(3,5,2,1,7)] load_ld [OF I(1,2,7,6,8)] by blast
  qed
  ultimately show ?thesis using I(7,8) by (simp add: fin_inv_def)
qed

interpretation work: work_rounds "os_next en" tick "\<lambda>s. fin_inv en S B s \<and> ld_past en s" "\<lambda>s. active s \<noteq> {#}" hope work_left
  for en S B
proof
  fix s e s' assume A: "fin_inv en S B s \<and> ld_past en s" and n: "os_next en e s = Some s'"
  then have I: "os_inv en s" "kept_inv en s" "joint s" "stop_inv en s" "workload_ok en S B" by (simp_all add: fin_inv_def)
  have p: "ld_past en s" using A by simp
  have F: "fin_inv en S B s'" using fin_inv_next n A by blast
  show "fin_inv en S B s' \<and> ld_past en s'"
    using n F p ld_past_timer [OF I(3) p] ld_past_ld [OF I(3) p] ld_past_cpu [OF I(3)]
    by (cases rule: os_next_cases) auto
  have ld: "active s' = active s" "hope s' = hope s" "work_left s' = work_left s" if "ld_step en q s s'" for q
    using hope_ld [OF I(3) p that] work_left_cong [of s' s] by simp_all
  have cpus: "work_left s' < work_left s \<or> active s' = active s \<and> work_left s' = work_left s \<and> (hope s \<longrightarrow> hope s')" if "cpu_step en i s s'" for i
    using work_cpu [OF I(1,2,5) that] hope_cpu [OF I(1,3) that] work_left_cong [of s' s] by blast
  have timer: "active (s\<lparr>tmr := t\<rparr>) = active s" "work_left (s\<lparr>tmr := t\<rparr>) = work_left s" for t
    by (simp_all add: active_def work_left_def)
  show "work_left s' \<le> work_left s"
    using n
  proof (cases rule: os_next_cases)
    case (cpu i)
    then show ?thesis using cpus by fastforce
  qed (simp_all add: timer ld)
  show "active s \<noteq> {#}" if b: "active s' \<noteq> {#}"
    using n
  proof (cases rule: os_next_cases)
    case (cpu i)
    have "work_left s = 0" if "active s = {#}" using that by (simp add: work_left_def)
    then show ?thesis using cpus [OF cpu(2)] b by auto
  qed (use b timer ld in auto)
  show "hope s' \<or> work_left s' < work_left s" if "\<not> tick e s" "hope s"
    using n that cpus ld(2) hope_timer [OF I(3)] by (cases rule: os_next_cases) (auto simp: tick_def)
  show "\<not> hope s" if "tick e s" using no_hope_at_tick [OF I(3)] that by (simp add: tick_def)
  show "hope s'" if "tick e s" "active s' \<noteq> {#}"
    using n that hope_after_tick [OF I(3,4) p] by (cases rule: os_next_cases) (auto simp: tick_def active_def)
next
  fix s assume "fin_inv en S B s \<and> ld_past en s" "active s \<noteq> {#}"
  then show "0 < work_left s" using work_left_busy by (auto simp: fin_inv_def)
qed

section \<open>From the start\<close>

lemma rounds_split:
  "k \<le> rounds_ended step tk es s \<Longrightarrow> \<exists>es1 es2. es = es1 @ es2 \<and> rounds_ended step tk es1 s = k"
proof (induction es arbitrary: s k)
  case (Cons e es)
  show ?case
  proof (cases "step e s")
    case None
    with Cons.prems have "k \<le> rounds_ended step tk es s" by simp
    from Cons.IH [OF this] obtain es1 es2 where "es = es1 @ es2" "rounds_ended step tk es1 s = k" by blast
    then show ?thesis using None by (intro exI [of _ "e # es1"] exI [of _ es2]) simp
  next
    case (Some s1)
    show ?thesis
    proof (cases k)
      case 0
      then show ?thesis by (intro exI [of _ "[]"] exI [of _ "e # es"]) simp
    next
      case (Suc m)
      with Cons.prems Some have "k - of_bool (tk e s) \<le> rounds_ended step tk es s1" by simp
      from Cons.IH [OF this] obtain es1 es2 where "es = es1 @ es2" "rounds_ended step tk es1 s1 = k - of_bool (tk e s)" by blast
      then show ?thesis using Some Suc by (intro exI [of _ "e # es1"] exI [of _ es2]) simp
    qed
  qed
qed simp

lemma rounds_append:
  "rounds_run step (es @ fs) s = rounds_run step fs (rounds_run step es s)"
  "rounds_ended step tk (es @ fs) s = rounds_ended step tk es s + rounds_ended step tk fs (rounds_run step es s)"
  by (induction es arbitrary: s) (simp_all split: option.splits)

lemma os_exec_rounds: "os_exec en es s = Next s' \<Longrightarrow> s' = rounds_run (os_next en) es s"
  by (induction es arbitrary: s) (auto simp: os_next_def split: os_res.splits)

lemma current_time_slots:
  "current_time (tmr (rounds_run (os_next en) es s)) = current_time (tmr s) + of_nat (slots en es s)"
proof (induction es arbitrary: s)
  case (Cons e es)
  have t: "current_time (tmr s') = current_time (tmr s) + of_bool (tick e s)" if "os_next en e s = Some s'" for s'
    using that
  proof (cases rule: os_next_cases)
    case (timer t)
    then show ?thesis
      by (auto simp: tick_def timer_routine_def ticking_def current_time_def split: timer_pc.splits list.splits if_splits)
  next
    case (cpu i)
    then show ?thesis
      by (auto simp: tick_def set_cpu_def set_sched_def free_proc_def current_time_same elim!: cpu_step.cases)
  next
    case (ld q)
    then show ?thesis by (auto simp: tick_def current_time_same elim!: ld_step.cases)
  qed
  then show ?case using Cons by (auto simp: slots_def split: option.splits)
qed (simp add: slots_def)

lemma fin_boot:
  assumes "boot_ok en mr" "workload_ok en S B"
  shows "fin_inv en S B (main_setup en mr ms)"
proof -
  let ?s = "main_setup en mr ms" and ?n = "nat (num_cpus (e_cfg en))"
  have f: "cpus ?s = replicate ?n \<lparr>c_proc = None, time_left = 0, c_pc = Top\<rparr>" "l_pc ?s = L_top" "l_i ?s = 0" "l_proc ?s = None"
    "\<not> os_done ?s" "tmr ?s = boot_timer (Suc ?n)" "procs (wld ?s) = Map.empty" "sched (wld ?s) = init_scheduler zero_sched"
    by (simp_all add: main_setup_def Let_def)
  have a: "active ?s = {#}" using cpu_held_eq [of "cpus ?s"] by (simp add: active_def f ready_init)
  have np: "\<not> passed (boot_timer (Suc ?n)) ?n" by (simp add: passed_def boot_timer_fields)
  have "kept_inv en ?s" using assms(2) by (simp add: kept_inv_def a f ready_init workload_ok_def)
  moreover have "joint ?s" using assms(2) linked_boot [of en mr ms] boot_timer_inv by (auto simp: joint_def timed_def f workload_ok_def)
  moreover have "stop_inv en ?s" by (simp add: stop_inv_def ld_past_def f ready_init)
  moreover have "time_inv en S ?s" using np by (simp add: time_inv_def f current_time_def boot_timer_fields)
  moreover have "load_inv B ?s" by (simp add: load_inv_def work_left_def a f)
  ultimately show ?thesis using assms boot_inv [OF assms(1)] by (simp add: fin_inv_def boot_ok_def)
qed

lemma fin_run: "fin_inv en S B s \<Longrightarrow> fin_inv en S B (rounds_run (os_next en) es s)"
  by (induction es arbitrary: s) (auto split: option.splits intro: fin_inv_next)

text \<open>Enough slots and the loader is past its last process.\<close>

lemma past_after:
  assumes F: "fin_inv en S B (rounds_run (os_next en) es (main_setup en mr ms))"
    and n: "slots en es (main_setup en mr ms) = S + nat (num_processes (e_cfg en)) + 1"
  shows "ld_past en (rounds_run (os_next en) es (main_setup en mr ms))" (is "ld_past en ?s")
proof -
  let ?N = "nat (num_processes (e_cfg en))"
  have W: "workload_ok en S B" "kept_inv en ?s" "time_inv en S ?s" using F by (simp_all add: fin_inv_def)
  then have "?N \<le> MAX_QUEUE_SIZE" "S + MAX_QUEUE_SIZE + 1 < 2 ^ 64" and l: "l_i ?s \<le> ?N"
    by (auto simp: workload_ok_def kept_inv_def)
  then have lt: "S + ?N + 1 < 2 ^ 64" by linarith
  have "current_time (tmr ?s) = of_nat (S + ?N + 1)"
    using current_time_slots [of en es "main_setup en mr ms"] n
    by (simp add: main_setup_def Let_def) (simp add: current_time_def boot_timer_fields)
  then have "unat (current_time (tmr ?s)) = S + ?N + 1" using lt by (simp only: unat_of_nat) simp
  then show ?thesis using W(3) l by (auto simp: time_inv_def ld_past_def split: if_splits)
qed

lemma workload_done:
  assumes "boot_ok en mr" "workload_ok en S B" "s = rounds_run (os_next en) es (main_setup en mr ms)"
    and "S + nat (num_processes (e_cfg en)) * (B + 2) + 1 < slots en es (main_setup en mr ms)"
  shows "fin_inv en S B s \<and> ld_past en s \<and> active s = {#}"
proof -
  let ?b = "main_setup en mr ms" and ?N = "nat (num_processes (e_cfg en))"
  let ?r = "rounds_run (os_next en)"
  have "S + ?N + 1 \<le> rounds_ended (os_next en) tick es ?b" using assms(4) by (simp add: slots_def algebra_simps)
  from rounds_split [OF this] obtain es1 es2 where
    E: "es = es1 @ es2" "rounds_ended (os_next en) tick es1 ?b = S + ?N + 1" by blast
  let ?s1 = "?r es1 ?b"
  have F: "fin_inv en S B ?s1" using fin_run [OF fin_boot [OF assms(1,2)]] .
  have P: "ld_past en ?s1" using past_after [OF F] E(2) by (simp add: slots_def)
  have "kept_inv en ?s1" "load_inv B ?s1" using F by (simp_all add: fin_inv_def)
  then have "int (l_i ?s1) \<le> num_processes (e_cfg en)" "work_left ?s1 \<le> l_i ?s1 * Suc B"
    unfolding kept_inv_def load_inv_def by blast+
  then have "l_i ?s1 \<le> ?N" "work_left ?s1 \<le> l_i ?s1 * Suc B" by linarith+
  then have "work_left ?s1 \<le> ?N * Suc B" by (meson le_trans mult_le_mono1)
  moreover have "rounds_ended (os_next en) tick es2 ?s1 + (S + ?N + 1) = slots en es ?b"
    using E by (simp add: slots_def rounds_append)
  ultimately have "work_left ?s1 < rounds_ended (os_next en) tick es2 ?s1"
    using assms(4) by (simp add: algebra_simps)
  with work.done_after [of en S B ?s1 es2] work.inv_run [of en S B ?s1 es2] F P show ?thesis
    by (simp add: assms(3) E(1) rounds_append)
qed

section \<open>How many steps a slot takes\<close>

definition cpu_rank :: "bool \<Rightarrow> cpu_t \<Rightarrow> nat" where
  "cpu_rank over c = (case c_pc c of
     Sleeping \<Rightarrow> if over then 1 else 8 | Top \<Rightarrow> 7 | Refetch _ \<Rightarrow> 6 | Recheck \<Rightarrow> 5 | Run_inst \<Rightarrow> 4
   | Slot_end \<Rightarrow> 3 | Leaving \<Rightarrow> 3 | Stopped \<Rightarrow> 1)"

definition ld_rank :: "bool \<Rightarrow> ld_pc \<Rightarrow> nat" where
  "ld_rank over x = (case x of
     L_sleep \<Rightarrow> if over then 1 else 8 | L_wait_sleep \<Rightarrow> if over then 1 else 8 | L_top \<Rightarrow> 7 | L_wait \<Rightarrow> 6
   | L_slot \<Rightarrow> 5 | L_leaving \<Rightarrow> 5 | L_stopped \<Rightarrow> 1)"

definition timer_rank :: "timer_t \<Rightarrow> nat" where
  "timer_rank t = (case tpc t of
     Release_loop ds _ _ \<Rightarrow> length ds + length (dev_list t) + 3 | Loop_head \<Rightarrow> length (dev_list t) + 2
   | Wait_loop ds _ _ \<Rightarrow> length ds + 1 | Exited \<Rightarrow> 0)"

text \<open>An upper bound of the steps until the next tick.\<close>

definition slot_rank :: "os_t \<Rightarrow> nat" where
  "slot_rank s = (\<Sum>i < length (cpus s). cpu_rank (passed (tmr s) i) (cpus s ! i)) +
     ld_rank (passed (tmr s) (length (cpus s))) (l_pc s) + timer_rank (tmr s)"

lemma rank_bounds: "cpu_rank over c \<le> 8" "ld_rank over x \<le> 8"
  by (simp_all add: cpu_rank_def ld_rank_def split: cpu_pc.splits ld_pc.splits)

lemma timer_rank_bound:
  assumes "timed t"
  shows "timer_rank t \<le> 2 * length (dev_list t) + 3"
proof -
  from assms obtain c T where "timer_inv c T t" by (auto simp: timed_def)
  then have l: "loop_ok t" by (simp add: timer_inv_def)
  show ?thesis using l by (auto simp: timer_rank_def loop_ok_def split: timer_pc.splits)
qed

lemma slot_rank_bound:
  assumes "joint s"
  shows "slot_rank s \<le> 10 * length (cpus s) + 13"
proof -
  let ?n = "length (cpus s)"
  obtain c T where "timer_inv c T (tmr s)" using assms by (auto simp: joint_def timed_def)
  then have "distinct (dev_list (tmr s))" by (simp add: timer_inv_def)
  moreover have "set (dev_list (tmr s)) = {..<Suc ?n}" using assms by (simp add: joint_def linked_def)
  ultimately have "length (dev_list (tmr s)) = Suc ?n" using distinct_card by fastforce
  then have "timer_rank (tmr s) \<le> 2 * Suc ?n + 3" using timer_rank_bound [of "tmr s"] assms by (simp add: joint_def)
  moreover have "(\<Sum>i < ?n. cpu_rank (passed (tmr s) i) (cpus s ! i)) \<le> (\<Sum>i < ?n. 8)" by (rule sum_mono) (rule rank_bounds)
  moreover have "ld_rank (passed (tmr s) ?n) (l_pc s) \<le> 8" by (rule rank_bounds)
  ultimately show ?thesis by (simp add: slot_rank_def)
qed

lemma sum_one_less:
  fixes f g :: "nat \<Rightarrow> nat"
  assumes "i < n" "g i < f i" "\<And>j. j < n \<Longrightarrow> j \<noteq> i \<Longrightarrow> g j = f j"
  shows "(\<Sum>j < n. g j) < (\<Sum>j < n. f j)"
  using assms by (intro sum_strict_mono_ex1) (auto intro: bexI [of _ i] simp: le_less)

lemma timer_rank_same:
  "timer_rank (next_slot_signal d t) = timer_rank t" "timer_rank (detach_event d t) = timer_rank t"
  "next_slot_wake d t = Some t' \<Longrightarrow> timer_rank t' = timer_rank t"
  by (auto simp: timer_rank_def next_slot_signal_def detach_event_def next_slot_wake_def split: timer_pc.splits if_splits)

lemma rank_cpu:
  assumes J: "joint s" and st: "cpu_step en i s s'"
  shows "slot_rank s' < slot_rank s"
proof -
  note f = cpu_step_fields [OF st]
  have len: "length (cpus s') = length (cpus s)" using f(2) by auto
  note d = joint_cpu [OF J f(1)]
  have ti: "timed (tmr s)" using J by (simp add: joint_def)
  have "cpu_rank (passed (tmr s') i) (cpus s' ! i) < cpu_rank (passed (tmr s) i) (cpus s ! i)"
    using st
  proof cases
    case (signal c)
    then show ?thesis using passed_signal [OF ti d(1), of i] d(2) by (simp add: cpu_rank_def set_cpu_def cpu_dev_def)
  next
    case (wake c t)
    then show ?thesis using passed_wake [OF wake(4)] d(2) by (simp add: cpu_rank_def set_cpu_def cpu_dev_def)
  qed (auto simp: cpu_rank_def set_cpu_def set_sched_def free_proc_def)
  then have "(\<Sum>j < length (cpus s). cpu_rank (passed (tmr s') j) (cpus s' ! j)) < (\<Sum>j < length (cpus s). cpu_rank (passed (tmr s) j) (cpus s ! j))"
    using f(1,2) passed_cpu [OF J st] by (intro sum_one_less [of i]) auto
  moreover have "timer_rank (tmr s') = timer_rank (tmr s)"
    using st by cases (simp_all add: set_cpu_def set_sched_def free_proc_def timer_rank_same)
  ultimately show ?thesis using f(1,3) len passed_cpu [OF J st, of "length (cpus s)"] by (simp add: slot_rank_def)
qed

lemma rank_ld:
  assumes J: "joint s" and st: "ld_step en q s s'"
  shows "slot_rank s' < slot_rank s"
proof -
  note d = joint_ld [OF J]
  have ti: "timed (tmr s)" using J by (simp add: joint_def)
  have c: "cpus s' = cpus s" using st by cases simp_all
  have sig: "passed (next_slot_signal (length (cpus s)) (tmr s)) (length (cpus s))" if "ld_dev (l_pc s) = Working"
    using passed_signal [OF ti d(1)] d(2) that by simp
  have "ld_rank (passed (tmr s') (length (cpus s))) (l_pc s') < ld_rank (passed (tmr s) (length (cpus s))) (l_pc s)"
    using st
  proof cases
    case (wakes_wait t)
    then show ?thesis using passed_wake [OF wakes_wait(2)] d(2) by (simp add: ld_rank_def ld_dev_def)
  next
    case (wakes t)
    then show ?thesis using passed_wake [OF wakes(2)] d(2) by (simp add: ld_rank_def ld_dev_def)
  qed (use sig in \<open>simp_all add: ld_rank_def ld_dev_def\<close>)
  moreover have "(\<Sum>j < length (cpus s). cpu_rank (passed (tmr s') j) (cpus s' ! j)) = (\<Sum>j < length (cpus s). cpu_rank (passed (tmr s) j) (cpus s ! j))"
    using passed_ld [OF J st] c by (intro sum.cong) auto
  moreover have "timer_rank (tmr s') = timer_rank (tmr s)"
    using st by cases (simp_all add: timer_rank_same)
  ultimately show ?thesis by (simp add: slot_rank_def c)
qed

lemma rank_timer:
  assumes J: "joint s" and t: "timer_routine (tmr s) = Some t" "\<not> ticking (tmr s)"
  shows "slot_rank (s\<lparr>tmr := t\<rparr>) < slot_rank s"
proof -
  have "passed t j = passed (tmr s) j" if "j \<le> length (cpus s)" for j
    using passed_routine [OF _ t(1), of j] t(2) J that by (simp add: joint_def linked_def)
  then have "(\<Sum>j < length (cpus s). cpu_rank (passed t j) (cpus s ! j)) = (\<Sum>j < length (cpus s). cpu_rank (passed (tmr s) j) (cpus s ! j))"
    "passed t (length (cpus s)) = passed (tmr s) (length (cpus s))" by (auto intro: sum.cong)
  moreover have "timer_rank t < timer_rank (tmr s)"
    using t by (auto simp: timer_routine_def timer_rank_def ticking_def split: timer_pc.splits list.splits if_splits)
  ultimately show ?thesis by (simp add: slot_rank_def)
qed

text \<open>The steps of a run: the events that are enabled when their turn comes.\<close>

fun steps_taken :: "os_env \<Rightarrow> os_event list \<Rightarrow> os_t \<Rightarrow> nat" where
  "steps_taken en [] s = 0"
| "steps_taken en (e # es) s = (case os_next en e s of None \<Rightarrow> steps_taken en es s | Some s' \<Rightarrow> Suc (steps_taken en es s'))"

lemma joint_next: "joint s \<Longrightarrow> os_next en e s = Some s' \<Longrightarrow> joint s'"
  using joint_do by (auto simp: os_next_def split: os_res.splits)

lemma cpus_next: "os_next en e s = Some s' \<Longrightarrow> length (cpus s') = length (cpus s)"
  by (erule os_next_cases) (auto dest: cpu_step_fields(2) elim!: ld_step.cases)

lemma steps_in_slots:
  "joint s \<Longrightarrow> steps_taken en es s \<le> slot_rank s + slots en es s * (10 * length (cpus s) + 14)"
proof (induction es arbitrary: s)
  case (Cons e es)
  show ?case
  proof (cases "os_next en e s")
    case None
    then show ?thesis using Cons by (simp add: slots_def)
  next
    case (Some s')
    note J = joint_next [OF Cons.prems Some]
    have I: "steps_taken en es s' \<le> slot_rank s' + slots en es s' * (10 * length (cpus s) + 14)"
      using Cons.IH [OF J] cpus_next [OF Some] by simp
    show ?thesis
    proof (cases "tick e s")
      case True
      then show ?thesis using I slot_rank_bound [OF J] cpus_next [OF Some] Some by (simp add: slots_def)
    next
      case False
      have "slot_rank s' < slot_rank s" using Some
        by (cases rule: os_next_cases) (use False rank_timer [OF Cons.prems] rank_cpu [OF Cons.prems] rank_ld [OF Cons.prems] in \<open>auto simp: tick_def\<close>)
      then show ?thesis using I Some False by (simp add: slots_def)
    qed
  qed
qed simp

lemma steps_from_boot:
  assumes "0 < num_cpus (e_cfg en)"
  shows "steps_taken en es (main_setup en mr ms) \<le>
    (slots en es (main_setup en mr ms) + 1) * (10 * nat (num_cpus (e_cfg en)) + 14)"
proof -
  let ?b = "main_setup en mr ms"
  have n: "length (cpus ?b) = nat (num_cpus (e_cfg en))" "tmr ?b = boot_timer (Suc (nat (num_cpus (e_cfg en))))"
    by (simp_all add: main_setup_def Let_def)
  then have J: "joint ?b" using assms linked_boot [of en mr ms] boot_timer_inv by (auto simp: joint_def timed_def)
  from steps_in_slots [OF J, of en es] slot_rank_bound [OF J] show ?thesis by (simp add: n algebra_simps)
qed

text \<open>
  C13 (slot_takes_bounded_steps): a slot takes a bounded number of steps. With \<open>n\<close> CPUs, a run in which \<open>k\<close> slots have ended
  consists of at most \<open>(k + 1) (10 n + 14)\<close> steps of the CPUs, the loader and the timer, whatever the interleaving;
  events that are blocked are not counted. So no thread can run on while the others wait.
\<close>

theorem slot_takes_bounded_steps:
  assumes "0 < num_cpus (e_cfg en)"
  shows "steps_taken en es (main_setup en mr ms) \<le>
    (slots en es (main_setup en mr ms) + 1) * (10 * nat (num_cpus (e_cfg en)) + 14)"
  using steps_from_boot [OF assms] .

theorem slot_takes_bounded_steps_witness:
  "steps_taken demo_env [E_ld 7, E_ld 7, E_cpu 0] (main_setup demo_env demo_ram demo_ram) \<le>
    (slots demo_env [E_ld 7, E_ld 7, E_cpu 0] (main_setup demo_env demo_ram demo_ram) + 1) * 34"
  using slot_takes_bounded_steps [of demo_env "[E_ld 7, E_ld 7, E_cpu 0]" demo_ram demo_ram]
  by (simp add: demo_env_def demo_cfg_def)

section \<open>The workload completes\<close>

text \<open>A run can be continued until the program ends or as long as one likes.\<close>

lemma steps_append: "steps_taken en (es @ fs) s = steps_taken en es s + steps_taken en fs (rounds_run (os_next en) es s)"
  by (induction es arbitrary: s) (simp_all split: option.splits)

lemma long_run:
  assumes B: "boot_ok en mr" "workload_ok en S B"
  shows "\<exists>es s. os_exec en es (main_setup en mr ms) = Next s \<and> (all_joined s \<or> k \<le> steps_taken en es (main_setup en mr ms))"
proof (induction k)
  case 0
  show ?case by (intro exI [of _ "[]"]) simp
next
  case (Suc k)
  let ?b = "main_setup en mr ms"
  from Suc.IH obtain es s where E: "os_exec en es ?b = Next s" "all_joined s \<or> k \<le> steps_taken en es ?b" by blast
  show ?case
  proof (cases "all_joined s")
    case True
    then show ?thesis using E(1) by blast
  next
    case False
    have F: "fin_inv en S B s" using fin_run [OF fin_boot [OF B]] os_exec_rounds [OF E(1)] by simp
    then have "{p. procs (wld s) p \<noteq> None} \<subseteq> set_mset (active s + opt_mset (l_proc s))" by (auto simp: fin_inv_def kept_inv_def)
    then have "finite {p. procs (wld s) p \<noteq> None}" using finite_set_mset finite_subset by blast
    then obtain q where "procs (wld s) q = None" using ex_new_if_finite [OF infinite_UNIV_nat] by blast
    from progress [OF E(1) refl False this] obtain j s1 e where
      P: "os_exec en (replicate j E_timer) s = Next s1" "os_do en e s1 \<noteq> Blocked" by blast
    have "fin_inv en S B s1" using fin_run [OF F] os_exec_rounds [OF P(1)] by simp
    then have "safe_res en (os_do en e s1)" using safe_do by (simp add: fin_inv_def)
    then obtain s2 where s2: "os_do en e s1 = Next s2" using P(2) by (cases "os_do en e s1") (auto simp: safe_res_def)
    have "os_exec en (es @ replicate j E_timer @ [e]) ?b = Next s2" using E(1) P(1) s2 by (simp add: os_exec_append)
    moreover have "steps_taken en es ?b < steps_taken en (es @ replicate j E_timer @ [e]) ?b"
      using os_exec_rounds [OF E(1)] os_exec_rounds [OF P(1)] s2 by (simp add: steps_append rounds_append os_next_def)
    ultimately show ?thesis using E(2) False by (metis Suc_leI le_less_trans)
  qed
qed

lemma joined_done:
  assumes "fin_inv en S B s" "all_joined s"
  shows "ld_past en s \<and> active s = {#}"
proof -
  have F: "stop_inv en s" "time_inv en S s" using assms(1) by (simp_all add: fin_inv_def)
  have j: "l_pc s = L_stopped" "\<And>c. c \<in> set (cpus s) \<Longrightarrow> c_pc c = Stopped" using assms(2) by (simp_all add: all_joined_def)
  then have p: "ld_past en s" using F(2) by (simp add: time_inv_def ld_past_def)
  moreover have "ready_procs (sched (wld s)) = {#}" using F(1) p j(2) by (auto simp: stop_inv_def closing_def)
  moreover have "cpu_held (cpus s) = {#}" using F(1) j(2) by (auto simp: cpu_held_eq stop_inv_def)
  ultimately show ?thesis by (simp add: active_def)
qed

lemma workload_finishes:
  assumes "boot_ok en mr" "workload_ok en S B" "os_exec en es (main_setup en mr ms) = Next s"
    and "N = nat (num_processes (e_cfg en))" "n = nat (num_cpus (e_cfg en))"
    and "all_joined s \<or> (S + N * (B + 2) + 3) * (10 * n + 14) \<le> steps_taken en es (main_setup en mr ms)"
  shows "procs (wld s) = Map.empty \<and> l_i s = N \<and> ready_procs (sched (wld s)) = {#} \<and> (\<forall>c \<in> set (cpus s). c_proc c = None)"
proof -
  have s: "s = rounds_run (os_next en) es (main_setup en mr ms)" by (rule os_exec_rounds [OF assms(3)])
  have F: "fin_inv en S B s" using fin_run [OF fin_boot [OF assms(1,2)]] s by simp
  have "ld_past en s \<and> active s = {#}"
  proof (cases "all_joined s")
    case True
    then show ?thesis by (rule joined_done [OF F])
  next
    case False
    have "0 < num_cpus (e_cfg en)" using assms(2) by (simp add: workload_ok_def)
    from steps_from_boot [OF this, of es mr ms] assms(5,6) False
    have "(S + N * (B + 2) + 3) * (10 * n + 14) \<le> (slots en es (main_setup en mr ms) + 1) * (10 * n + 14)" by simp
    then have "S + N * (B + 2) + 3 \<le> slots en es (main_setup en mr ms) + 1"
      by (rule mult_le_cancel2 [THEN iffD1, THEN mp]) simp
    then show ?thesis using workload_done [OF assms(1,2) s] assms(4) by simp
  qed
  moreover have "kept_inv en s" "os_inv en s" using F by (simp_all add: fin_inv_def)
  ultimately have L: "l_proc s = None" "l_i s = N" "active s = {#}"
    using assms(4) by (auto simp: os_inv_def ld_past_def kept_inv_def)
  then have "procs (wld s) p = None" for p using \<open>kept_inv en s\<close> by (auto simp: kept_inv_def)
  then show ?thesis using L cpu_held_eq [of "cpus s"] by (auto simp: active_def)
qed


lemma demo_workload: "workload_ok demo_env 0 2"
  using demo_load demo_env_fields
  by (auto simp: workload_ok_def demo_cfg_def demo_pcb_def MAX_QUEUE_SIZE_def MAX_PRIO_def demo_env_def)


end
