(* ===== verification/ProcSpec.thy ===== *)
theory ProcSpec
  imports CpuSafety
begin

text \<open>
  The machine a process sees, as a specification: its registers, its regions, its break and a memory of
  \<open>2 ^ 22\<close> bytes in which a byte is either known or not yet backed by a frame. Every instruction of
  \<^verbatim>\<open>src/src/cpu.c\<close>, with the library, the page table and the device under it, does to this view what
  \<open>inst_spec\<close> says, and nothing to the view of any other process.
\<close>

section \<open>The specification\<close>

record aproc =
  v_regs :: "addr_t list"
  v_rgs :: "vm_rg_struct list"
  v_brk :: addr_t
  v_byte :: "nat \<Rightarrow> byte option"

definition region_no :: "int \<Rightarrow> bool" where
  "region_no i \<longleftrightarrow> 0 \<le> i \<and> i < int PAGING_MAX_SYMTBL_SZ"

text \<open>A new region starts at the break; nothing happens if the number is invalid or in use.\<close>

definition a_alloc :: "int \<Rightarrow> addr_t \<Rightarrow> aproc \<Rightarrow> addr_t option \<times> aproc" where
  "a_alloc i sz a =
     (if region_no i \<and> \<not> rg_used (v_rgs a ! nat i)
      then (Some (v_brk a), a\<lparr>v_rgs := (v_rgs a)[nat i := \<lparr>rg_start = v_brk a, rg_end = v_brk a + sz\<rparr>], v_brk := v_brk a + sz\<rparr>)
      else (None, a))"

definition a_free :: "int \<Rightarrow> aproc \<Rightarrow> aproc" where
  "a_free i a =
     (if region_no i \<and> rg_start (v_rgs a ! nat i) < rg_end (v_rgs a ! nat i)
      then a\<lparr>v_rgs := (v_rgs a)[nat i := \<lparr>rg_start = 0, rg_end = 0\<rparr>]\<rparr> else a)"

text \<open>The address of an offset in a region; an unused region first becomes one of 100 bytes.\<close>

definition a_region :: "int \<Rightarrow> addr_t \<Rightarrow> aproc \<Rightarrow> addr_t option \<times> aproc" where
  "a_region i off a =
     (let b = snd (a_alloc i 100 a); rg = v_rgs b ! nat i in
      (if region_no i \<and> rg_start rg < rg_end rg \<and> off < rg_end rg - rg_start rg then Some (rg_start rg + off) else None, b))"

text \<open>
  An access to byte \<open>x\<close>. The page of \<open>x\<close> may become known with it; what was known stays as it was. If the byte is not
  known and \<open>room\<close> does not hold, the access may also fail, and then nothing changes.
\<close>

definition a_touch :: "nat \<Rightarrow> aproc \<Rightarrow> aproc \<Rightarrow> bool" where
  "a_touch x a a' \<longleftrightarrow> a' = a\<lparr>v_byte := v_byte a'\<rparr> \<and> v_byte a' x \<noteq> None \<and>
     (\<forall>b. v_byte a b \<noteq> None \<or> b div 4096 \<noteq> x div 4096 \<longrightarrow> v_byte a' b = v_byte a b)"

definition a_fault :: "bool \<Rightarrow> nat \<Rightarrow> aproc \<Rightarrow> aproc \<Rightarrow> bool" where
  "a_fault room x a a' \<longleftrightarrow> \<not> room \<and> v_byte a x = None \<and> a' = a"

definition inst_spec :: "bool \<Rightarrow> inst_t \<Rightarrow> aproc \<Rightarrow> aproc \<Rightarrow> bool" where
  "inst_spec room ins a a' = (case opcode ins of
     CALC \<Rightarrow> a' = a
   | SYSCALL \<Rightarrow> a' = a
   | ALLOC \<Rightarrow> (let r = ucast (arg_1 ins) :: u32 in case a_alloc (sint r) (arg_0 ins) a of
       (None, b) \<Rightarrow> a' = b
     | (Some x, b) \<Rightarrow> a' = b\<lparr>v_regs := (v_regs b)[unat r := x]\<rparr>)
   | FREE \<Rightarrow> (let r = ucast (arg_0 ins) :: u32 in a' = (if v_regs a ! unat r = 0 then a else a_free (sint r) a))
   | READ \<Rightarrow> (case a_region (sint (ucast (arg_0 ins) :: u32)) (arg_1 ins) a of
       (None, b) \<Rightarrow> a' = b
     | (Some t, b) \<Rightarrow> a_fault room (vaddr (ucast t)) b a' \<or>
         (\<exists>c. a_touch (vaddr (ucast t)) b c \<and>
            a' = c\<lparr>v_regs := (v_regs c)[unat (arg_2 ins) := ucast (scast (the (v_byte c (vaddr (ucast t)))) :: u32)]\<rparr>))
   | WRITE \<Rightarrow> (case a_region (sint (ucast (arg_1 ins) :: u32)) (arg_2 ins) a of
       (None, b) \<Rightarrow> a' = b
     | (Some t, b) \<Rightarrow> a_fault room (vaddr (ucast t)) b a' \<or>
         (\<exists>c. a_touch (vaddr (ucast t)) b c \<and> a' = c\<lparr>v_byte := (v_byte c)(vaddr (ucast t) \<mapsto> ucast (arg_0 ins))\<rparr>)))"

section \<open>The view of a process\<close>

definition byte_view :: "maps \<Rightarrow> memphy_struct \<Rightarrow> proc_ptr \<Rightarrow> nat \<Rightarrow> byte option" where
  "byte_view ms mp p b = (if b < 2 ^ 22 then vbyte ms mp p b else None)"

definition aview_of :: "pcb_t \<Rightarrow> mm_struct \<Rightarrow> (nat \<Rightarrow> byte option) \<Rightarrow> aproc" where
  "aview_of c m f = \<lparr>v_regs = regs c, v_rgs = symrgtbl m, v_brk = sbrk (mmap m ! 0), v_byte = f\<rparr>"

definition aview :: "world \<Rightarrow> proc_ptr \<Rightarrow> aproc option" where
  "aview w p = (case procs w p of None \<Rightarrow> None | Some pr \<Rightarrow> (case mm (krnl pr) of None \<Rightarrow> None | Some m \<Rightarrow>
     Some (aview_of (pcb pr) m (byte_view (maps_of w) (ram w) p))))"

lemma aview_Some: "procs w p = Some pr \<Longrightarrow> mm (krnl pr) = Some m \<Longrightarrow>
    aview w p = Some (aview_of (pcb pr) m (byte_view (maps_of w) (ram w) p))"
  by (simp add: aview_def)

lemma aview_commit:
  "mm k = Some m' \<Longrightarrow> aview (commit w p c k) p = Some (aview_of c m' (byte_view ((maps_of w)(p \<mapsto> m')) (mram k) p))"
proof -
  assume "mm k = Some m'"
  moreover have "procs (commit w p c k) p = Some \<lparr>pcb = c, krnl = k\<rparr>" "ram (commit w p c k) = mram k" by (simp_all add: commit_def)
  ultimately show ?thesis by (simp add: aview_def maps_of_commit)
qed

text \<open>A step of another process does not change the view.\<close>

lemma aview_other: "proc_step M w p w' \<Longrightarrow> q \<noteq> p \<Longrightarrow> aview w' q = aview w q"
proof -
  assume st: "proc_step M w p w'" and q: "q \<noteq> p"
  then have "byte_view (maps_of w') (ram w') q = byte_view (maps_of w) (ram w) q"
    by (intro HOL.ext) (simp add: byte_view_def proc_step_def)
  moreover have "procs w' q = procs w q" using st q by (simp add: proc_step_def)
  ultimately show ?thesis by (simp add: aview_def split: option.split)
qed

section \<open>The library meets the specification\<close>

lemma byte_view_pgd: "pgd m' = pgd m \<Longrightarrow> ms p = Some m \<Longrightarrow> byte_view (ms(p \<mapsto> m')) mp p = byte_view ms mp p"
proof -
  assume "pgd m' = pgd m" "ms p = Some m"
  moreover from this have "ms(p \<mapsto> m) = ms" by auto
  ultimately show ?thesis using frm_of_pgd [of m' m ms p mp] by (auto simp: byte_view_def vbyte_def)
qed

lemma alloc_spec:
  assumes m: "mm k = Some m" "rg_inv m" and sz: "unat sz + 4095 < 2 ^ 31"
  shows "\<exists>r x m'. mm_alloc M k 0 i sz = Some (r, x, k\<lparr>mm := Some m'\<rparr>) \<and> pgd m' = pgd m \<and>
    a_alloc i sz (aview_of c m f) = (if r = 0 then Some x else None, aview_of c m' f)"
proof (cases "region_no i \<and> \<not> rg_used (symrgtbl m ! nat i)")
  case True
  then have "mm_alloc M k 0 i sz = Some (0, sbrk (mmap m ! 0), k\<lparr>mm := Some (alloc_mm m (nat i) sz)\<rparr>)"
    using mm_alloc_eq [OF m, of i sz M] sz by (simp add: region_no_def)
  moreover have "mmap m \<noteq> []" using m(2) by (simp add: rg_inv_def)
  ultimately show ?thesis using True by (auto simp: a_alloc_def aview_of_def alloc_mm_def Let_def)
next
  case False
  have "mmap m \<noteq> []" using m(2) by (simp add: rg_inv_def)
  from mm_alloc_err [OF m(1) this, of i M sz] False have "mm_alloc M k 0 i sz = Some (-1, 0, k\<lparr>mm := Some m\<rparr>)"
    by (auto simp: region_no_def krnl_mm_same [OF m(1)])
  then show ?thesis using False by (auto simp: a_alloc_def aview_of_def)
qed

lemma free_spec:
  assumes m: "mm k = Some m"
  shows "\<exists>r m'. mm_free k 0 i = Some (r, k\<lparr>mm := Some m'\<rparr>) \<and> pgd m' = pgd m \<and> a_free i (aview_of c m f) = aview_of c m' f"
proof (cases rule: mm_free_cases [OF m, of i, case_names error freed])
  case error
  then have "mm_free k 0 i = Some (-1, k\<lparr>mm := Some m\<rparr>)" by (simp add: krnl_mm_same [OF m])
  with error(2) show ?thesis by (auto simp: a_free_def aview_of_def region_no_def)
next
  case freed
  then show ?thesis by (auto simp: a_free_def aview_of_def region_no_def free_mm_def)
qed

lemma region_spec:
  assumes m: "mm k = Some m" "rg_inv m"
  shows "\<exists>t m'. region_addr M k 0 i off = Some (t, k\<lparr>mm := Some m'\<rparr>) \<and> pgd m' = pgd m \<and>
    a_region i off (aview_of c m f) = (t, aview_of c m' f)"
proof (cases "region_no i")
  case False
  then show ?thesis using m(1)
    by (intro exI [of _ None] exI [of _ m]) (auto simp: region_addr_def a_region_def a_alloc_def region_no_def krnl_mm_same Let_def)
next
  case i: True
  have sz: "unat (100::addr_t) + 4095 < 2 ^ 31" by simp
  from alloc_spec [OF m sz, of M i c f] obtain r x m' where
    A: "mm_alloc M k 0 i 100 = Some (r, x, k\<lparr>mm := Some m'\<rparr>)" "pgd m' = pgd m"
      "a_alloc i 100 (aview_of c m f) = (if r = 0 then Some x else None, aview_of c m' f)" by blast
  show ?thesis
  proof (cases "rg_used (symrgtbl m ! nat i)")
    case True
    then have "a_region i off (aview_of c m f) = (fst (a_region i off (aview_of c m f)), aview_of c m f)"
      by (simp add: a_region_def a_alloc_def aview_of_def Let_def)
    moreover have "region_addr M k 0 i off = Some (fst (a_region i off (aview_of c m f)), k\<lparr>mm := Some m\<rparr>)"
      using m(1) i True by (auto simp: region_addr_def a_region_def a_alloc_def region_no_def rg_used_def aview_of_def krnl_mm_same Let_def)
    ultimately show ?thesis by blast
  next
    case False
    then have "r = 0" using A(3) i by (auto simp: a_alloc_def aview_of_def split: if_splits)
    then show ?thesis using False A m(1) i
      by (auto simp: region_addr_def a_region_def region_no_def rg_used_def aview_of_def Let_def)
  qed
qed

text \<open>An access to a page, seen by its process.\<close>

lemma touch_view:
  assumes "keeps_bytes ms mp (ms(p \<mapsto> m')) mp' p (vaddr x)" "vbyte (ms(p \<mapsto> m')) mp' p (vaddr x) \<noteq> None"
    and "symrgtbl m' = symrgtbl m" "mmap m' = mmap m"
  shows "a_touch (vaddr x) (aview_of c m (byte_view ms mp p)) (aview_of c m' (byte_view (ms(p \<mapsto> m')) mp' p))"
  using assms vaddr_less [of x] by (auto simp: a_touch_def aview_of_def byte_view_def keeps_bytes_def)

lemma getval_spec:
  assumes "memphy_ok M" "vm_inv ms (mram k)" "mm k = Some m" "ms p = Some m" "0 \<notin> set (free_fp_list (mram k))"
  shows "\<exists>r v m' mp' b. pg_getval M k x = Some (r, v, k\<lparr>mm := Some m', mram := mp'\<rparr>) \<and>
    b = aview_of c m' (byte_view (ms(p \<mapsto> m')) mp' p) \<and>
    (if r = 0 then a_touch (vaddr x) (aview_of c m (byte_view ms (mram k) p)) b \<and> v_byte b (vaddr x) = Some v
     else a_fault (5 \<le> length (free_fp_list (mram k))) (vaddr x) (aview_of c m (byte_view ms (mram k) p)) b)"
proof (cases rule: pg_getval_ok [OF assms refl, of x, case_names ok fail])
  case (ok v m' mp')
  then have "a_touch (vaddr x) (aview_of c m (byte_view ms (mram k) p)) (aview_of c m' (byte_view (ms(p \<mapsto> m')) mp' p))"
    by (intro touch_view) auto
  moreover have "v_byte (aview_of c m' (byte_view (ms(p \<mapsto> m')) mp' p)) (vaddr x) = Some v"
    using ok(3) vaddr_less [of x] by (simp add: aview_of_def byte_view_def)
  ultimately show ?thesis using ok(1) by auto
next
  case (fail m' mp')
  then have "byte_view (ms(p \<mapsto> m')) mp' p = byte_view ms (mram k) p" by (intro HOL.ext) (simp add: byte_view_def)
  then show ?thesis using fail
    by (intro exI [of _ "-1"] exI [of _ 0] exI [of _ m'] exI [of _ mp'] exI [of _ "aview_of c m' (byte_view (ms(p \<mapsto> m')) mp' p)"])
      (simp add: a_fault_def aview_of_def, simp add: byte_view_def)
qed

lemma setval_spec:
  assumes "memphy_ok M" "vm_inv ms (mram k)" "mm k = Some m" "ms p = Some m" "0 \<notin> set (free_fp_list (mram k))"
  shows "\<exists>r m' mp' b. pg_setval M k x v = Some (r, k\<lparr>mm := Some m', mram := mp'\<rparr>) \<and>
    aview_of c m' (byte_view (ms(p \<mapsto> m')) mp' p) = (if r = 0 then b\<lparr>v_byte := (v_byte b)(vaddr x \<mapsto> v)\<rparr> else b) \<and>
    (if r = 0 then a_touch (vaddr x) (aview_of c m (byte_view ms (mram k) p)) b
     else a_fault (5 \<le> length (free_fp_list (mram k))) (vaddr x) (aview_of c m (byte_view ms (mram k) p)) b)"
proof (cases rule: pg_setval_ok [OF assms refl, of x v, case_names ok fail])
  case (ok m' mp1 mp')
  let ?b = "aview_of c m' (byte_view (ms(p \<mapsto> m')) mp1 p)"
  have v: "byte_view (ms(p \<mapsto> m')) mp' p = (byte_view (ms(p \<mapsto> m')) mp1 p)(vaddr x \<mapsto> v)"
    using ok(5) vaddr_less [of x] by (intro HOL.ext) (simp add: byte_view_def)
  have "a_touch (vaddr x) (aview_of c m (byte_view ms (mram k) p)) ?b" using ok by (intro touch_view) auto
  then show ?thesis using ok(1) v
    by (intro exI [of _ 0] exI [of _ m'] exI [of _ mp'] exI [of _ ?b]) (simp add: aview_of_def)
next
  case (fail m' mp')
  then have "byte_view (ms(p \<mapsto> m')) mp' p = byte_view ms (mram k) p" by (intro HOL.ext) (simp add: byte_view_def)
  then show ?thesis using fail
    by (intro exI [of _ "-1"] exI [of _ m'] exI [of _ mp'] exI [of _ "aview_of c m' (byte_view (ms(p \<mapsto> m')) mp' p)"])
      (simp add: a_fault_def aview_of_def, simp add: byte_view_def)
qed

section \<open>Every instruction meets the specification\<close>

lemma view_facts:
  assumes w: "world_inv M w" and pr: "procs w p = Some pr" "mm (krnl pr) = Some m"
  shows "memphy_ok M" "vm_inv (maps_of w) (mram (view w pr))" "0 \<notin> set (free_fp_list (mram (view w pr)))" "rg_inv m"
    "mm (view w pr) = Some m" "maps_of w p = Some m" "mram (view w pr) = ram w" "(maps_of w)(p \<mapsto> m) = maps_of w"
proof -
  show mp: "maps_of w p = Some m" using pr by (simp add: maps_of_def)
  then show "(maps_of w)(p \<mapsto> m) = maps_of w" by auto
qed (use w pr in \<open>simp_all add: world_inv_def view_def\<close>)

text \<open>The address of an access: the map may have changed, the bytes have not.\<close>

lemma region_view:
  assumes w: "world_inv M w" and pr: "procs w p = Some pr" "mm (krnl pr) = Some m"
    and a: "a = aview_of (pcb pr) m (byte_view (maps_of w) (ram w) p)"
  obtains t m1 where "region_addr M (view w pr) 0 i off = Some (t, (view w pr)\<lparr>mm := Some m1\<rparr>)"
    "a_region i off a = (t, aview_of (pcb pr) m1 (byte_view ((maps_of w)(p \<mapsto> m1)) (ram w) p))"
    "vm_inv ((maps_of w)(p \<mapsto> m1)) (mram ((view w pr)\<lparr>mm := Some m1\<rparr>))"
proof -
  note V = view_facts [OF w pr]
  from region_spec [OF V(5,4), of M i off "pcb pr" "byte_view (maps_of w) (ram w) p"] obtain t m1 where
    R: "region_addr M (view w pr) 0 i off = Some (t, (view w pr)\<lparr>mm := Some m1\<rparr>)" "pgd m1 = pgd m"
      "a_region i off a = (t, aview_of (pcb pr) m1 (byte_view (maps_of w) (ram w) p))"
    using a by blast
  have "vm_inv ((maps_of w)(p \<mapsto> m1)) (mram ((view w pr)\<lparr>mm := Some m1\<rparr>))"
    using V(2,8) vm_inv_pgd [OF R(2), of "maps_of w" p "mram (view w pr)"] by simp
  moreover have "byte_view ((maps_of w)(p \<mapsto> m1)) (ram w) p = byte_view (maps_of w) (ram w) p"
    by (rule byte_view_pgd [of m1 m "maps_of w" p, OF R(2) V(6)])
  ultimately show thesis using that R by simp
qed

lemma exec_alloc_spec:
  assumes w: "world_inv M w" and pr: "procs w p = Some pr" "mm (krnl pr) = Some m" and safe: "safe_inst ins"
    and a: "a = aview_of (pcb pr) m (byte_view (maps_of w) (ram w) p)"
    and ex: "exec M w p ins = Some (r, w')" and op: "opcode ins = ALLOC"
  shows "\<exists>a'. aview w' p = Some a' \<and> inst_spec (5 \<le> length (free_fp_list (ram w))) ins a a'"
proof -
  note V = view_facts [OF w pr]
  let ?r = "ucast (arg_1 ins) :: u32"
  have sz: "unat (arg_0 ins) + 4095 < 2 ^ 31" using safe op by (simp add: safe_inst_def)
  from alloc_spec [OF V(5,4) sz, of M "sint ?r" "pcb pr" "byte_view (maps_of w) (ram w) p"] obtain v x m' where
    A: "mm_alloc M (view w pr) 0 (sint ?r) (arg_0 ins) = Some (v, x, (view w pr)\<lparr>mm := Some m'\<rparr>)" "pgd m' = pgd m"
      "a_alloc (sint ?r) (arg_0 ins) a = (if v = 0 then Some x else None, aview_of (pcb pr) m' (byte_view (maps_of w) (ram w) p))"
    using a by blast
  then have "w' = commit w p (if v = 0 then (pcb pr)\<lparr>regs := (regs (pcb pr))[unat ?r := x]\<rparr> else pcb pr) ((view w pr)\<lparr>mm := Some m'\<rparr>)"
    using ex op pr by (auto simp: exec_def Let_def liballoc_def split: if_splits)
  then have "aview w' p = Some (aview_of (if v = 0 then (pcb pr)\<lparr>regs := (regs (pcb pr))[unat ?r := x]\<rparr> else pcb pr) m' (byte_view (maps_of w) (ram w) p))"
    using byte_view_pgd [of m' m "maps_of w" p, OF A(2) V(6)] by (simp add: aview_commit V(7))
  then show ?thesis using A(3) op by (auto simp: inst_spec_def Let_def aview_of_def)
qed

lemma exec_free_spec:
  assumes w: "world_inv M w" and pr: "procs w p = Some pr" "mm (krnl pr) = Some m" and safe: "safe_inst ins"
    and a: "a = aview_of (pcb pr) m (byte_view (maps_of w) (ram w) p)"
    and ex: "exec M w p ins = Some (r, w')" and op: "opcode ins = FREE"
  shows "\<exists>a'. aview w' p = Some a' \<and> inst_spec (5 \<le> length (free_fp_list (ram w))) ins a a'"
proof -
  note V = view_facts [OF w pr]
  let ?r = "ucast (arg_0 ins) :: u32"
  from free_spec [OF V(5), of "sint ?r" "pcb pr" "byte_view (maps_of w) (ram w) p"] obtain v m' where
    A: "mm_free (view w pr) 0 (sint ?r) = Some (v, (view w pr)\<lparr>mm := Some m'\<rparr>)" "pgd m' = pgd m"
      "a_free (sint ?r) a = aview_of (pcb pr) m' (byte_view (maps_of w) (ram w) p)" using a by blast
  have "w' = commit w p (pcb pr) (if regs (pcb pr) ! unat ?r = 0 then view w pr else (view w pr)\<lparr>mm := Some m'\<rparr>)"
    using ex op pr A(1) by (auto simp: exec_def Let_def libfree_def split: if_splits)
  then have "aview w' p = Some (if regs (pcb pr) ! unat ?r = 0 then a else a_free (sint ?r) a)"
    using byte_view_pgd [of m' m "maps_of w" p, OF A(2) V(6)] A(3) V(5,8) a by (simp add: aview_commit V(7))
  then show ?thesis using op a by (simp add: inst_spec_def Let_def) (simp add: aview_of_def)
qed

lemma exec_read_spec:
  assumes w: "world_inv M w" and pr: "procs w p = Some pr" "mm (krnl pr) = Some m" and safe: "safe_inst ins"
    and a: "a = aview_of (pcb pr) m (byte_view (maps_of w) (ram w) p)"
    and ex: "exec M w p ins = Some (r, w')" and op: "opcode ins = READ"
  shows "\<exists>a'. aview w' p = Some a' \<and> inst_spec (5 \<le> length (free_fp_list (ram w))) ins a a'"
proof -
  note V = view_facts [OF w pr]
  let ?i = "sint (ucast (arg_0 ins) :: u32)"
  obtain t m1 where
    R: "region_addr M (view w pr) 0 ?i (arg_1 ins) = Some (t, (view w pr)\<lparr>mm := Some m1\<rparr>)"
      "a_region ?i (arg_1 ins) a = (t, aview_of (pcb pr) m1 (byte_view ((maps_of w)(p \<mapsto> m1)) (ram w) p))"
      "vm_inv ((maps_of w)(p \<mapsto> m1)) (mram ((view w pr)\<lparr>mm := Some m1\<rparr>))" by (rule region_view [OF w pr a])
  show ?thesis
  proof (cases t)
    case None
    then have "w' = commit w p (pcb pr) ((view w pr)\<lparr>mm := Some m1\<rparr>)"
      using ex op pr R(1) by (auto simp: exec_def Let_def libread_def mm_read_def)
    then show ?thesis using R(2) None op by (simp add: aview_commit V(7) inst_spec_def)
  next
    case (Some x)
    let ?x = "ucast x :: u32"
    have k1: "mm ((view w pr)\<lparr>mm := Some m1\<rparr>) = Some m1" "((maps_of w)(p \<mapsto> m1)) p = Some m1"
      "0 \<notin> set (free_fp_list (mram ((view w pr)\<lparr>mm := Some m1\<rparr>)))" "mram ((view w pr)\<lparr>mm := Some m1\<rparr>) = ram w"
      using V(3,7) by simp_all
    note S = getval_spec [OF V(1) R(3) k1(1-3), of ?x "pcb pr", unfolded k1(4) fun_upd_upd]
    from S obtain v y m' mp' b where
      G: "pg_getval M ((view w pr)\<lparr>mm := Some m1\<rparr>) ?x = Some (v, y, (view w pr)\<lparr>mm := Some m', mram := mp'\<rparr>)"
        "b = aview_of (pcb pr) m' (byte_view ((maps_of w)(p \<mapsto> m')) mp' p)"
        "if v = 0 then a_touch (vaddr ?x) (aview_of (pcb pr) m1 (byte_view ((maps_of w)(p \<mapsto> m1)) (ram w) p)) b \<and> v_byte b (vaddr ?x) = Some y
         else a_fault (5 \<le> length (free_fp_list (ram w))) (vaddr ?x) (aview_of (pcb pr) m1 (byte_view ((maps_of w)(p \<mapsto> m1)) (ram w) p)) b"
      by auto
    let ?d = "if v = 0 then (pcb pr)\<lparr>regs := (regs (pcb pr))[unat (arg_2 ins) := ucast (scast y :: u32)]\<rparr> else pcb pr"
    have "w' = commit w p ?d ((view w pr)\<lparr>mm := Some m', mram := mp'\<rparr>)"
      using ex op pr R(1) Some G(1) by (auto simp: exec_def Let_def libread_def mm_read_def split: if_splits)
    then have "aview w' p = Some (if v = 0 then b\<lparr>v_regs := (v_regs b)[unat (arg_2 ins) := ucast (scast y :: u32)]\<rparr> else b)"
      by (simp add: aview_commit G(2)) (simp add: aview_of_def)
    then show ?thesis using G(3) R(2) Some op by (auto simp: inst_spec_def split: if_splits)
  qed
qed

lemma exec_write_spec:
  assumes w: "world_inv M w" and pr: "procs w p = Some pr" "mm (krnl pr) = Some m" and safe: "safe_inst ins"
    and a: "a = aview_of (pcb pr) m (byte_view (maps_of w) (ram w) p)"
    and ex: "exec M w p ins = Some (r, w')" and op: "opcode ins = WRITE"
  shows "\<exists>a'. aview w' p = Some a' \<and> inst_spec (5 \<le> length (free_fp_list (ram w))) ins a a'"
proof -
  note V = view_facts [OF w pr]
  let ?i = "sint (ucast (arg_1 ins) :: u32)"
  obtain t m1 where
    R: "region_addr M (view w pr) 0 ?i (arg_2 ins) = Some (t, (view w pr)\<lparr>mm := Some m1\<rparr>)"
      "a_region ?i (arg_2 ins) a = (t, aview_of (pcb pr) m1 (byte_view ((maps_of w)(p \<mapsto> m1)) (ram w) p))"
      "vm_inv ((maps_of w)(p \<mapsto> m1)) (mram ((view w pr)\<lparr>mm := Some m1\<rparr>))" by (rule region_view [OF w pr a])
  show ?thesis
  proof (cases t)
    case None
    then have "w' = commit w p (pcb pr) ((view w pr)\<lparr>mm := Some m1\<rparr>)"
      using ex op pr R(1) by (auto simp: exec_def Let_def libwrite_def mm_write_def)
    then show ?thesis using R(2) None op by (simp add: aview_commit V(7) inst_spec_def)
  next
    case (Some x)
    let ?x = "ucast x :: u32"
    have k1: "mm ((view w pr)\<lparr>mm := Some m1\<rparr>) = Some m1" "((maps_of w)(p \<mapsto> m1)) p = Some m1"
      "0 \<notin> set (free_fp_list (mram ((view w pr)\<lparr>mm := Some m1\<rparr>)))" "mram ((view w pr)\<lparr>mm := Some m1\<rparr>) = ram w"
      using V(3,7) by simp_all
    note S = setval_spec [OF V(1) R(3) k1(1-3), of ?x "ucast (arg_0 ins)" "pcb pr", unfolded k1(4) fun_upd_upd]
    from S obtain v m' mp' b where
      G: "pg_setval M ((view w pr)\<lparr>mm := Some m1\<rparr>) ?x (ucast (arg_0 ins)) = Some (v, (view w pr)\<lparr>mm := Some m', mram := mp'\<rparr>)"
        "aview_of (pcb pr) m' (byte_view ((maps_of w)(p \<mapsto> m')) mp' p) =
           (if v = 0 then b\<lparr>v_byte := (v_byte b)(vaddr ?x \<mapsto> ucast (arg_0 ins))\<rparr> else b)"
        "if v = 0 then a_touch (vaddr ?x) (aview_of (pcb pr) m1 (byte_view ((maps_of w)(p \<mapsto> m1)) (ram w) p)) b
         else a_fault (5 \<le> length (free_fp_list (ram w))) (vaddr ?x) (aview_of (pcb pr) m1 (byte_view ((maps_of w)(p \<mapsto> m1)) (ram w) p)) b"
      by auto
    have "w' = commit w p (pcb pr) ((view w pr)\<lparr>mm := Some m', mram := mp'\<rparr>)"
      using ex op pr R(1) Some G(1) by (auto simp: exec_def Let_def libwrite_def mm_write_def)
    then have "aview w' p = Some (if v = 0 then b\<lparr>v_byte := (v_byte b)(vaddr ?x \<mapsto> ucast (arg_0 ins))\<rparr> else b)"
      by (simp add: aview_commit G(2))
    then show ?thesis using G(3) R(2) Some op by (auto simp: inst_spec_def split: if_splits)
  qed
qed

lemma exec_spec:
  assumes w: "world_inv M w" and pr: "procs w p = Some pr" "mm (krnl pr) = Some m" and safe: "safe_inst ins"
    and a: "a = aview_of (pcb pr) m (byte_view (maps_of w) (ram w) p)"
    and ex: "exec M w p ins = Some (r, w')"
  shows "\<exists>a'. aview w' p = Some a' \<and> inst_spec (5 \<le> length (free_fp_list (ram w))) ins a a'"
proof (cases "opcode ins")
  case CALC
  then show ?thesis using ex pr aview_Some [OF pr] a by (auto simp: exec_def Let_def inst_spec_def)
next
  case SYSCALL
  then have "w' = w" using safe ex pr by (auto simp: exec_def Let_def libsyscall_def syscall_def safe_inst_def split: if_splits)
  then show ?thesis using aview_Some [OF pr] a SYSCALL by (simp add: inst_spec_def)
qed (use exec_alloc_spec [OF assms] exec_free_spec [OF assms] exec_read_spec [OF assms] exec_write_spec [OF assms] in blast)+

lemma run_spec:
  assumes w: "world_inv M w" and pr: "procs w p = Some pr" "mm (krnl pr) = Some m"
    and cap: "area_end m + 2 ^ 31 < 2 ^ 62"
    and ins: "pc (pcb pr) < cs_size (code (pcb pr))" "fetch (pcb pr) = Some ins" "safe_inst ins"
  shows "\<exists>r w' a a'. run M w p = Some (r, w') \<and> proc_step M w p w' \<and> aview w p = Some a \<and> aview w' p = Some a' \<and>
    inst_spec (5 \<le> length (free_fp_list (ram w))) ins a a'"
proof -
  have f: "unat (pc (pcb pr)) < length (cs_text (code (pcb pr)))" "ins = cs_text (code (pcb pr)) ! unat (pc (pcb pr))"
    using ins(2) by (auto simp: fetch_def split: if_splits)
  from run_safe [OF w pr cap ins(1) f(1)] ins(3) f(2) obtain r w' where
    R: "run M w p = Some (r, w')" "proc_step M w p w'" by blast
  let ?pr = "pr\<lparr>pcb := (pcb pr)\<lparr>pc := pc (pcb pr) + 1\<rparr>\<rparr>"
  let ?w = "w\<lparr>procs := (procs w)(p \<mapsto> ?pr)\<rparr>"
  have maps: "maps_of ?w = maps_of w" using pr by (intro HOL.ext) (simp add: maps_of_def)
  have w1: "world_inv M ?w" using w pr unfolding world_inv_def maps by (auto split: if_splits)
  have e: "exec M ?w p ins = Some (r, w')" using R(1) run_fetch [OF pr(1) refl f(1) ins(1), of M] f(2) by simp
  have p1: "procs ?w p = Some ?pr" "mm (krnl ?pr) = Some m" using pr by simp_all
  have "aview_of (pcb ?pr) m (byte_view (maps_of ?w) (ram ?w) p) = aview_of (pcb pr) m (byte_view (maps_of w) (ram w) p)"
    unfolding maps by (simp add: aview_of_def)
  then obtain a' where "aview w' p = Some a'" "inst_spec (5 \<le> length (free_fp_list (ram w))) ins (aview_of (pcb pr) m (byte_view (maps_of w) (ram w) p)) a'"
    using exec_spec [OF w1 p1 ins(3) refl e] by auto
  then show ?thesis using R aview_Some [OF pr] by blast
qed



end
