(* ===== verification/OsProcess.thy ===== *)
theory OsProcess
  imports OsStep ProcSpec
begin

text \<open>
  Every process of the system has a machine of its own: whatever the interleaving of the CPUs, the loader and the timer,
  its view changes only when a CPU executes its next instruction, and then as the specification of that
  instruction says.
\<close>

section \<open>Steps and views\<close>

text \<open>The step executes an instruction of \<open>p\<close>; it ends \<open>p\<close>.\<close>

definition executes :: "os_event \<Rightarrow> os_t \<Rightarrow> proc_ptr \<Rightarrow> bool" where
  "executes e s p = (case e of
     E_cpu i \<Rightarrow> i < length (cpus s) \<and> c_proc (cpus s ! i) = Some p \<and> c_pc (cpus s ! i) = Run_inst
   | _ \<Rightarrow> False)"

definition ended :: "os_event \<Rightarrow> os_t \<Rightarrow> proc_ptr \<Rightarrow> bool" where
  "ended e s p = (case e of
     E_cpu i \<Rightarrow> i < length (cpus s) \<and> c_proc (cpus s ! i) = Some p \<and> c_pc (cpus s ! i) = Top \<and>
       (case procs (wld s) p of None \<Rightarrow> False | Some pr \<Rightarrow> pc (pcb pr) = cs_size (code (pcb pr)))
   | _ \<Rightarrow> False)"

lemma aview_same:
  assumes "procs w' p = procs w p" "ram w' = ram w"
  shows "aview w' p = aview w p"
proof -
  have "maps_of w' p = maps_of w p" using assms(1) by (simp add: maps_of_def)
  then have "byte_view (maps_of w') (ram w') p = byte_view (maps_of w) (ram w) p"
    using assms(2) by (intro HOL.ext) (simp add: byte_view_def vbyte_def frm_of_def)
  then show ?thesis using assms(1) by (simp add: aview_def split: option.split)
qed

lemma cpu_view:
  assumes inv: "os_inv en s" and st: "cpu_step en i s s'" and n: "\<not> executes (E_cpu i) s p" "\<not> ended (E_cpu i) s p"
  shows "aview (wld s') p = aview (wld s) p \<and> procs (wld s') p = procs (wld s) p"
  using st
proof cases
  case (execute c q r w)
  then have q: "q \<noteq> p" using n(1) by (auto simp: executes_def)
  have "world_inv (e_ops en) (wld s)" using inv by (simp add: os_inv_def)
  from run_good [OF this os_inv_held [OF inv execute(1)]] execute have P: "proc_step (e_ops en) (wld s) q w" by auto
  then show ?thesis using aview_other [OF P, of p] q execute by (auto simp: set_cpu_def proc_step_def)
next
  case (finish c q pr)
  then have "q \<noteq> p" using n(2) by (auto simp: ended_def)
  then show ?thesis using finish aview_same [of "wld s'" p "wld s"] by (simp add: set_cpu_def free_proc_def)
qed (auto intro!: aview_same simp: set_cpu_def set_sched_def)

lemma ld_view:
  assumes inv: "os_inv en s" and st: "ld_step en q s s'" and p: "aview (wld s) p \<noteq> None"
  shows "aview (wld s') p = aview (wld s) p"
  using st
proof cases
  case (loads c a)
  then have "q \<noteq> p" using p by (auto simp: aview_def)
  then show ?thesis using loads(5) by (intro aview_same) simp_all
next
  case (adds x pr sc k)
  then have "new_proc (procs (wld s) x)" using inv by (auto simp: os_inv_def)
  then have "aview (wld s) x = None" by (auto simp: aview_def new_proc_def split: option.splits)
  then have "x \<noteq> p" using p by auto
  then show ?thesis using adds(6) by (intro aview_same) simp_all
qed simp_all

lemma execute_view:
  assumes inv: "os_inv en s" and st: "cpu_step en i s s'" and x: "executes (E_cpu i) s p"
  shows "\<exists>a a' pr. aview (wld s) p = Some a \<and> aview (wld s') p = Some a' \<and> procs (wld s) p = Some pr \<and>
    (case fetch (pcb pr) of
       None \<Rightarrow> a' = a
     | Some ins \<Rightarrow> inst_spec (5 \<le> length (free_fp_list (ram (wld s)))) ins a a')"
proof -
  have i: "i < length (cpus s)" "c_proc (cpus s ! i) = Some p" "c_pc (cpus s ! i) = Run_inst" using x by (simp_all add: executes_def)
  from st i obtain r w where R: "run (e_ops en) (wld s) p = Some (r, w)" "wld s' = w" by cases (auto simp: set_cpu_def)
  have W: "world_inv (e_ops en) (wld s)" using inv by (simp add: os_inv_def)
  from os_inv_held [OF inv i(1,2)] obtain pr m where pr: "procs (wld s) p = Some pr" "mm (krnl pr) = Some m" "prog_ok (pcb pr)"
      "area_end m + (length (cs_text (code (pcb pr))) - unat (pc (pcb pr))) * 2 ^ 31 < 2 ^ 62"
    by (auto simp: good_proc_def split: option.splits)
  let ?L = "length (cs_text (code (pcb pr)))"
  have L: "unat (of_nat ?L :: u32) = ?L" using pr(3) by (simp only: unat_of_nat) (simp add: prog_ok_def)
  show ?thesis
  proof (cases "fetch (pcb pr)")
    case None
    then have "\<not> pc (pcb pr) < cs_size (code (pcb pr))"
      using L pr(3) by (auto simp: fetch_def prog_ok_def word_less_nat_alt split: if_splits)
    then have "w = wld s" using R(1) pr(1) by (simp add: run_def linorder_not_less)
    then show ?thesis using None R(2) pr(1) aview_Some [OF pr(1,2)] by auto
  next
    case (Some ins)
    then have f: "unat (pc (pcb pr)) < ?L" "ins \<in> set (cs_text (code (pcb pr)))" by (auto simp: fetch_def split: if_splits)
    then have "pc (pcb pr) < cs_size (code (pcb pr))" "safe_inst ins" using L pr(3) by (simp_all add: prog_ok_def word_less_nat_alt)
    moreover have "1 * 2 ^ 31 \<le> (?L - unat (pc (pcb pr))) * 2 ^ 31" using f(1) by (intro mult_le_mono1) simp
    then have "area_end m + 2 ^ 31 < 2 ^ 62" using pr(4) by linarith
    ultimately show ?thesis using run_spec [OF W pr(1,2) _ _ Some] R Some pr(1) by fastforce
  qed
qed

section \<open>Private machines\<close>



end
