(* ===== verification/OsPolicy.thy ===== *)
theory OsPolicy
  imports OsStep
begin

text \<open>
  What the threads of \<^verbatim>\<open>src/src/os.c\<close> make of the policies of the parts they use, in every interleaving: how long a process
  keeps its CPU, which process is dispatched, and what happens to the frames of the device. Each is a predicate
  that every step keeps; the locale \<open>steady\<close> is this obligation.
\<close>

section \<open>Predicates that every step keeps\<close>

locale steady =
  fixes en :: os_env and P :: "os_t \<Rightarrow> bool"
  assumes keep_cpu: "os_inv en s \<Longrightarrow> P s \<Longrightarrow> cpu_step en i s s' \<Longrightarrow> P s'"
    and keep_ld: "os_inv en s \<Longrightarrow> P s \<Longrightarrow> ld_step en q s s' \<Longrightarrow> P s'"
    and keep_tmr: "P s \<Longrightarrow> P (s\<lparr>tmr := t\<rparr>)"
begin

lemma keep_do:
  assumes "os_inv en s" "P s" "os_do en e s = Next s'"
  shows "P s'"
proof (cases e)
  case E_timer
  then show ?thesis using assms(3) keep_tmr [OF assms(2)] by (auto simp: os_do_def split: option.splits)
next
  case (E_cpu i)
  then show ?thesis using assms(3) keep_cpu [OF assms(1,2) cpu_step_sound] by (simp add: os_do_def)
next
  case (E_ld q)
  then show ?thesis using assms(3) keep_ld [OF assms(1,2) ld_step_sound] by (simp add: os_do_def)
qed

lemma keep_run:
  "os_inv en s \<Longrightarrow> programs_ok en \<Longrightarrow> P s \<Longrightarrow> os_exec en es s = Next s' \<Longrightarrow> os_inv en s' \<and> P s'"
proof (induction es arbitrary: s)
  case (Cons e es)
  from safe_do [OF Cons.prems(1,2), of e] have "safe_res en (os_do en e s)" .
  then show ?case using Cons keep_do [OF Cons.prems(1,3), of e]
    by (cases "os_do en e s") (auto simp: safe_res_def)
qed simp

lemma keep_boot:
  "boot_ok en mr \<Longrightarrow> P (main_setup en mr ms) \<Longrightarrow> os_exec en es (main_setup en mr ms) = Next s \<Longrightarrow> os_inv en s \<and> P s"
  using keep_run [OF boot_inv] boot_ok_def by blast

end

section \<open>Time slices\<close>

definition slice_ok :: "int \<Rightarrow> cpu_t \<Rightarrow> bool" where
  "slice_ok ts c \<longleftrightarrow> (c_proc c = None \<and> c_pc c \<noteq> Refetch True \<longrightarrow> time_left c = 0) \<and>
     (if 0 < ts then 0 \<le> time_left c \<and> time_left c \<le> ts \<and> (c_pc c = Run_inst \<longrightarrow> 0 < time_left c)
      else time_left c \<le> 0 \<and> (c_proc c \<noteq> None \<and> c_pc c \<in> {Top, Slot_end, Sleeping} \<longrightarrow> time_left c < 0))"

definition slices_ok :: "os_env \<Rightarrow> os_t \<Rightarrow> bool" where
  "slices_ok en s \<longleftrightarrow> (\<forall>c \<in> set (cpus s). slice_ok (time_slot (e_cfg en)) c)"

lemma cpu_step_cpus:
  assumes "cpu_step en i s s'"
  shows "i < length (cpus s)" "cpus s' = (cpus s)[i := cpus s' ! i]"
  using assms by (cases; simp add: set_cpu_def set_sched_def free_proc_def)+

lemma slices_cpu:
  assumes inv: "os_inv en s" and S: "slices_ok en s" and st: "cpu_step en i s s'"
  shows "slices_ok en s'"
proof -
  note i = cpu_step_cpus [OF st]
  have nth: "slice_ok (time_slot (e_cfg en)) (cpus s ! i)" "cpu_ok (cpus s ! i)"
    using S i(1) os_inv_nth [OF inv i(1)] by (simp_all add: slices_ok_def)
  have "slice_ok (time_slot (e_cfg en)) (cpus s' ! i)" using st
  proof cases
    case (execute c p r w)
    then show ?thesis using nth by (auto simp: slice_ok_def set_cpu_def split: if_splits)
  next
    case (dispatch c p)
    then show ?thesis using nth by (auto simp: slice_ok_def set_cpu_def split: if_splits)
  next
    case (refetch c b po sc)
    then show ?thesis using nth by (cases b) (auto simp: slice_ok_def cpu_ok_def set_cpu_def set_sched_def split: if_splits)
  next
    case (take c po sc)
    then show ?thesis using nth by (auto simp: slice_ok_def set_cpu_def set_sched_def split: if_splits)
  qed (use nth in \<open>auto simp: slice_ok_def set_cpu_def set_sched_def free_proc_def split: if_splits\<close>)
  then show ?thesis using S unfolding slices_ok_def by (subst i(2)) (auto dest!: set_update_subset_insert [THEN subsetD])
qed

lemma ld_step_cpus: "ld_step en q s s' \<Longrightarrow> cpus s' = cpus s"
  by (cases rule: ld_step.cases) auto

interpretation slices: steady en "slices_ok en" for en
  by unfold_locales (simp_all add: slices_cpu, simp_all add: slices_ok_def ld_step_cpus)

section \<open>Priorities\<close>

definition prio_of :: "(proc_ptr \<Rightarrow> proc_t option) \<Rightarrow> proc_ptr \<Rightarrow> nat option" where
  "prio_of pf p = map_option (\<lambda>pr. unat (prio (pcb pr))) (pf p)"

text \<open>Every process waits in the queue of the priority in its control block.\<close>

definition by_prio :: "sched_t \<Rightarrow> (proc_ptr \<Rightarrow> proc_t option) \<Rightarrow> bool" where
  "by_prio sc pf \<longleftrightarrow> (\<forall>k < MAX_PRIO. \<forall>p \<in> set (queue_list (mlq_ready_queue sc ! k)). prio_of pf p = Some k)"

lemma ready_in_queue:
  assumes "sched_inv sc"
  shows "p \<in># ready_procs sc \<longleftrightarrow> (\<exists>k < MAX_PRIO. p \<in> set (queue_list (mlq_ready_queue sc ! k)))"
  using assms by (fastforce simp: ready_procs_def sched_inv_def in_set_conv_nth)

lemma by_prio_cong:
  assumes "by_prio sc pf" "sched_inv sc" "\<And>p. p \<in># ready_procs sc \<Longrightarrow> prio_of pf' p = prio_of pf p"
  shows "by_prio sc pf'"
  unfolding by_prio_def
proof (intro allI impI ballI)
  fix k p assume k: "k < MAX_PRIO" "p \<in> set (queue_list (mlq_ready_queue sc ! k))"
  then have "p \<in># ready_procs sc" using ready_in_queue [OF assms(2)] by blast
  then show "prio_of pf' p = Some k" using assms(1,3) k by (simp add: by_prio_def)
qed

lemma by_prio_get:
  assumes "by_prio sc pf" "sched_inv sc" "get_proc sc = (po, sc')"
  shows "by_prio sc' pf"
  using assms(2)
proof (cases rule: get_mlq_proc_cases)
  case idle
  then show ?thesis using assms(1,3) by (auto simp: get_proc_def by_prio_def)
next
  case (run k p)
  have "length (mlq_ready_queue sc) = MAX_PRIO" using assms(2) by (simp add: sched_inv_def)
  then show ?thesis using run assms(1,3) by (auto simp: get_proc_def by_prio_def nth_list_update split: if_splits)
qed

lemma get_from_highest:
  assumes "sched_inv sc" "get_proc sc = (Some p, sc')"
  shows "\<exists>k < MAX_PRIO. p \<in> set (queue_list (mlq_ready_queue sc ! k)) \<and> highest (a_ready (sched_abs sc)) = Some k"
  using assms(1)
proof (cases rule: get_mlq_proc_cases)
  case idle
  then show ?thesis using assms(2) by (simp add: get_proc_def)
next
  case (run k q)
  then show ?thesis using assms(2) by (intro exI [of _ k]) (simp add: get_proc_def)
qed

lemma by_prio_enqueue:
  assumes "by_prio sc pf" "sched_inv sc" "prio_of pf p = Some (unat pr)"
  shows "by_prio (enqueue_by_prio sc p pr) pf"
proof (cases "unat pr < MAX_PRIO")
  case True
  have "length (mlq_ready_queue sc) = MAX_PRIO" "queue_inv (mlq_ready_queue sc ! unat pr)"
    using assms(2) True by (simp_all add: sched_inv_def)
  then show ?thesis using assms True
    by (auto simp: enqueue_by_prio_def by_prio_def nth_list_update queue_simps split: if_splits)
next
  case False
  then show ?thesis using assms(1) by (simp add: enqueue_by_prio_def)
qed

lemma by_prio_put:
  assumes "by_prio sc pf" "sched_inv sc" "prio_of pf p = Some (unat pr)"
  shows "by_prio (put_proc sc (Some p) pr) pf"
proof -
  let ?sc = "sc\<lparr>running_list := purge (running_list sc) p\<rparr>"
  have "sched_inv ?sc" using assms(2) by (simp add: sched_inv_upd_running sched_inv_running)
  moreover have "by_prio ?sc pf" using assms(1) by (simp add: by_prio_def)
  ultimately show ?thesis using by_prio_enqueue [of ?sc pf p pr] assms(3) by (simp add: put_proc_def put_mlq_proc_def)
qed

lemma by_prio_cpu:
  assumes inv: "os_inv en s" and B: "by_prio (sched (wld s)) (procs (wld s))" and st: "cpu_step en i s s'"
  shows "by_prio (sched (wld s')) (procs (wld s'))"
proof -
  have sc: "sched_inv (sched (wld s))" using inv by (simp add: os_inv_def)
  show ?thesis using st
  proof cases
    case (take c po sc')
    then show ?thesis using by_prio_get [OF B sc] by (simp add: set_cpu_def set_sched_def)
  next
    case (refetch c b po sc')
    then show ?thesis using by_prio_get [OF B sc] by (simp add: set_cpu_def set_sched_def)
  next
    case (give c p pr)
    then show ?thesis using by_prio_put [OF B sc, of p "prio (pcb pr)"] by (simp add: set_cpu_def set_sched_def prio_of_def)
  next
    case (finish c p pr)
    then have "p \<notin># ready_procs (sched (wld s))" using held_alone(1) [OF inv, of i p] by simp
    then have "by_prio (sched (wld s)) ((procs (wld s))(p := None))" by (intro by_prio_cong [OF B sc]) (auto simp: prio_of_def)
    then show ?thesis using finish by (simp add: set_cpu_def free_proc_def)
  next
    case (execute c p r w)
    have "world_inv (e_ops en) (wld s)" using inv by (simp add: os_inv_def)
    from run_good [OF this os_inv_held [OF inv execute(1)]] execute
    have P: "proc_step (e_ops en) (wld s) p w" "advanced (procs (wld s) p) (procs w p)" by auto
    have "prio_of (procs w) q = prio_of (procs (wld s)) q" for q
      using P by (cases "q = p") (auto simp: prio_of_def advanced_def proc_step_def split: option.splits)
    then have "by_prio (sched (wld s)) (procs w)" by (intro by_prio_cong [OF B sc])
    then show ?thesis using execute P(1) by (simp add: set_cpu_def proc_step_def)
  qed (use B in \<open>auto simp: set_cpu_def\<close>)
qed

lemma by_prio_ld:
  assumes inv: "os_inv en s" and B: "by_prio (sched (wld s)) (procs (wld s))" and st: "ld_step en q s s'"
  shows "by_prio (sched (wld s')) (procs (wld s'))"
proof -
  have sc: "sched_inv (sched (wld s))" using inv by (simp add: os_inv_def)
  have good: "procs (wld s) p \<noteq> None" if "p \<in># ready_procs (sched (wld s))" for p
    using that inv by (auto simp: os_inv_def active_def good_proc_def split: option.splits)
  show ?thesis using st
  proof cases
    case (loads c a)
    then have "q \<notin># ready_procs (sched (wld s))" using good by blast
    then show ?thesis using loads by (auto intro!: by_prio_cong [OF B sc] simp: prio_of_def)
  next
    case (adds p pr sc' k)
    let ?pf = "(procs (wld s))(p \<mapsto> pr\<lparr>krnl := k\<rparr>)"
    have "by_prio (sched (wld s)) ?pf" using adds by (intro by_prio_cong [OF B sc]) (auto simp: prio_of_def)
    from by_prio_enqueue [OF this sc, of p "prio (pcb pr)"] show ?thesis
      using adds by (auto simp: add_proc_def add_mlq_proc_def prio_of_def)
  qed (use B in auto)
qed

interpretation prios: steady en "\<lambda>s. by_prio (sched (wld s)) (procs (wld s))" for en
  by unfold_locales (auto intro: by_prio_cpu by_prio_ld)

section \<open>Frames\<close>

lemma frames_cpu:
  assumes inv: "os_inv en s" and st: "cpu_step en i s s'"
  shows "set (free_fp_list (ram (wld s'))) \<subseteq> set (free_fp_list (ram (wld s)))"
  using st
proof cases
  case (execute c p r w)
  have "world_inv (e_ops en) (wld s)" using inv by (simp add: os_inv_def)
  from run_good [OF this os_inv_held [OF inv execute(1)]] execute have "proc_step (e_ops en) (wld s) p w" by auto
  then show ?thesis using execute by (simp add: set_cpu_def proc_step_def)
qed (auto simp: set_cpu_def set_sched_def free_proc_def)

lemma ld_step_ram: "ld_step en q s s' \<Longrightarrow> ram (wld s') = ram (wld s)"
  by (cases rule: ld_step.cases) auto

interpretation frames: steady en "\<lambda>s. set (free_fp_list (ram (wld s))) \<subseteq> F" for en F
  by unfold_locales (use frames_cpu in blast, simp_all add: ld_step_ram)

section \<open>Properties\<close>

lemma demo_cpu_takes:
  "\<exists>s s'. os_exec demo_env [E_ld 7, E_ld 7] (main_setup demo_env demo_ram demo_ram) = Next s \<and>
     cpu_routine demo_env 0 s = Next s' \<and> length (cpus s) = 2 \<and> c_proc (cpus s ! 0) = None \<and> c_proc (cpus s' ! 0) = Some 7"
proof -
  obtain sc where g: "get_proc (sched (wld demo_added)) = (Some 7, sc)"
    using first_dispatch [of 7] by (simp add: demo_added_def) (metis prod.collapse)
  have c: "cpus demo_added = replicate 2 \<lparr>c_proc = None, time_left = 0, c_pc = Top\<rparr>" by (simp add: demo_added_def demo_start_fields)
  then have "\<exists>s'. cpu_routine demo_env 0 demo_added = Next s' \<and> c_proc (cpus s' ! 0) = Some 7"
    by (simp add: cpu_routine_def cpu_top_def g set_cpu_def set_sched_def)
  then show ?thesis using demo_loaded c unfolding demo_start_def by fastforce
qed







end
