(* ===== verification/SchedLocks.thy ===== *)
theory SchedLocks
  imports Sched
begin

text \<open>
  The scheduler of \<^verbatim>\<open>src/src/sched.c\<close> statement by statement, with its two mutexes. \<^verbatim>\<open>get_mlq_proc\<close> runs under
  \<^verbatim>\<open>mlq_lock\<close>, \<^verbatim>\<open>put_mlq_proc\<close> and \<^verbatim>\<open>add_mlq_proc\<close> under \<^verbatim>\<open>queue_lock\<close>. A statement of the functions and of the
  queue operations they call is one step, a thread waits while the mutex it needs is taken, and
  an explicit schedule says which thread takes the next step. Calls under the same mutex behave like calls
  one after the other; calls under different mutexes do not.
\<close>

section \<open>Threads and mutexes\<close>

datatype mutex = Mlq_lock | Queue_lock

datatype ('c, 'pc, 'r) tstate = Want 'c | In 'c 'pc | Done 'c 'r

record ('c, 'pc, 'r, 'sh) lsys =
  holder :: "mutex \<Rightarrow> nat option"
  shared :: 'sh
  thr :: "nat \<Rightarrow> ('c, 'pc, 'r) tstate"

text \<open>
  One step of thread \<open>t\<close>: lock the mutex if it is free, execute the next statement, or unlock it
  and return.
\<close>

definition lstep ::
  "('c \<Rightarrow> mutex) \<Rightarrow> ('c \<Rightarrow> 'pc) \<Rightarrow> ('pc \<Rightarrow> 'sh \<Rightarrow> ('pc \<times> 'sh) option) \<Rightarrow> ('pc \<Rightarrow> 'r) \<Rightarrow> nat \<Rightarrow>
   ('c, 'pc, 'r, 'sh) lsys \<Rightarrow> ('c, 'pc, 'r, 'sh) lsys" where
  "lstep lock start mstep result t s =
     (case thr s t of
        Want c \<Rightarrow>
          if holder s (lock c) = None
          then s\<lparr>holder := (holder s)(lock c := Some t), thr := (thr s)(t := In c (start c))\<rparr> else s
      | In c pos \<Rightarrow>
          (case mstep pos (shared s) of
             Some (pos', sh) \<Rightarrow> s\<lparr>shared := sh, thr := (thr s)(t := In c pos')\<rparr>
           | None \<Rightarrow> s\<lparr>holder := (holder s)(lock c := None), thr := (thr s)(t := Done c (result pos))\<rparr>)
      | Done c r \<Rightarrow> s)"

fun lrun ::
  "('c \<Rightarrow> mutex) \<Rightarrow> ('c \<Rightarrow> 'pc) \<Rightarrow> ('pc \<Rightarrow> 'sh \<Rightarrow> ('pc \<times> 'sh) option) \<Rightarrow> ('pc \<Rightarrow> 'r) \<Rightarrow> nat list \<Rightarrow>
   ('c, 'pc, 'r, 'sh) lsys \<Rightarrow> ('c, 'pc, 'r, 'sh) lsys" where
  "lrun lock start mstep result [] s = s"
| "lrun lock start mstep result (t # ts) s = lrun lock start mstep result ts (lstep lock start mstep result t s)"

definition threads :: "'sh \<Rightarrow> (nat \<Rightarrow> 'c) \<Rightarrow> ('c, 'pc, 'r, 'sh) lsys" where
  "threads sh calls = \<lparr>holder = (\<lambda>_. None), shared = sh, thr = (\<lambda>t. Want (calls t))\<rparr>"

text \<open>Calls one after the other, with their results.\<close>

fun in_turn :: "('c \<Rightarrow> 'sh \<Rightarrow> 'r \<times> 'sh) \<Rightarrow> 'c list \<Rightarrow> 'sh \<Rightarrow> 'r list \<times> 'sh" where
  "in_turn op [] sh = ([], sh)"
| "in_turn op (c # cs) sh = (case op c sh of (r, sh1) \<Rightarrow> case in_turn op cs sh1 of (rs, sh2) \<Rightarrow> (r # rs, sh2))"

section \<open>One mutex makes calls atomic\<close>

definition mrel :: "('pc \<Rightarrow> 'sh \<Rightarrow> ('pc \<times> 'sh) option) \<Rightarrow> 'pc \<times> 'sh \<Rightarrow> 'pc \<times> 'sh \<Rightarrow> bool" where
  "mrel mstep x y \<longleftrightarrow> mstep (fst x) (snd x) = Some y"

lemma mrel_normal:
  assumes "(mrel mstep)\<^sup>*\<^sup>* x y" "(mrel mstep)\<^sup>*\<^sup>* x z" "mstep (fst z) (snd z) = None"
  shows "(mrel mstep)\<^sup>*\<^sup>* y z"
  using assms
proof (induction rule: converse_rtranclp_induct)
  case (step x x1)
  from step.prems step.hyps(1) have "x \<noteq> z" by (auto simp: mrel_def)
  with step.prems(1) obtain x2 where "mrel mstep x x2" "(mrel mstep)\<^sup>*\<^sup>* x2 z" by (metis converse_rtranclpE)
  moreover from this step.hyps(1) have "x2 = x1" by (simp add: mrel_def)
  ultimately show ?case using step.IH step.prems(2) by simp
qed simp

lemma mrel_stuck: "(mrel mstep)\<^sup>*\<^sup>* x z \<Longrightarrow> mstep (fst x) (snd x) = None \<Longrightarrow> z = x"
  by (metis converse_rtranclpE mrel_def option.distinct(1))

lemma in_turn_snoc:
  "in_turn op (cs @ [c]) sh = (case in_turn op cs sh of (rs, sh1) \<Rightarrow> case op c sh1 of (r, sh2) \<Rightarrow> (rs @ [r], sh2))"
  by (induction cs arbitrary: sh) (simp_all split: prod.split)

lemma in_turn_length: "length (fst (in_turn op cs sh)) = length cs"
proof (induction cs arbitrary: sh)
  case (Cons c cs)
  show ?case using Cons [of "snd (op c sh)"] by (simp add: case_prod_beta)
qed simp

locale guarded_calls =
  fixes lock :: "'c \<Rightarrow> mutex"
    and start :: "'c \<Rightarrow> 'pc"
    and mstep :: "'pc \<Rightarrow> 'sh \<Rightarrow> ('pc \<times> 'sh) option"
    and result :: "'pc \<Rightarrow> 'r"
    and op :: "'c \<Rightarrow> 'sh \<Rightarrow> 'r \<times> 'sh"
    and inv :: "'sh \<Rightarrow> bool"
  assumes completes: "inv sh \<Longrightarrow> \<exists>pos. (mrel mstep)\<^sup>*\<^sup>* (start c, sh) (pos, snd (op c sh)) \<and>
      mstep pos (snd (op c sh)) = None \<and> result pos = fst (op c sh)"
    and inv_op: "inv sh \<Longrightarrow> inv (snd (op c sh))"
begin

lemma inv_in_turn: "inv sh \<Longrightarrow> inv (snd (in_turn op cs sh))"
proof (induction cs arbitrary: sh)
  case (Cons c cs)
  then show ?case using inv_op [of sh c] by (simp split: prod.splits) (metis snd_conv)
qed simp

text \<open>
  A state that comes from calls in the order \<open>ord\<close>: these threads have returned what the calls in
  turn return; one thread may be inside its call; the others still wait.
\<close>

definition serial :: "'sh \<Rightarrow> (nat \<Rightarrow> 'c) \<Rightarrow> mutex \<Rightarrow> nat list \<Rightarrow> ('c, 'pc, 'r, 'sh) lsys \<Rightarrow> bool" where
  "serial sh calls l ord s \<longleftrightarrow> distinct ord \<and>
     (\<forall>i < length ord. thr s (ord ! i) = Done (calls (ord ! i)) (fst (in_turn op (map calls ord) sh) ! i)) \<and>
     (case holder s l of
        None \<Rightarrow> shared s = snd (in_turn op (map calls ord) sh) \<and> (\<forall>t. t \<notin> set ord \<longrightarrow> thr s t = Want (calls t))
      | Some u \<Rightarrow> u \<notin> set ord \<and> (\<exists>pos. thr s u = In (calls u) pos \<and>
          (mrel mstep)\<^sup>*\<^sup>* (start (calls u), snd (in_turn op (map calls ord) sh)) (pos, shared s)) \<and>
          (\<forall>t. t \<notin> set ord \<and> t \<noteq> u \<longrightarrow> thr s t = Want (calls t)))"

lemma serial_start: "serial sh calls l [] (threads sh calls)"
  by (simp add: serial_def threads_def)

lemma serial_enter:
  assumes "serial sh calls l ord s" "holder s l = None" "thr s t = Want c" "lock c = l"
  shows "serial sh calls l ord (lstep lock start mstep result t s)"
proof -
  have "t \<notin> set ord" using assms(1,3) by (auto simp: serial_def in_set_conv_nth)
  then show ?thesis using assms by (auto simp: serial_def lstep_def nth_mem)
qed

lemma serial_inside:
  assumes S: "serial sh calls l ord s" and i: "inv sh" and t: "thr s t = In c pos" and l: "\<forall>t. lock (calls t) = l"
  shows "\<exists>ord'. serial sh calls l ord' (lstep lock start mstep result t s)"
proof -
  let ?m = "snd (in_turn op (map calls ord) sh)"
  have "t \<notin> set ord" using S t by (auto simp: serial_def in_set_conv_nth)
  then obtain u where u: "holder s l = Some u" using S t by (cases "holder s l") (auto simp: serial_def)
  have "u = t" using S t u \<open>t \<notin> set ord\<close> by (cases "t = u") (auto simp: serial_def)
  with S t u have H: "t \<notin> set ord" "c = calls t" "(mrel mstep)\<^sup>*\<^sup>* (start (calls t), ?m) (pos, shared s)"
    "\<forall>x. x \<notin> set ord \<and> x \<noteq> t \<longrightarrow> thr s x = Want (calls x)" "distinct ord"
    "\<forall>i < length ord. thr s (ord ! i) = Done (calls (ord ! i)) (fst (in_turn op (map calls ord) sh) ! i)"
    by (auto simp: serial_def)
  have nt: "ord ! i \<noteq> t" if "i < length ord" for i using that H(1) by auto
  show ?thesis
  proof (cases "mstep pos (shared s)")
    case (Some y)
    obtain pos' sh' where y: "y = (pos', sh')" by (cases y)
    then have "(mrel mstep)\<^sup>*\<^sup>* (start (calls t), ?m) (pos', sh')"
      using H(3) Some by (auto simp: mrel_def elim!: rtranclp.rtrancl_into_rtrancl)
    then have "serial sh calls l ord (lstep lock start mstep result t s)"
      using H nt t u \<open>u = t\<close> Some y by (simp add: serial_def lstep_def)
    then show ?thesis ..
  next
    case None
    have "inv ?m" by (rule inv_in_turn [OF i])
    from completes [OF this, of "calls t"] obtain x where
      X: "(mrel mstep)\<^sup>*\<^sup>* (start (calls t), ?m) (x, snd (op (calls t) ?m))" "mstep x (snd (op (calls t) ?m)) = None"
        "result x = fst (op (calls t) ?m)" by blast
    have "(x, snd (op (calls t) ?m)) = (pos, shared s)" using mrel_stuck [OF mrel_normal [OF H(3) X(1)]] X(2) None by simp
    then have e: "shared s = snd (op (calls t) ?m)" "result pos = fst (op (calls t) ?m)" using X(3) by auto
    have T: "in_turn op (map calls (ord @ [t])) sh = (fst (in_turn op (map calls ord) sh) @ [result pos], shared s)"
      using e by (simp add: in_turn_snoc split: prod.split)
    have "serial sh calls l (ord @ [t]) (lstep lock start mstep result t s)"
      using H nt t u \<open>u = t\<close> None l unfolding serial_def T
      by (auto simp: lstep_def nth_append in_turn_length less_Suc_eq)
    then show ?thesis ..
  qed
qed

lemma serial_step:
  assumes S: "serial sh calls l ord s" and i: "inv sh" and l: "\<forall>t. lock (calls t) = l"
  shows "\<exists>ord'. serial sh calls l ord' (lstep lock start mstep result t s)"
proof (cases "thr s t")
  case (Want c)
  then have "c = calls t"
    using S by (cases "holder s l"; cases "t \<in> set ord") (auto simp: serial_def in_set_conv_nth)
  then show ?thesis using serial_enter [OF S _ Want] Want l S by (cases "holder s l = None") (auto simp: lstep_def)
next
  case (In c pos)
  then show ?thesis using serial_inside [OF S i _ l] by blast
next
  case (Done c r)
  then show ?thesis using S by (auto simp: lstep_def)
qed

lemma serial_run:
  assumes "inv sh" "\<forall>t. lock (calls t) = l"
  shows "\<exists>ord. serial sh calls l ord (lrun lock start mstep result ts (threads sh calls))"
proof -
  have "serial sh calls l ord s \<Longrightarrow> \<exists>ord. serial sh calls l ord (lrun lock start mstep result ts s)" for ord s
  proof (induction ts arbitrary: ord s)
    case (Cons t ts)
    then show ?case using serial_step [OF Cons.prems assms] by fastforce
  qed auto
  then show ?thesis using serial_start by blast
qed

end

end
