(* ===== verification/SchedRace.thy ===== *)
theory SchedRace
  imports SchedLocks
begin

text \<open>
  The statements of \<^verbatim>\<open>get_mlq_proc\<close>, \<^verbatim>\<open>put_mlq_proc\<close> and \<^verbatim>\<open>add_mlq_proc\<close> with the queue operations they call
  (\<^verbatim>\<open>src/src/queue.c\<close>), as positions and steps. Under one mutex they are the atomic operations of \<open>Sched\<close>; the code
  uses two, and a dispatch and an addition that overlap lose a process and dispatch another one twice.
\<close>

section \<open>The statements\<close>

datatype sched_call = C_get | C_put proc_ptr u32 | C_add proc_ptr u32

definition call_lock :: "sched_call \<Rightarrow> mutex" where
  "call_lock c = (case c of C_get \<Rightarrow> Mlq_lock | _ \<Rightarrow> Queue_lock)"

datatype qref = Ready nat | Running

definition get_q :: "qref \<Rightarrow> sched_t \<Rightarrow> queue_t" where
  "get_q r s = (case r of Ready pr \<Rightarrow> mlq_ready_queue s ! pr | Running \<Rightarrow> running_list s)"

definition set_q :: "qref \<Rightarrow> queue_t \<Rightarrow> sched_t \<Rightarrow> sched_t" where
  "set_q r q s = (case r of Ready pr \<Rightarrow> s\<lparr>mlq_ready_queue := (mlq_ready_queue s)[pr := q]\<rparr> | Running \<Rightarrow> s\<lparr>running_list := q\<rparr>)"

text \<open>
  The positions: the loop of \<^verbatim>\<open>get_mlq_proc\<close> over the priorities, the statements of \<^verbatim>\<open>dequeue\<close>, what follows it,
  the statements of \<^verbatim>\<open>purgequeue\<close> on the running list, the test of the priority, and the statements
  of \<^verbatim>\<open>enqueue\<close> with the value the caller returns after it. The local variables are arguments.
\<close>

datatype spos =
  Scan nat
| Deq_test nat | Deq_first nat | Deq_loop nat nat "proc_ptr option" | Deq_dec nat "proc_ptr option"
| Set_prio nat "proc_ptr option" | Set_slot "proc_ptr option" | Found "proc_ptr option" | Reset_prio | Reset_slot
| Purge_test proc_ptr u32 | Purge_loop nat proc_ptr u32 | Purge_shift nat proc_ptr u32 | Purge_dec proc_ptr u32 | Purge_null proc_ptr u32
| Prio_test proc_ptr u32
| Enq_test qref proc_ptr "proc_ptr option" | Enq_store qref proc_ptr "proc_ptr option" | Enq_inc qref proc_ptr "proc_ptr option"
| Exit "proc_ptr option"

definition call_start :: "sched_call \<Rightarrow> spos" where
  "call_start c = (case c of C_get \<Rightarrow> Scan 0 | C_put p pr \<Rightarrow> Purge_test p pr | C_add p pr \<Rightarrow> Prio_test p pr)"

definition call_result :: "spos \<Rightarrow> proc_ptr option" where
  "call_result x = (case x of Exit r \<Rightarrow> r | _ \<Rightarrow> None)"

fun sstep :: "spos \<Rightarrow> sched_t \<Rightarrow> (spos \<times> sched_t) option" where
  "sstep (Scan pr) s =
     Some (if pr < MAX_PRIO then (if q_size (get_q (Ready pr) s) \<noteq> 0 then Deq_test pr else Scan (Suc pr)) else Found None, s)"
| "sstep (Deq_test pr) s = Some (if q_size (get_q (Ready pr) s) = 0 then Set_prio pr None else Deq_first pr, s)"
| "sstep (Deq_first pr) s = Some (Deq_loop pr 0 (q_proc (get_q (Ready pr) s) ! 0), s)"
| "sstep (Deq_loop pr i p) s =
     (let q = get_q (Ready pr) s in
      if i < q_size q - 1 then Some (Deq_loop pr (Suc i) p, set_q (Ready pr) (q\<lparr>q_proc := (q_proc q)[i := q_proc q ! Suc i]\<rparr>) s)
      else Some (Deq_dec pr p, s))"
| "sstep (Deq_dec pr p) s =
     (let q = get_q (Ready pr) s in Some (Set_prio pr p, set_q (Ready pr) (q\<lparr>q_size := q_size q - 1\<rparr>) s))"
| "sstep (Set_prio pr p) s = Some (Set_slot p, s\<lparr>current_prio := pr\<rparr>)"
| "sstep (Set_slot p) s = Some (Found p, s\<lparr>current_slot := 1\<rparr>)"
| "sstep (Found po) s = Some (case po of None \<Rightarrow> Reset_prio | Some p \<Rightarrow> Enq_test Running p (Some p), s)"
| "sstep Reset_prio s = Some (Reset_slot, s\<lparr>current_prio := 0\<rparr>)"
| "sstep Reset_slot s = Some (Exit None, s\<lparr>current_slot := 0\<rparr>)"
| "sstep (Purge_test p pr) s = Some (if q_size (running_list s) = 0 then Prio_test p pr else Purge_loop 0 p pr, s)"
| "sstep (Purge_loop i p pr) s =
     (let q = running_list s in
      Some (if i < q_size q then (if q_proc q ! i = Some p then Purge_shift i p pr else Purge_loop (Suc i) p pr) else Prio_test p pr, s))"
| "sstep (Purge_shift j p pr) s =
     (let q = running_list s in
      if j < q_size q - 1 then Some (Purge_shift (Suc j) p pr, set_q Running (q\<lparr>q_proc := (q_proc q)[j := q_proc q ! Suc j]\<rparr>) s)
      else Some (Purge_dec p pr, s))"
| "sstep (Purge_dec p pr) s =
     (let q = running_list s in Some (Purge_null p pr, set_q Running (q\<lparr>q_size := q_size q - 1\<rparr>) s))"
| "sstep (Purge_null p pr) s =
     (let q = running_list s in Some (Prio_test p pr, set_q Running (q\<lparr>q_proc := (q_proc q)[q_size q := None]\<rparr>) s))"
| "sstep (Prio_test p pr) s = Some (if unat pr < MAX_PRIO then Enq_test (Ready (unat pr)) p None else Exit None, s)"
| "sstep (Enq_test r p v) s = Some (if q_size (get_q r s) \<ge> MAX_QUEUE_SIZE then Exit v else Enq_store r p v, s)"
| "sstep (Enq_store r p v) s =
     (let q = get_q r s in Some (Enq_inc r p v, set_q r (q\<lparr>q_proc := (q_proc q)[q_size q := Some p]\<rparr>) s))"
| "sstep (Enq_inc r p v) s = (let q = get_q r s in Some (Exit v, set_q r (q\<lparr>q_size := q_size q + 1\<rparr>) s))"
| "sstep (Exit v) s = None"

text \<open>What a call does when nothing happens in between.\<close>

definition call_op :: "sched_call \<Rightarrow> sched_t \<Rightarrow> proc_ptr option \<times> sched_t" where
  "call_op c s = (case c of
     C_get \<Rightarrow> get_proc s
   | C_put p pr \<Rightarrow> (None, put_proc s (Some p) pr)
   | C_add p pr \<Rightarrow> (None, enqueue_by_prio s p pr))"

section \<open>A call alone\<close>

abbreviation steps :: "spos \<times> sched_t \<Rightarrow> spos \<times> sched_t \<Rightarrow> bool" where
  "steps \<equiv> (mrel sstep)\<^sup>*\<^sup>*"

lemma steps_one: "sstep x s = Some y \<Longrightarrow> steps y z \<Longrightarrow> steps (x, s) z"
  by (auto simp: mrel_def intro: converse_rtranclp_into_rtranclp)

definition is_queue :: "qref \<Rightarrow> sched_t \<Rightarrow> bool" where
  "is_queue r s = (case r of Ready pr \<Rightarrow> pr < length (mlq_ready_queue s) | Running \<Rightarrow> True)"

lemma q_update [simp]:
  "is_queue r s \<Longrightarrow> get_q r (set_q r q s) = q"
  "set_q r q (set_q r q' s) = set_q r q s" "set_q r (get_q r s) s = s"
  "is_queue r' (set_q r q s) = is_queue r' s"
  by (auto simp: get_q_def set_q_def is_queue_def split: qref.split)

lemma enqueue_steps:
  assumes "is_queue r s"
  shows "steps (Enq_test r p v, s) (Exit v, set_q r (enq (get_q r s) p) s)"
proof (cases "q_size (get_q r s) \<ge> MAX_QUEUE_SIZE")
  case True
  then have "sstep (Enq_test r p v) s = Some (Exit v, s)" "enq (get_q r s) p = get_q r s"
    by (simp_all add: enqueue_def)
  then show ?thesis by (auto intro: steps_one)
next
  case False
  let ?q = "get_q r s"
  let ?s = "set_q r (?q\<lparr>q_proc := (q_proc ?q)[q_size ?q := Some p]\<rparr>) s"
  have "sstep (Enq_test r p v) s = Some (Enq_store r p v, s)" "sstep (Enq_store r p v) s = Some (Enq_inc r p v, ?s)"
    "sstep (Enq_inc r p v) ?s = Some (Exit v, set_q r (enq ?q p) s)"
    using False assms by (simp_all add: enqueue_def Let_def)
  then show ?thesis by (blast intro: steps_one)
qed

text \<open>The loop that moves the entries down, of \<^verbatim>\<open>dequeue\<close> and of \<^verbatim>\<open>purgequeue\<close>.\<close>

lemma shift_steps:
  assumes loop: "\<And>i s. sstep (pos i) s = (let q = get_q r s in
      if i < q_size q - 1 then Some (pos (Suc i), set_q r (q\<lparr>q_proc := (q_proc q)[i := q_proc q ! Suc i]\<rparr>) s)
      else Some (next_pos, s))"
    and "is_queue r s"
  shows "steps (pos i, s) (next_pos, set_q r ((get_q r s)\<lparr>q_proc := shift_down i (q_size (get_q r s)) (q_proc (get_q r s))\<rparr>) s)"
  using assms(2)
proof (induction "q_size (get_q r s) - i" arbitrary: i s rule: less_induct)
  case less
  let ?q = "get_q r s"
  let ?s = "set_q r (?q\<lparr>q_proc := (q_proc ?q)[i := q_proc ?q ! Suc i]\<rparr>) s"
  show ?case
  proof (cases "i < q_size ?q - 1")
    case True
    then have "steps (pos (Suc i), ?s)
      (next_pos, set_q r ((get_q r ?s)\<lparr>q_proc := shift_down (Suc i) (q_size (get_q r ?s)) (q_proc (get_q r ?s))\<rparr>) ?s)"
      using less.prems by (intro less.hyps) simp_all
    then have "steps (pos (Suc i), ?s) (next_pos, set_q r (?q\<lparr>q_proc := shift_down i (q_size ?q) (q_proc ?q)\<rparr>) s)"
      using True less.prems by (simp add: shift_down.simps [of i])
    then show ?thesis using True loop by (intro steps_one) (auto simp: Let_def)
  next
    case False
    then have "sstep (pos i) s = Some (next_pos, s)" "shift_down i (q_size ?q) (q_proc ?q) = q_proc ?q"
      by (simp_all add: loop Let_def shift_down.simps [of i])
    then show ?thesis by (auto intro: steps_one)
  qed
qed

lemma dequeue_steps:
  assumes "is_queue (Ready pr) s" "q_size (get_q (Ready pr) s) \<noteq> 0"
  shows "steps (Deq_test pr, s) (Set_prio pr (deq_val (get_q (Ready pr) s)), set_q (Ready pr) (deq_rest (get_q (Ready pr) s)) s)"
proof -
  let ?q = "get_q (Ready pr) s" and ?p = "deq_val (get_q (Ready pr) s)"
  let ?s = "set_q (Ready pr) (?q\<lparr>q_proc := shift_down 0 (q_size ?q) (q_proc ?q)\<rparr>) s"
  have p: "?p = q_proc ?q ! 0" "deq_rest ?q = ?q\<lparr>q_proc := shift_down 0 (q_size ?q) (q_proc ?q), q_size := q_size ?q - 1\<rparr>"
    using assms(2) by (simp_all add: dequeue_def empty_def)
  have "sstep (Deq_dec pr ?p) ?s = Some (Set_prio pr ?p, set_q (Ready pr) (deq_rest ?q) s)"
    unfolding p(2) using assms(1) by (simp add: Let_def)
  then have "steps (Deq_dec pr ?p, ?s) (Set_prio pr ?p, set_q (Ready pr) (deq_rest ?q) s)"
    by (rule steps_one) (rule rtranclp.rtrancl_refl)
  moreover have "steps (Deq_loop pr 0 ?p, s) (Deq_dec pr ?p, ?s)"
    by (rule shift_steps [where pos = "\<lambda>i. Deq_loop pr i ?p", OF _ assms(1)]) simp
  ultimately have "steps (Deq_loop pr 0 ?p, s) (Set_prio pr ?p, set_q (Ready pr) (deq_rest ?q) s)" by (rule rtranclp_trans [rotated])
  moreover have "sstep (Deq_test pr) s = Some (Deq_first pr, s)" "sstep (Deq_first pr) s = Some (Deq_loop pr 0 ?p, s)"
    using assms(2) p(1) by simp_all
  ultimately show ?thesis by (blast intro: steps_one)
qed

lemma scan_steps:
  assumes "length (mlq_ready_queue s) = MAX_PRIO"
  shows "steps (Scan i, s) (case first_ready i (mlq_ready_queue s) of None \<Rightarrow> (Found None, s) | Some pr \<Rightarrow> (Deq_test pr, s))"
proof (induction "MAX_PRIO - i" arbitrary: i)
  case 0
  then have "sstep (Scan i) s = Some (Found None, s)" "first_ready i (mlq_ready_queue s) = None"
    by (simp_all add: first_ready.simps [of i])
  then show ?case by (auto intro: steps_one)
next
  case (Suc n)
  have lt: "i < MAX_PRIO" using Suc.hyps(2) by simp
  from Suc have "steps (Scan (Suc i), s)
      (case first_ready (Suc i) (mlq_ready_queue s) of None \<Rightarrow> (Found None, s) | Some pr \<Rightarrow> (Deq_test pr, s))" by simp
  moreover have "sstep (Scan i) s = Some (if q_size (mlq_ready_queue s ! i) \<noteq> 0 then Deq_test i else Scan (Suc i), s)"
    using lt by (simp add: get_q_def)
  moreover have "first_ready i (mlq_ready_queue s) =
      (if q_size (mlq_ready_queue s ! i) \<noteq> 0 then Some i else first_ready (Suc i) (mlq_ready_queue s))"
    using lt by (subst first_ready.simps) (simp add: empty_def)
  ultimately show ?case by (auto intro: steps_one)
qed

lemma first_ready_SomeD:
  "first_ready i qs = Some pr \<Longrightarrow> pr < MAX_PRIO \<and> q_size (qs ! pr) \<noteq> 0"
proof (induction i qs rule: first_ready.induct)
  case (1 i qs)
  from "1.prems" show ?case
    using "1.IH" by (subst (asm) first_ready.simps) (auto simp: empty_def split: if_splits)
qed

lemma get_steps:
  assumes "sched_inv s"
  shows "steps (Scan 0, s) (Exit (fst (get_proc s)), snd (get_proc s))"
proof -
  have len: "length (mlq_ready_queue s) = MAX_PRIO" using assms by (simp add: sched_inv_def)
  note scan = scan_steps [OF this, of 0]
  show ?thesis
  proof (cases "first_ready 0 (mlq_ready_queue s)")
    case None
    let ?s = "s\<lparr>current_prio := 0\<rparr>"
    have "sstep (Found None) s = Some (Reset_prio, s)" "sstep Reset_prio s = Some (Reset_slot, ?s)"
      "sstep Reset_slot ?s = Some (Exit None, ?s\<lparr>current_slot := 0\<rparr>)" by simp_all
    then have "steps (Found None, s) (Exit None, ?s\<lparr>current_slot := 0\<rparr>)"
      by (meson steps_one rtranclp.rtrancl_refl)
    with scan None show ?thesis by (simp add: get_proc_def get_mlq_proc_def)
  next
    case (Some pr)
    let ?q = "mlq_ready_queue s ! pr"
    note pr = first_ready_SomeD [OF Some]
    have inv: "queue_inv ?q" using assms pr by (simp add: sched_inv_mlq)
    obtain p where p: "deq_val ?q = Some p"
      using inv pr queue_nth_Some [OF inv, of 0] by (auto simp: dequeue_def empty_def)
    let ?s1 = "set_q (Ready pr) (deq_rest ?q) s"
    let ?s2 = "?s1\<lparr>current_prio := pr, current_slot := 1\<rparr>"
    have "steps (Deq_test pr, s) (Set_prio pr (Some p), ?s1)"
      using dequeue_steps [of pr s] pr len p by (simp add: is_queue_def get_q_def)
    moreover have "sstep (Set_prio pr (Some p)) ?s1 = Some (Set_slot (Some p), ?s1\<lparr>current_prio := pr\<rparr>)"
      "sstep (Set_slot (Some p)) (?s1\<lparr>current_prio := pr\<rparr>) = Some (Found (Some p), ?s2)"
      "sstep (Found (Some p)) ?s2 = Some (Enq_test Running p (Some p), ?s2)" by simp_all
    moreover have "steps (Enq_test Running p (Some p), ?s2) (Exit (Some p), ?s2\<lparr>running_list := enq (running_list ?s2) p\<rparr>)"
      using enqueue_steps [of Running ?s2 p "Some p"] by (simp add: is_queue_def get_q_def set_q_def)
    ultimately have "steps (Deq_test pr, s) (Exit (Some p), ?s2\<lparr>running_list := enq (running_list ?s2) p\<rparr>)"
      by (meson steps_one rtranclp_trans)
    moreover have "get_proc s = (Some p, ?s2\<lparr>running_list := enq (running_list ?s2) p\<rparr>)"
      using Some p by (simp add: get_proc_def get_mlq_proc_def case_prod_beta set_q_def)
    ultimately show ?thesis using scan Some by simp
  qed
qed

lemma add_steps:
  assumes "length (mlq_ready_queue s) = MAX_PRIO"
  shows "steps (Prio_test p pr, s) (Exit None, enqueue_by_prio s p pr)"
proof (cases "unat pr < MAX_PRIO")
  case True
  have "sstep (Prio_test p pr) s = Some (Enq_test (Ready (unat pr)) p None, s)" using True by simp
  then show ?thesis using True assms enqueue_steps [of "Ready (unat pr)" s p None]
    by (auto simp: is_queue_def enqueue_by_prio_def get_q_def set_q_def intro: steps_one)
next
  case False
  then have "sstep (Prio_test p pr) s = Some (Exit None, s)" by simp
  then show ?thesis using False by (auto simp: enqueue_by_prio_def intro: steps_one)
qed

lemma find_steps:
  "steps (Purge_loop i p pr, s)
     (case find_proc i (q_size (running_list s)) (q_proc (running_list s)) p of None \<Rightarrow> Prio_test p pr | Some k \<Rightarrow> Purge_shift k p pr, s)"
proof (induction "q_size (running_list s) - i" arbitrary: i rule: less_induct)
  case less
  let ?q = "running_list s"
  have "sstep (Purge_loop i p pr) s = Some (if i < q_size ?q then (if q_proc ?q ! i = Some p then Purge_shift i p pr
      else Purge_loop (Suc i) p pr) else Prio_test p pr, s)" by (simp add: Let_def)
  moreover have "find_proc i (q_size ?q) (q_proc ?q) p = (if i < q_size ?q then (if q_proc ?q ! i = Some p then Some i
      else find_proc (Suc i) (q_size ?q) (q_proc ?q) p) else None)" by (rule find_proc.simps)
  moreover have "i < q_size ?q \<Longrightarrow> steps (Purge_loop (Suc i) p pr, s)
     (case find_proc (Suc i) (q_size ?q) (q_proc ?q) p of None \<Rightarrow> Prio_test p pr | Some k \<Rightarrow> Purge_shift k p pr, s)"
    by (intro less) simp
  ultimately show ?case by (auto intro: steps_one)
qed

lemma purge_steps:
  "steps (Purge_test p pr, s) (Prio_test p pr, s\<lparr>running_list := purge (running_list s) p\<rparr>)"
proof (cases "q_size (running_list s) = 0")
  case True
  then have "sstep (Purge_test p pr) s = Some (Prio_test p pr, s)" "purge (running_list s) p = running_list s"
    by (simp_all add: purgequeue_def empty_def)
  then show ?thesis by (auto intro: steps_one)
next
  case False
  let ?q = "running_list s"
  have first: "sstep (Purge_test p pr) s = Some (Purge_loop 0 p pr, s)" using False by simp
  show ?thesis
  proof (cases "find_proc 0 (q_size ?q) (q_proc ?q) p")
    case None
    then show ?thesis using first find_steps [of 0 p pr s] False by (auto simp: purgequeue_def empty_def intro: steps_one)
  next
    case (Some i)
    let ?s1 = "s\<lparr>running_list := ?q\<lparr>q_proc := shift_down i (q_size ?q) (q_proc ?q)\<rparr>\<rparr>"
    let ?s2 = "s\<lparr>running_list := ?q\<lparr>q_proc := shift_down i (q_size ?q) (q_proc ?q), q_size := q_size ?q - 1\<rparr>\<rparr>"
    have "steps (Purge_loop 0 p pr, s) (Purge_shift i p pr, s)" using find_steps [of 0 p pr s] Some by simp
    moreover have "steps (Purge_shift i p pr, s) (Purge_dec p pr, ?s1)"
      using shift_steps [where pos = "\<lambda>j. Purge_shift j p pr" and r = Running and next_pos = "Purge_dec p pr", of s i]
      by (simp add: is_queue_def get_q_def set_q_def)
    moreover have "sstep (Purge_dec p pr) ?s1 = Some (Purge_null p pr, ?s2)" by (simp add: Let_def set_q_def)
    moreover have "sstep (Purge_null p pr) ?s2 = Some (Prio_test p pr, s\<lparr>running_list := purge ?q p\<rparr>)"
      using Some False by (simp add: Let_def set_q_def purgequeue_def empty_def)
    ultimately show ?thesis using first by (meson steps_one rtranclp_trans rtranclp.rtrancl_refl)
  qed
qed

lemma call_completes:
  assumes "sched_inv s"
  shows "steps (call_start c, s) (Exit (fst (call_op c s)), snd (call_op c s))"
proof (cases c)
  case C_get
  then show ?thesis using get_steps [OF assms] by (simp add: call_start_def call_op_def)
next
  case (C_put p pr)
  let ?s = "s\<lparr>running_list := purge (running_list s) p\<rparr>"
  have "steps (Prio_test p pr, ?s) (Exit None, enqueue_by_prio ?s p pr)" using assms by (intro add_steps) (simp add: sched_inv_def)
  with purge_steps [of p pr s] have "steps (Purge_test p pr, s) (Exit None, enqueue_by_prio ?s p pr)" by (rule rtranclp_trans)
  then show ?thesis using C_put by (simp add: call_start_def call_op_def put_proc_def put_mlq_proc_def)
next
  case (C_add p pr)
  then show ?thesis using assms add_steps [of s p pr] by (simp add: call_start_def call_op_def sched_inv_def)
qed

interpretation guard: guarded_calls call_lock call_start sstep call_result call_op sched_inv
proof
  fix s c assume "sched_inv s"
  then show "\<exists>pos. steps (call_start c, s) (pos, snd (call_op c s)) \<and> sstep pos (snd (call_op c s)) = None \<and>
      call_result pos = fst (call_op c s)"
    using call_completes by (intro exI [of _ "Exit (fst (call_op c s))"]) (simp add: call_result_def)
  from \<open>sched_inv s\<close> show "sched_inv (snd (call_op c s))"
    by (cases c) (simp_all add: call_op_def get_proc_def put_proc_def sched_inv_get sched_inv_put sched_inv_enqueue_by_prio)
qed
section \<open>Properties\<close>


text \<open>Two additions to an empty scheduler that take their steps in turn.\<close>

definition two_adds :: "nat \<Rightarrow> sched_call" where
  "two_adds t = C_add t 0"

abbreviation two_adds_run :: "(sched_call, spos, proc_ptr option, sched_t) lsys" where
  "two_adds_run \<equiv> lrun call_lock call_start sstep call_result [0, 1, 0, 1, 0, 0, 1, 0, 0, 1, 1, 1, 1, 1, 1] (threads zero_sched two_adds)"

lemma zero_sched_q0:
  "get_q (Ready 0) zero_sched = empty_queue" "is_queue (Ready 0) zero_sched" "running_list zero_sched = empty_queue"
  by (simp_all add: get_q_def is_queue_def zero_sched_def MAX_PRIO_def)

lemmas run_simps = lstep_def threads_def call_start_def call_lock_def call_result_def Let_def zero_sched_q0

lemma two_adds_run_free:
  "holder two_adds_run Queue_lock = None" "thr two_adds_run 0 = Done (two_adds 0) None" "thr two_adds_run 1 = Done (two_adds 1) None"
  by (simp_all add: run_simps two_adds_def MAX_PRIO_def MAX_QUEUE_SIZE_def empty_queue_def)


text \<open>The scheduler with one ready queue in use, and the queue of at most two processes in it.\<close>

definition race_state :: "queue_t \<Rightarrow> queue_t \<Rightarrow> nat \<Rightarrow> sched_t" where
  "race_state q r c = zero_sched\<lparr>mlq_ready_queue := q # replicate 139 empty_queue, running_list := r, current_slot := c\<rparr>"

definition two_slots :: "proc_ptr option \<Rightarrow> proc_ptr option \<Rightarrow> nat \<Rightarrow> queue_t" where
  "two_slots x y n = \<lparr>q_proc = x # y # replicate 48 None, q_size = n\<rparr>"

lemma race_state_simps:
  "get_q (Ready 0) (race_state q r c) = q" "running_list (race_state q r c) = r" "get_q Running (race_state q r c) = r"
  "set_q (Ready 0) q' (race_state q r c) = race_state q' r c" "set_q Running r' (race_state q r c) = race_state q r' c"
  "(race_state q r c)\<lparr>current_prio := 0\<rparr> = race_state q r c" "(race_state q r c)\<lparr>current_slot := d\<rparr> = race_state q r d"
  by (simp_all add: race_state_def get_q_def set_q_def zero_sched_def)

lemma two_slots_simps:
  "q_size (two_slots x y n) = n" "q_proc (two_slots x y n) = x # y # replicate 48 None"
  "(two_slots x y n)\<lparr>q_size := m\<rparr> = two_slots x y m"
  "(two_slots x y n)\<lparr>q_proc := z # w # replicate 48 None\<rparr> = two_slots z w n"
  by (simp_all add: two_slots_def)

lemma race_begin: "enqueue_by_prio zero_sched a 0 = race_state (two_slots (Some a) None 1) (two_slots None None 0) 0"
  by (simp add: enqueue_by_prio_def zero_sched_def enqueue_def MAX_PRIO_def MAX_QUEUE_SIZE_def empty_queue_def race_state_def
    two_slots_def numeral_eq_Suc)

lemma race_over: "fst (get_proc (race_state (two_slots x y 0) r c)) = None"
proof (cases "first_ready 0 (mlq_ready_queue (race_state (two_slots x y 0) r c))")
  case None
  then show ?thesis by (simp add: get_proc_def get_mlq_proc_def)
next
  case (Some pr)
  from first_ready_SomeD [OF this] show ?thesis
    by (cases pr) (auto simp: race_state_def two_slots_def MAX_PRIO_def empty_queue_def)
qed

lemma lrun_append: "lrun l st m r (xs @ ys) s = lrun l st m r ys (lrun l st m r xs s)"
  by (induction xs arbitrary: s) simp_all

lemmas race_simps = lstep_def call_start_def call_lock_def call_result_def race_state_simps two_slots_simps MAX_PRIO_def MAX_QUEUE_SIZE_def

definition race_calls :: "proc_ptr \<Rightarrow> nat \<Rightarrow> sched_call" where
  "race_calls b t = (if t = 1 then C_add b 0 else C_get)"

definition race_schedule :: "nat list" where
  "race_schedule = [0, 0, 0, 0, 0] @ [1, 1, 1, 1, 1, 1] @ [0, 0, 0, 0, 0, 0, 0, 0] @ [2, 2, 2, 2, 2, 2, 2, 2, 2, 2, 2, 2, 2]"

text \<open>
  C12 (two_locks_race): a dispatch holds another mutex than an addition, so they overlap. Process \<open>a\<close> is the only ready one;
  thread 0 dispatches it and is past the loop of \<^verbatim>\<open>dequeue\<close> when thread 1 adds process \<open>b\<close> at the same priority, and
  then thread 0 decrements the size. Now process \<open>a\<close> is still in the ready queue and \<open>b\<close> in none: thread 2
  dispatches \<open>a\<close> a second time, and the scheduler has nothing left to dispatch.
\<close>

theorem two_locks_race:
  "let s = lrun call_lock call_start sstep call_result race_schedule (threads (enqueue_by_prio zero_sched a 0) (race_calls b))
   in thr s 0 = Done C_get (Some a) \<and> thr s 1 = Done (C_add b 0) None \<and> thr s 2 = Done C_get (Some a) \<and>
      queue_list (running_list (shared s)) = [a, a] \<and> fst (get_proc (shared s)) = None"
proof -
  let ?run = "lrun call_lock call_start sstep call_result"
  let ?race = "\<lambda>q r c h f. \<lparr>holder = (\<lambda>_. None)(Mlq_lock := h), shared = race_state q r c, thr = f\<rparr>"
  let ?f0 = "(\<lambda>t. Want (race_calls b t)) (0 := In C_get (Deq_dec 0 (Some a)))"
  let ?f1 = "?f0 (Suc 0 := Done (C_add b 0) None)"
  let ?f2 = "?f1 (0 := Done C_get (Some a))"
  have 1: "?run [0, 0, 0, 0, 0] (threads (enqueue_by_prio zero_sched a 0) (race_calls b)) =
      ?race (two_slots (Some a) None 1) (two_slots None None 0) 0 (Some 0) ?f0"
    unfolding race_begin by (simp add: race_simps threads_def race_calls_def)
  have 2: "?run [1, 1, 1, 1, 1, 1] (?race (two_slots (Some a) None 1) (two_slots None None 0) 0 (Some 0) ?f0) =
      ?race (two_slots (Some a) (Some b) 2) (two_slots None None 0) 0 (Some 0) ?f1"
    by (simp add: race_simps race_calls_def Let_def numeral_2_eq_2)
  have 3: "?run [0, 0, 0, 0, 0, 0, 0, 0] (?race (two_slots (Some a) (Some b) 2) (two_slots None None 0) 0 (Some 0) ?f1) =
      ?race (two_slots (Some a) (Some b) 1) (two_slots (Some a) None 1) 1 None ?f2"
    by (simp add: race_simps Let_def)
  have 4: "?run [2, 2, 2, 2, 2, 2, 2, 2, 2, 2, 2, 2, 2] (?race (two_slots (Some a) (Some b) 1) (two_slots (Some a) None 1) 1 None ?f2) =
      ?race (two_slots (Some a) (Some b) 0) (two_slots (Some a) (Some a) 2) 1 None (?f2 (2 := Done C_get (Some a)))"
    by (simp add: race_simps Let_def race_calls_def)
      (simp add: numeral_2_eq_2)
  show ?thesis unfolding race_schedule_def lrun_append 1 2 3 4
    by (simp add: race_over race_state_simps) (simp add: queue_list_def two_slots_def)
qed

end
