(* ===== verification/SchedFifo.thy ===== *)
theory SchedFifo
  imports Sched
begin

text \<open>
  The scheduler of \<^verbatim>\<open>src/src/sched.c\<close> in the configuration without \<^verbatim>\<open>MLQ_SCHED\<close>: one ready queue, from which
  processes are dispatched in order, and the run queue, to which they return.
\<close>

definition get_proc_fifo :: "sched_t \<Rightarrow> proc_ptr option \<times> sched_t" where
  "get_proc_fifo s =
     (case dequeue (Some (ready_queue s)) of (proc, q) \<Rightarrow>
        (proc, if proc \<noteq> None
               then s\<lparr>ready_queue := the q, running_list := the (enqueue (Some (running_list s)) proc)\<rparr>
               else s\<lparr>ready_queue := the q\<rparr>))"

definition put_proc_fifo :: "sched_t \<Rightarrow> krnl_t \<Rightarrow> proc_ptr \<Rightarrow> sched_t \<times> krnl_t" where
  "put_proc_fifo s k p =
     (s\<lparr>running_list := the (snd (purgequeue (Some (running_list s)) (Some p))),
        run_queue := the (enqueue (Some (run_queue s)) (Some p))\<rparr>,
      k\<lparr>k_ready_queue := Some Ready_queue, k_running_list := Some Running_list\<rparr>)"

definition add_proc_fifo :: "sched_t \<Rightarrow> krnl_t \<Rightarrow> proc_ptr \<Rightarrow> sched_t \<times> krnl_t" where
  "add_proc_fifo s k p =
     (s\<lparr>ready_queue := the (enqueue (Some (ready_queue s)) (Some p))\<rparr>,
      k\<lparr>k_ready_queue := Some Ready_queue, k_running_list := Some Running_list\<rparr>)"

text \<open>The operations of a CPU without new processes, and what it is handed.\<close>

fun fifo_run :: "nat \<Rightarrow> krnl_t \<Rightarrow> sched_t \<Rightarrow> proc_ptr option list" where
  "fifo_run 0 k s = []"
| "fifo_run (Suc n) k s =
     (case get_proc_fifo s of
        (None, s') \<Rightarrow> None # fifo_run n k s'
      | (Some p, s') \<Rightarrow> Some p # fifo_run n k (fst (put_proc_fifo s' k p)))"

lemma get_proc_fifo_list:
  assumes "queue_inv (ready_queue s)"
  shows "fst (get_proc_fifo s) = (case queue_list (ready_queue s) of [] \<Rightarrow> None | p # _ \<Rightarrow> Some p)"
    and "ready_queue (snd (get_proc_fifo s)) = deq_rest (ready_queue s)"
  using pq.front_list [OF assms] by (simp_all add: get_proc_fifo_def case_prod_beta)

lemma ready_put_fifo [simp]: "ready_queue (fst (put_proc_fifo s k p)) = ready_queue s"
  by (simp add: put_proc_fifo_def)

text \<open>
  C32 (fifo_dispatches_once): without \<^verbatim>\<open>MLQ_SCHED\<close>, every ready process is dispatched once, in order of arrival, and never again: nothing moves a process
  from the run queue, where \<^verbatim>\<open>put_proc\<close> leaves it, back to the ready queue.
\<close>

theorem fifo_dispatches_once:
  assumes "queue_inv (ready_queue s)"
  shows "fifo_run n k s = take n (map Some (queue_list (ready_queue s)) @ replicate n None)"
  using assms
proof (induction n arbitrary: s)
  case (Suc n)
  obtain po s' where g: "get_proc_fifo s = (po, s')" by (cases "get_proc_fifo s")
  note G = get_proc_fifo_list [OF Suc.prems, unfolded g fst_conv snd_conv]
  have i: "queue_inv (ready_queue s')" "queue_list (ready_queue s') = tl (queue_list (ready_queue s))"
    using pq.invar_leave [OF Suc.prems] pq.list_leave [OF Suc.prems] G(2) by simp_all
  show ?case
  proof (cases "queue_list (ready_queue s)")
    case Nil
    then show ?thesis using g G(1) i Suc.IH [of s'] by (simp add: replicate_append_same)
  next
    case (Cons p ps)
    then show ?thesis using g G(1) i Suc.IH [of "fst (put_proc_fifo s' k p)"]
      by (simp flip: replicate_append_same)
  qed
qed simp

theorem fifo_dispatches_once_witness:
  "\<exists>k. fifo_run 4 k (zero_sched\<lparr>ready_queue := enq (enq empty_queue 7) 8\<rparr>) = [Some 7, Some 8, None, None]"
  using fifo_dispatches_once [of "zero_sched\<lparr>ready_queue := enq (enq empty_queue 7) 8\<rparr>" 4]
  by (simp add: queue_simps MAX_QUEUE_SIZE_def numeral_nat)

end
