(* ===== verification/Layout.thy ===== *)
theory Layout
  imports Syscall
begin

text \<open>
  Where the fields of \<^verbatim>\<open>struct pcb_t\<close> are, under the two widths of \<^verbatim>\<open>addr_t\<close> that the translation units
  see. The rule is the one of the platform's ABI: a field starts at the next multiple of its
  alignment. \<^verbatim>\<open>src/src/sys_mem.c\<close> includes \<^verbatim>\<open>os-mm.h\<close> before \<^verbatim>\<open>os-cfg.h\<close> defines \<^verbatim>\<open>MM64\<close>, so that \<^verbatim>\<open>addr_t\<close> has
  4 bytes there and 8 bytes everywhere else.
\<close>

section \<open>Offsets\<close>

definition align_up :: "nat \<Rightarrow> nat \<Rightarrow> nat" where
  "align_up n a = (n + a - 1) div a * a"

fun offsets :: "nat \<Rightarrow> (string \<times> nat \<times> nat) list \<Rightarrow> (string \<times> nat \<times> nat) list" where
  "offsets n [] = []"
| "offsets n ((f, sz, al) # fs) = (f, align_up n al, sz) # offsets (align_up n al + sz) fs"

definition offset_of :: "string \<Rightarrow> (string \<times> nat \<times> nat) list \<Rightarrow> nat option" where
  "offset_of f fs = map_option fst (map_of (offsets 0 fs) f)"

text \<open>The fields with their sizes and alignments, for an \<^verbatim>\<open>addr_t\<close> of \<open>w\<close> bytes.\<close>

definition pcb_fields :: "nat \<Rightarrow> (string \<times> nat \<times> nat) list" where
  "pcb_fields w = [(''pid'', 4, 4), (''priority'', 4, 4), (''path'', 100, 1), (''code'', 8, 8), (''regs'', 10 * w, w),
     (''pc'', 4, 4), (''prio'', 4, 4), (''krnl'', 8, 8), (''page_table'', 8, 8), (''bp'', 4, 4)]"

section \<open>Properties\<close>

lemma align_up_ge: "0 < a \<Longrightarrow> n \<le> align_up n a"
proof -
  assume "0 < a"
  then have "n + a - 1 < (n + a - 1) div a * a + a" by (metis dividend_less_div_times mult.commute add.commute)
  then show ?thesis using \<open>0 < a\<close> by (simp add: align_up_def)
qed

lemma align_up_dvd: "a dvd align_up n a"
  by (simp add: align_up_def)

text \<open>The fields of a structure are aligned, in order and disjoint.\<close>

lemma offsets_sorted:
  "\<forall>(_, _, al) \<in> set fs. 0 < al \<Longrightarrow> (f, o', sz) \<in> set (offsets n fs) \<Longrightarrow> n \<le> o'"
proof (induction n fs rule: offsets.induct)
  case (2 n g s al fs)
  then show ?case using align_up_ge [of al n] by force
qed simp

lemma offsets_disjoint:
  "\<forall>(_, _, al) \<in> set fs. 0 < al \<Longrightarrow> i < j \<Longrightarrow> j < length (offsets n fs) \<Longrightarrow>
   fst (snd (offsets n fs ! i)) + snd (snd (offsets n fs ! i)) \<le> fst (snd (offsets n fs ! j))"
proof (induction n fs arbitrary: i j rule: offsets.induct)
  case (2 n g s al fs)
  let ?n = "align_up n al + s"
  have pos: "\<forall>(_, _, al) \<in> set fs. 0 < al" using "2.prems"(1) by simp
  obtain k where j: "j = Suc k" using "2.prems"(2) by (cases j) auto
  show ?case
  proof (cases i)
    case 0
    have k: "k < length (offsets ?n fs)" using "2.prems"(3) by (simp add: j)
    obtain f o' sz where "offsets ?n fs ! k = (f, o', sz)" by (cases "offsets ?n fs ! k")
    with offsets_sorted [OF pos, of f o' sz ?n] nth_mem [OF k] show ?thesis by (simp add: 0 j)
  next
    case (Suc l)
    then show ?thesis using "2.IH" [OF pos, of l k] "2.prems"(2,3) by (simp add: j)
  qed
qed simp


end
