(* ===== verification/LegacyMem.thy ===== *)
theory LegacyMem
  imports Common
begin

unbundle bit_operations_syntax

text \<open>
  The segmented memory of \<^verbatim>\<open>src/src/mem.c\<close> and the accesses of \<^verbatim>\<open>src/src/cpu.c\<close> that use it when paging is
  not configured. The memory is a stub: no table is ever found and no page is ever allocated. A
  physical address that was never assigned is undefined.
\<close>

section \<open>The memory\<close>

text \<open>\<^verbatim>\<open>ADDRESS_SIZE\<close>, \<^verbatim>\<open>OFFSET_LEN\<close>, \<^verbatim>\<open>PAGE_LEN\<close>: a page has \<open>2 ^ 10\<close> bytes, there are \<open>2 ^ 10\<close> pages.\<close>

record mem_stat_t =
  ms_proc :: u32
  ms_index :: int
  ms_next :: int

record seg_mem =
  mem_ram :: "byte list"
  mem_stat :: "mem_stat_t list"

definition init_mem :: seg_mem where
  "init_mem = \<lparr>mem_ram = replicate (2 ^ 20) 0, mem_stat = replicate (2 ^ 10) \<lparr>ms_proc = 0, ms_index = 0, ms_next = 0\<rparr>\<rparr>"

text \<open>The two levels of tables: entries of virtual and physical indices, and the number in use.\<close>

record trans_table_t =
  tt_table :: "(addr_t \<times> addr_t) list"
  tt_size :: nat

record page_table_t =
  pgt_table :: "(addr_t \<times> trans_table_t) list"
  pgt_size :: nat

section \<open>Address translation\<close>

definition get_offset :: "addr_t \<Rightarrow> addr_t" where
  "get_offset addr = addr AND ucast (NOT (push_bit 10 (NOT 0) :: u32))"

definition get_first_lv :: "addr_t \<Rightarrow> addr_t" where
  "get_first_lv addr = drop_bit (10 + 5) addr"

definition get_second_lv :: "addr_t \<Rightarrow> addr_t" where
  "get_second_lv addr = drop_bit 10 addr - push_bit 5 (get_first_lv addr)"

text \<open>The search runs over the segment table with an empty body.\<close>

fun get_trans_table :: "addr_t \<Rightarrow> (addr_t \<times> trans_table_t) list \<Rightarrow> trans_table_t option" where
  "get_trans_table index [] = None"
| "get_trans_table index (e # es) = get_trans_table index es"

definition translate :: "addr_t \<Rightarrow> page_table_t \<Rightarrow> int" where
  "translate virtual_addr tbl =
     (case get_trans_table (get_first_lv virtual_addr) (take (pgt_size tbl) (pgt_table tbl)) of
        None \<Rightarrow> 0
      | Some t \<Rightarrow> of_bool (\<exists>e \<in> set (take (tt_size t) (tt_table t)). fst e = get_second_lv virtual_addr))"

section \<open>Allocation and accesses\<close>

definition alloc_mem :: "u32 \<Rightarrow> pcb_t \<Rightarrow> addr_t \<times> pcb_t" where
  "alloc_mem sz c =
     (let num_pages = (if sz mod 1024 \<noteq> 0 then sz div 1024 else sz div 1024 + 1);
          mem_avail = (0 :: int)
      in if mem_avail \<noteq> 0 then (ucast (bp c), c\<lparr>bp := bp c + num_pages * 1024\<rparr>) else (0, c))"

definition free_mem :: "addr_t \<Rightarrow> pcb_t \<Rightarrow> int" where
  "free_mem address c = 0"

definition read_mem :: "addr_t \<Rightarrow> page_table_t \<Rightarrow> byte \<Rightarrow> (int \<times> byte) option" where
  "read_mem address tbl data = (if translate address tbl \<noteq> 0 then None else Some (1, data))"

definition write_mem :: "seg_mem \<Rightarrow> addr_t \<Rightarrow> page_table_t \<Rightarrow> byte \<Rightarrow> (int \<times> seg_mem) option" where
  "write_mem m address tbl data = (if translate address tbl \<noteq> 0 then None else Some (1, m))"

section \<open>The instructions without paging\<close>

text \<open>A register number outside the array is undefined; \<open>junk\<close> is what a local variable holds before it is set.\<close>

definition reg_at :: "pcb_t \<Rightarrow> u32 \<Rightarrow> addr_t option" where
  "reg_at c r = (if unat r < length (regs c) then Some (regs c ! unat r) else None)"

definition alloc :: "pcb_t \<Rightarrow> u32 \<Rightarrow> u32 \<Rightarrow> (int \<times> pcb_t) option" where
  "alloc c sz reg_index =
     (case alloc_mem sz c of (addr, c') \<Rightarrow>
        if addr = 0 then Some (1, c')
        else if unat reg_index < length (regs c') then Some (0, c'\<lparr>regs := (regs c')[unat reg_index := addr]\<rparr>)
        else None)"

definition free_data :: "pcb_t \<Rightarrow> u32 \<Rightarrow> int option" where
  "free_data c reg_index = do { addr \<leftarrow> reg_at c reg_index; Some (free_mem addr c) }"

definition read_seg :: "pcb_t \<Rightarrow> page_table_t \<Rightarrow> byte \<Rightarrow> u32 \<Rightarrow> u32 \<Rightarrow> u32 \<Rightarrow> (int \<times> pcb_t) option" where
  "read_seg c tbl junk source offset destination = do {
     base \<leftarrow> reg_at c source;
     (r, data) \<leftarrow> read_mem (base + ucast offset) tbl junk;
     if r \<noteq> 0 then
       (if unat destination < length (regs c)
        then Some (0, c\<lparr>regs := (regs c)[unat destination := scast data]\<rparr>) else None)
     else Some (1, c) }"

definition write_seg :: "seg_mem \<Rightarrow> pcb_t \<Rightarrow> page_table_t \<Rightarrow> byte \<Rightarrow> u32 \<Rightarrow> u32 \<Rightarrow> (int \<times> seg_mem) option" where
  "write_seg m c tbl data destination offset = do {
     base \<leftarrow> reg_at c destination;
     write_mem m (base + ucast offset) tbl data }"

section \<open>Properties\<close>

lemma get_trans_table_none [simp]: "get_trans_table index es = None"
  by (induction es) simp_all

lemma translate_none [simp]: "translate a tbl = 0"
  by (simp add: translate_def)

lemma offset_mask: "(ucast (NOT (push_bit 10 (NOT 0) :: u32)) :: addr_t) = mask 10"
  by (simp add: mask_eq_exp_minus_1)

lemma second_lv_eq: "get_second_lv a = take_bit 5 (drop_bit 10 a)"
proof -
  have "get_first_lv a = drop_bit 5 (drop_bit 10 a)" by (simp add: get_first_lv_def)
  then show ?thesis
    using bits_ident [of 5 "drop_bit 10 a"] by (simp add: get_second_lv_def algebra_simps del: drop_bit_drop_bit)
qed

text \<open>
  An address is split without loss into the index of the first level, the
  index of the second level, which is below 32, and the offset, which is below 1024.
\<close>

theorem segment_address_split:
  "addr = push_bit 15 (get_first_lv addr) + push_bit 10 (get_second_lv addr) + get_offset addr \<and>
   unat (get_second_lv addr) < 32 \<and> unat (get_offset addr) < 1024"
proof -
  have o: "get_offset addr = take_bit 10 addr" unfolding get_offset_def offset_mask take_bit_eq_mask ..
  have "unat (get_second_lv addr) < 32" "unat (get_offset addr) < 1024"
    using take_bit_nat_less_exp [of 5] take_bit_nat_less_exp [of 10]
    by (simp_all add: second_lv_eq o unsigned_take_bit_eq)
  moreover have "push_bit 15 (drop_bit 15 addr) + push_bit 10 (take_bit 5 (drop_bit 10 addr)) = push_bit 10 (drop_bit 10 addr)"
    using arg_cong [OF bits_ident [of 5 "drop_bit 10 addr"], of "push_bit 10"] by (simp add: push_bit_add)
  then have "push_bit 15 (drop_bit 15 addr) + push_bit 10 (take_bit 5 (drop_bit 10 addr)) + take_bit 10 addr = addr"
    using bits_ident [of 10 addr] by simp
  ultimately show ?thesis by (simp add: second_lv_eq o get_first_lv_def)
qed


definition seg_proc :: pcb_t where
  "seg_proc = \<lparr>pid = 1, priority = 0, path = [], code = \<lparr>cs_text = [], cs_size = 0\<rparr>,
     regs = replicate 10 0, pc = 0, prio = 0, bp = 1024\<rparr>"


end
