(* ===== verification/Mm32.thy ===== *)
theory Mm32
  imports Bitops
begin

unbundle bit_operations_syntax

text \<open>
  The 32-bit memory management of \<^verbatim>\<open>src/src/mm.c\<close>, which is compiled when \<^verbatim>\<open>MM64\<close> is not defined. \<^verbatim>\<open>addr_t\<close> is
  32 bits wide there and the page table is the array \<^verbatim>\<open>pgd\<close>, indexed by the page number; an index
  outside it is undefined. Most functions only report that the mode is deprecated and return 0.
\<close>

section \<open>Entries\<close>

definition SETVAL32 :: "u32 \<Rightarrow> u32 \<Rightarrow> u32 \<Rightarrow> nat \<Rightarrow> u32" where
  "SETVAL32 v val m off = (v AND NOT m) OR (push_bit off val AND m)"

definition init_pte32 :: "u32 \<Rightarrow> int \<Rightarrow> u32 \<Rightarrow> int \<Rightarrow> int \<Rightarrow> u32 \<Rightarrow> u32 \<Rightarrow> int \<times> u32" where
  "init_pte32 pte pre fpn drt swp swptyp swpoff =
     (if pre \<noteq> 0 then
        (if swp = 0 then
           (if fpn = 0 then (-1, pte)
            else (0, SETVAL32 ((pte OR PAGING_PTE_PRESENT_MASK) AND NOT PAGING_PTE_SWAPPED_MASK AND NOT PAGING_PTE_DIRTY_MASK)
                       fpn PAGING_PTE_FPN_MASK 0))
         else (0, SETVAL32 (SETVAL32 ((pte OR PAGING_PTE_PRESENT_MASK OR PAGING_PTE_SWAPPED_MASK) AND NOT PAGING_PTE_DIRTY_MASK)
                    swptyp PAGING_PTE_SWPTYP_MASK 0) swpoff PAGING_PTE_SWPOFF_MASK 5))
      else (0, pte))"

definition swap_entry32 :: "u32 \<Rightarrow> u32 \<Rightarrow> u32 \<Rightarrow> u32" where
  "swap_entry32 pte swptyp swpoff =
     SETVAL32 (SETVAL32 (pte OR PAGING_PTE_PRESENT_MASK OR PAGING_PTE_SWAPPED_MASK) swptyp PAGING_PTE_SWPTYP_MASK 0)
       swpoff PAGING_PTE_SWPOFF_MASK 5"

definition pte_set_swap32 :: "u32 list \<Rightarrow> u32 \<Rightarrow> u32 \<Rightarrow> u32 \<Rightarrow> (int \<times> u32 list) option" where
  "pte_set_swap32 tbl pgn swptyp swpoff =
     (if unat pgn < length tbl then Some (0, tbl[unat pgn := swap_entry32 (tbl ! unat pgn) swptyp swpoff]) else None)"

definition fpn_entry32 :: "u32 \<Rightarrow> u32 \<Rightarrow> u32" where
  "fpn_entry32 pte fpn =
     SETVAL32 ((pte OR PAGING_PTE_PRESENT_MASK) AND NOT PAGING_PTE_SWAPPED_MASK) fpn PAGING_PTE_FPN_MASK 0"

definition pte_set_fpn32 :: "u32 list \<Rightarrow> u32 \<Rightarrow> u32 \<Rightarrow> (int \<times> u32 list) option" where
  "pte_set_fpn32 tbl pgn fpn =
     (if unat pgn < length tbl then Some (0, tbl[unat pgn := fpn_entry32 (tbl ! unat pgn) fpn]) else None)"

definition pte_set_entry32 :: "u32 list \<Rightarrow> u32 \<Rightarrow> u32 \<Rightarrow> (int \<times> u32 list) option" where
  "pte_set_entry32 tbl pgn pte_val = (if unat pgn < length tbl then Some (0, tbl[unat pgn := pte_val]) else None)"

section \<open>The deprecated functions\<close>

definition pte_get_entry32 :: "u32 list \<Rightarrow> u32 \<Rightarrow> u32" where
  "pte_get_entry32 tbl pgn = 0"

definition get_pd_from_address32 :: "u32 \<Rightarrow> int" where
  "get_pd_from_address32 addr = 0"

definition get_pd_from_pagenum32 :: "u32 \<Rightarrow> int" where
  "get_pd_from_pagenum32 pgn = 0"

definition vmap_pgd_memset32 :: "u32 list \<Rightarrow> u32 \<Rightarrow> int \<Rightarrow> int \<times> u32 list" where
  "vmap_pgd_memset32 tbl addr pgnum = (0, tbl)"

definition vmap_page_range32 :: "u32 list \<Rightarrow> u32 \<Rightarrow> int \<Rightarrow> u32 list \<Rightarrow> u32 \<times> u32 list" where
  "vmap_page_range32 tbl addr pgnum frames = (0, tbl)"

definition alloc_pages_range32 :: "int \<Rightarrow> u32 list \<Rightarrow> u32 \<times> u32 list" where
  "alloc_pages_range32 req_pgnum frm_lst = (0, frm_lst)"

definition vm_map_ram32 :: "u32 list \<Rightarrow> u32 \<Rightarrow> u32 \<Rightarrow> u32 \<Rightarrow> int \<Rightarrow> u32 \<times> u32 list" where
  "vm_map_ram32 tbl astart aend mapstart incpgnum = (0, tbl)"

definition swap_cp_page32 :: "byte list \<Rightarrow> u32 \<Rightarrow> byte list \<Rightarrow> u32 \<Rightarrow> int \<times> byte list" where
  "swap_cp_page32 src srcfpn dst dstfpn = (0, dst)"

definition init_mm32 :: "u32 list \<Rightarrow> int \<times> u32 list" where
  "init_mm32 tbl = (0, tbl)"

definition init_vm_rg32 :: "u32 \<Rightarrow> u32 \<Rightarrow> (u32 \<times> u32) option" where
  "init_vm_rg32 rg_start rg_end = None"

definition enlist_vm_rg_node32 :: "(u32 \<times> u32) list \<Rightarrow> u32 \<times> u32 \<Rightarrow> int \<times> (u32 \<times> u32) list" where
  "enlist_vm_rg_node32 rglist rgnode = (0, rglist)"

definition enlist_pgn_node32 :: "u32 list \<Rightarrow> u32 \<Rightarrow> int \<times> u32 list" where
  "enlist_pgn_node32 plist pgn = (0, plist)"

section \<open>Properties\<close>

lemma bit_SETVAL32:
  "bit (SETVAL32 v val m off) k \<longleftrightarrow> (bit v k \<and> \<not> bit m k) \<or> (bit m k \<and> off \<le> k \<and> bit val (k - off))"
  by (auto simp: SETVAL32_def bit_simps dest: bit_imp_le_length)

text \<open>
  What the setters store: a present entry with the low 13 bits of the frame number, or a swapped one
  with the low 21 bits of the offset and 5 bits of the type; the other entries stay. Nothing of it can be
  read back, because \<^verbatim>\<open>pte_get_entry\<close> always returns 0.
\<close>

lemma fpn_entry32_fields:
  "bit (fpn_entry32 pte fpn) 31" "\<not> bit (fpn_entry32 pte fpn) 30" "take_bit 13 (fpn_entry32 pte fpn) = take_bit 13 fpn"
  by (auto intro!: bit_word_eqI simp: fpn_entry32_def bit_SETVAL32 bit_masks bit_simps)

lemma swap_entry32_fields:
  "bit (swap_entry32 pte t off) 31" "bit (swap_entry32 pte t off) 30"
  "take_bit 21 (drop_bit 5 (swap_entry32 pte t off)) = take_bit 21 off" "take_bit 5 (swap_entry32 pte t off) = take_bit 5 t"
  by (auto intro!: bit_word_eqI simp: swap_entry32_def bit_SETVAL32 bit_masks bit_simps)

theorem entries32_set_but_not_read:
  assumes "unat pgn < length tbl"
  shows "\<exists>tbl'. pte_set_fpn32 tbl pgn fpn = Some (0, tbl') \<and> take_bit 13 (tbl' ! unat pgn) = take_bit 13 fpn \<and>
    bit (tbl' ! unat pgn) 31 \<and> \<not> bit (tbl' ! unat pgn) 30 \<and> (\<forall>i. i \<noteq> unat pgn \<longrightarrow> tbl' ! i = tbl ! i) \<and>
    pte_get_entry32 tbl' pgn = 0"
  using assms by (simp add: pte_set_fpn32_def fpn_entry32_fields pte_get_entry32_def)

end
