(* ===== verification/Print.thy ===== *)
theory Print
  imports Scan Mm64 LegacyMem Mm32
begin

text \<open>
  The functions that print the state: the lists of \<^verbatim>\<open>src/src/mm64.c\<close> and \<^verbatim>\<open>src/src/mm.c\<close> and the memory dump of
  \<^verbatim>\<open>src/src/mem.c\<close>, as the text they write and the value they return. What is printed of a list determines the
  list; what is printed of the memory leaves out the last byte of every page.
\<close>

section \<open>Directives of formatted output\<close>

text \<open>\<^verbatim>\<open>%ld\<close> (\<^verbatim>\<open>FORMAT_ADDR\<close>): the address as a signed number.\<close>

definition print_int :: "int \<Rightarrow> string" where
  "print_int v = (if v < 0 then CHR ''-'' # print_nat (nat (- v)) else print_nat (nat v))"

definition fmt_ld :: "addr_t \<Rightarrow> string" where
  "fmt_ld a = print_int (sint a)"

fun print_hex :: "nat \<Rightarrow> string" where
  "print_hex n = (if n < 16 then [''0123456789abcdef'' ! n] else print_hex (n div 16) @ [''0123456789abcdef'' ! (n mod 16)])"

declare print_hex.simps [simp del]

text \<open>\<^verbatim>\<open>%0<w>d\<close> and \<^verbatim>\<open>%0<w>x\<close>: zeros after the sign up to the width.\<close>

definition fmt_0d :: "nat \<Rightarrow> int \<Rightarrow> string" where
  "fmt_0d w v = (let ds = print_nat (nat \<bar>v\<bar>) in
     if v < 0 then CHR ''-'' # replicate (w - 1 - length ds) (CHR ''0'') @ ds else replicate (w - length ds) (CHR ''0'') @ ds)"

definition fmt_0x :: "nat \<Rightarrow> nat \<Rightarrow> string" where
  "fmt_0x w n = (let ds = print_hex n in replicate (w - length ds) (CHR ''0'') @ ds)"

section \<open>Lists\<close>

definition print_list_fp :: "addr_t list \<Rightarrow> int \<times> string" where
  "print_list_fp fps =
     (if fps = [] then (-1, ''print_list_fp: '' @ ''NULL list'' @ [CHR 0x0A])
      else (0, ''print_list_fp: '' @ [CHR 0x0A] @ concat (map (\<lambda>fp. ''fp['' @ fmt_ld fp @ '']'' @ [CHR 0x0A]) fps) @ [CHR 0x0A]))"

definition print_list_rg :: "vm_rg_struct list \<Rightarrow> int \<times> string" where
  "print_list_rg rgs =
     (if rgs = [] then (-1, ''print_list_rg: '' @ ''NULL list'' @ [CHR 0x0A])
      else (0, ''print_list_rg: '' @ [CHR 0x0A] @
        concat (map (\<lambda>rg. ''rg['' @ fmt_ld (rg_start rg) @ ''->'' @ fmt_ld (rg_end rg) @ '']'' @ [CHR 0x0A]) rgs) @ [CHR 0x0A]))"

definition print_list_vma :: "vm_area_struct list \<Rightarrow> int \<times> string" where
  "print_list_vma vmas =
     (if vmas = [] then (-1, ''print_list_vma: '' @ ''NULL list'' @ [CHR 0x0A])
      else (0, ''print_list_vma: '' @ [CHR 0x0A] @
        concat (map (\<lambda>a. ''va['' @ fmt_ld (vm_start a) @ ''->'' @ fmt_ld (vm_end a) @ '']'' @ [CHR 0x0A]) vmas) @ [CHR 0x0A]))"

text \<open>The last character is the letter: the backslash is missing in the source.\<close>

definition print_list_pgn :: "addr_t list \<Rightarrow> int \<times> string" where
  "print_list_pgn pgns =
     (if pgns = [] then (-1, ''print_list_pgn: '' @ ''NULL list'' @ [CHR 0x0A])
      else (0, ''print_list_pgn: '' @ [CHR 0x0A] @ concat (map (\<lambda>n. ''va['' @ fmt_ld n @ '']-'' @ [CHR 0x0A]) pgns) @ ''n''))"

text \<open>
  \<^verbatim>\<open>print_pgtbl\<close> shows where the tables of a process are: \<open>tables\<close> are the pointers \<^verbatim>\<open>pgd\<close>, \<^verbatim>\<open>p4d\<close>, \<^verbatim>\<open>pud\<close> and \<^verbatim>\<open>pmd\<close>, or \<open>None\<close>
  when the kernel structure or its memory map is missing. The bounds of the range are not used.
\<close>

definition print_pgtbl :: "(u64 \<times> u64 \<times> u64 \<times> u64) option \<Rightarrow> addr_t \<Rightarrow> addr_t \<Rightarrow> int \<times> string" where
  "print_pgtbl tables start_addr end_addr = (0, case tables of
     None \<Rightarrow> []
   | Some (g, f, u, m) \<Rightarrow> ''print_pgtbl:'' @ [CHR 0x0A] @ '' PDG='' @ print_hex (unat g) @ '' P4g='' @ print_hex (unat f) @
       '' PUD='' @ print_hex (unat u) @ '' PMD='' @ print_hex (unat m) @ [CHR 0x0A])"

section \<open>System calls\<close>

text \<open>The table of \<^verbatim>\<open>syscall.c\<close>, made from the entries of \<^verbatim>\<open>syscall.tbl\<close>, and what \<^verbatim>\<open>__sys_listsyscall\<close> prints of it.\<close>

definition sys_call_table :: "string list" where
  "sys_call_table = [''0-sys_listsyscall'', ''17-sys_memmap'', ''440-sys_mmstats'']"

definition listsyscall_text :: "int \<times> string" where
  "listsyscall_text = (0, concat (map (\<lambda>l. l @ [CHR 0x0A]) sys_call_table))"

section \<open>The 32-bit mode\<close>

text \<open>The functions of the 32-bit mode report their own name.\<close>

definition deprecated32 :: "string \<Rightarrow> int \<times> string" where
  "deprecated32 func = (0, ''[ERROR] '' @ func @ '': This feature 32 bit mode is deprecated'' @ [CHR 0x0A])"

definition print_list_fp32 :: "u32 list \<Rightarrow> int \<times> string" where
  "print_list_fp32 ifp = deprecated32 ''print_list_fp''"

definition print_list_rg32 :: "(u32 \<times> u32) list \<Rightarrow> int \<times> string" where
  "print_list_rg32 irg = deprecated32 ''print_list_rg''"

definition print_list_vma32 :: "(u32 \<times> u32) list \<Rightarrow> int \<times> string" where
  "print_list_vma32 ivma = deprecated32 ''print_list_vma''"

definition print_list_pgn32 :: "u32 list \<Rightarrow> int \<times> string" where
  "print_list_pgn32 ip = deprecated32 ''print_list_pgn''"

definition print_pgtbl32 :: "u32 \<Rightarrow> u32 \<Rightarrow> int \<times> string" where
  "print_pgtbl32 start_addr end_addr = deprecated32 ''print_pgtbl''"

section \<open>The memory dump\<close>

text \<open>
  A line for a byte that is not zero, printed as an unsigned number after the promotion of a signed character, and
  the lines of a page: a heading, and the bytes from its first to its last but one.
\<close>

definition dump_byte :: "seg_mem \<Rightarrow> nat \<Rightarrow> string" where
  "dump_byte m j = (let b = mem_ram m ! j in
     if b \<noteq> 0 then CHR 0x09 # fmt_0x 5 j @ '': '' @ fmt_0x 2 (unat (scast b :: u32)) @ [CHR 0x0A] else [])"

definition dump_page :: "seg_mem \<Rightarrow> nat \<Rightarrow> string" where
  "dump_page m i = (let e = mem_stat m ! i in
     if ms_proc e \<noteq> 0 then
       fmt_0d 3 (int i) @ '': '' @ fmt_0x 5 (push_bit 10 i) @ ''-'' @ fmt_0x 5 (push_bit 10 (i + 1) - 1) @
       '' - PID: '' @ fmt_0d 2 (sint (ms_proc e)) @ '' (idx '' @ fmt_0d 3 (ms_index e) @ '', nxt: '' @ fmt_0d 3 (ms_next e) @
       '')'' @ [CHR 0x0A] @ concat (map (dump_byte m) [push_bit 10 i ..< push_bit 10 (i + 1) - 1])
     else [])"

definition dump :: "seg_mem \<Rightarrow> string" where
  "dump m = concat (map (dump_page m) [0 ..< 2 ^ 10])"

section \<open>What the text shows\<close>

lemma print_nat_inj: "print_nat m = print_nat n \<Longrightarrow> m = n"
  by (metis digits_val_print)

lemma print_int_chars: "c \<in> set (print_int v) \<Longrightarrow> isdigit c \<or> c = CHR ''-''"
  using print_nat_digits by (auto simp: print_int_def split: if_splits)

lemma print_int_inj: "print_int v = print_int w \<Longrightarrow> v = w"
proof -
  have neg: "print_nat n \<noteq> CHR ''-'' # s" for n s
    using print_nat_digits [of n] by (auto simp: isdigit_def)
  assume "print_int v = print_int w"
  then show "v = w" using neg by (auto simp: print_int_def dest!: print_nat_inj split: if_splits) (metis neg)+
qed

lemma fmt_ld_inj: "fmt_ld a = fmt_ld b \<Longrightarrow> a = b"
  by (metis fmt_ld_def print_int_inj signed_word_eqI)

lemma fmt_ld_chars: "CHR 0x0A \<notin> set (fmt_ld a)" "CHR ''>'' \<notin> set (fmt_ld a)"
  using print_int_chars [of "CHR 0x0A" "sint a"] print_int_chars [of "CHR ''>''" "sint a"] by (auto simp: fmt_ld_def isdigit_def)

lemma up_to_inj:
  assumes "c \<notin> set xs" "c \<notin> set ys" "xs @ c # s = ys @ c # t"
  shows "xs = ys \<and> s = t"
proof -
  have "takeWhile (\<lambda>x. x \<noteq> c) (zs @ c # r) = zs" if "c \<notin> set zs" for zs r
    using that by (intro takeWhile_exact) auto
  then have "xs = ys" using assms by metis
  then show ?thesis using assms(3) by simp
qed

text \<open>Lines that end at their first newline, followed by something that is no such line.\<close>

lemma lines_inj:
  assumes "\<And>x. CHR 0x0A \<notin> set (body x)" "inj body" "\<And>x s. z \<noteq> body x @ CHR 0x0A # s"
    and "concat (map (\<lambda>x. body x @ [CHR 0x0A]) xs) @ z = concat (map (\<lambda>x. body x @ [CHR 0x0A]) ys) @ z"
  shows "xs = ys"
  using assms(4)
proof (induction xs arbitrary: ys)
  case Nil
  then show ?case using assms(3) by (cases ys) auto
next
  case (Cons x xs)
  then obtain y ys' where ys: "ys = y # ys'" using assms(3) by (cases ys) (auto dest: sym)
  have "body x @ CHR 0x0A # (concat (map (\<lambda>x. body x @ [CHR 0x0A]) xs) @ z) =
      body y @ CHR 0x0A # (concat (map (\<lambda>x. body x @ [CHR 0x0A]) ys') @ z)" using Cons.prems ys by simp
  from up_to_inj [OF assms(1) assms(1) this] show ?case
    using Cons.IH [of ys'] injD [OF assms(2)] ys by auto
qed

lemma inj_line1: "inj (\<lambda>a. pre @ fmt_ld a @ post)"
  by (rule injI) (auto dest: fmt_ld_inj)

lemma inj_line2: "inj (\<lambda>r :: vm_rg_struct. pre @ fmt_ld (rg_start r) @ ''->'' @ fmt_ld (rg_end r) @ post)"
proof (rule injI)
  fix r q :: vm_rg_struct
  assume "pre @ fmt_ld (rg_start r) @ ''->'' @ fmt_ld (rg_end r) @ post =
    pre @ fmt_ld (rg_start q) @ ''->'' @ fmt_ld (rg_end q) @ post"
  then have "(fmt_ld (rg_start r) @ ''-'') @ CHR ''>'' # (fmt_ld (rg_end r) @ post) =
    (fmt_ld (rg_start q) @ ''-'') @ CHR ''>'' # (fmt_ld (rg_end q) @ post)" by simp
  from up_to_inj [OF _ _ this] have "fmt_ld (rg_start r) = fmt_ld (rg_start q)" "fmt_ld (rg_end r) = fmt_ld (rg_end q)"
    using fmt_ld_chars by auto
  then show "r = q" by (auto dest!: fmt_ld_inj)
qed

section \<open>Properties\<close>

text \<open>
  The text printed for a list of frames, of regions or of page numbers determines the list.
\<close>

theorem printed_lists_determined: "inj print_list_fp \<and> inj print_list_rg \<and> inj print_list_pgn"
proof -
  note fp = lines_inj [OF _ inj_line1 [of "''fp[''" "'']''"], of "[CHR 0x0A]"]
  note rg = lines_inj [OF _ inj_line2 [of "''rg[''" "'']''"], of "[CHR 0x0A]"]
  note pgn = lines_inj [OF _ inj_line1 [of "''va[''" "'']-''"], of "''n''"]
  have "inj print_list_fp"
    by (rule injI, rule fp) (auto simp: print_list_fp_def fmt_ld_chars split: if_splits)
  moreover have "inj print_list_rg"
    by (rule injI, rule rg) (auto simp: print_list_rg_def fmt_ld_chars split: if_splits)
  moreover have "inj print_list_pgn"
    by (rule injI, rule pgn) (auto simp: print_list_pgn_def fmt_ld_chars split: if_splits)
  ultimately show ?thesis by simp
qed

text \<open>
  C39 (dump_skips_last_byte): the dump never shows the last byte of a page. Whatever the last byte of page \<open>i\<close> holds, the text
  printed is the same, because the loop over a page stops one byte before its end.
\<close>

theorem dump_skips_last_byte:
  "dump (m\<lparr>mem_ram := (mem_ram m)[push_bit 10 i + 1023 := v]\<rparr>) = dump m"
proof -
  have pb: "push_bit 10 n = 1024 * n" for n :: nat by (simp add: push_bit_eq_mult)
  have "dump_byte (m\<lparr>mem_ram := (mem_ram m)[1024 * i + 1023 := v]\<rparr>) j = dump_byte m j"
    if "j \<in> set [1024 * k ..< 1024 * (k + 1) - 1]" for j k
  proof -
    have "j \<noteq> 1024 * i + 1023" using that by auto
    then show ?thesis by (simp add: dump_byte_def)
  qed
  then have "map (dump_byte (m\<lparr>mem_ram := (mem_ram m)[1024 * i + 1023 := v]\<rparr>)) [1024 * k ..< 1024 * (k + 1) - 1] =
      map (dump_byte m) [1024 * k ..< 1024 * (k + 1) - 1]" for k by (intro map_cong) auto
  then have "dump_page (m\<lparr>mem_ram := (mem_ram m)[1024 * i + 1023 := v]\<rparr>) k = dump_page m k" for k
    unfolding dump_page_def Let_def pb by (simp only:) simp
  then have "dump_page (m\<lparr>mem_ram := (mem_ram m)[1024 * i + 1023 := v]\<rparr>) = dump_page m" by (rule ext)
  then show ?thesis unfolding dump_def pb by (simp only:)
qed

end
