(* ===== verification/Driver.thy ===== *)
theory Driver
  imports Print Cpu Loader
begin

text \<open>
  The instructions of \<^verbatim>\<open>src/src/cpu.c\<close> in the configuration without \<^verbatim>\<open>MM_PAGING\<close>, on the segmented memory of \<open>LegacyMem\<close>, and the test program
  \<^verbatim>\<open>src/src/paging.c\<close>, which loads one file twice, runs the two processes in turn and dumps the memory.
\<close>

section \<open>Execution without paging\<close>

text \<open>
  The test program never sets \<^verbatim>\<open>proc->krnl\<close>: a system call that follows it is undefined, the others return 0.
\<close>

definition libsyscall_nokrnl :: "u32 \<Rightarrow> int option" where
  "libsyscall_nokrnl nr = (if nr = 0 then Some sys_listsyscall else if nr = 17 \<or> nr = 440 then None else Some sys_ni_syscall)"

text \<open>\<open>tbl\<close> is the page table the control block points to, \<open>junk\<close> what the local variable of \<^verbatim>\<open>read\<close> holds before it is set.\<close>

definition exec_seg :: "seg_mem \<Rightarrow> page_table_t \<Rightarrow> byte \<Rightarrow> pcb_t \<Rightarrow> inst_t \<Rightarrow> (int \<times> seg_mem \<times> pcb_t) option" where
  "exec_seg m tbl junk c ins = (case opcode ins of
     CALC \<Rightarrow> Some (calc, m, c)
   | ALLOC \<Rightarrow> do { (r, c') \<leftarrow> alloc c (ucast (arg_0 ins)) (ucast (arg_1 ins)); Some (r, m, c') }
   | FREE \<Rightarrow> do { r \<leftarrow> free_data c (ucast (arg_0 ins)); Some (r, m, c) }
   | READ \<Rightarrow> do { (r, c') \<leftarrow> read_seg c tbl junk (ucast (arg_0 ins)) (ucast (arg_1 ins)) (ucast (arg_2 ins)); Some (r, m, c') }
   | WRITE \<Rightarrow> do { (r, m') \<leftarrow> write_seg m c tbl (ucast (arg_0 ins)) (ucast (arg_1 ins)) (ucast (arg_2 ins)); Some (r, m', c) }
   | SYSCALL \<Rightarrow> do { r \<leftarrow> libsyscall_nokrnl (ucast (arg_0 ins)); Some (r, m, c) })"

definition run_seg :: "seg_mem \<Rightarrow> page_table_t \<Rightarrow> byte \<Rightarrow> pcb_t \<Rightarrow> (int \<times> seg_mem \<times> pcb_t) option" where
  "run_seg m tbl junk c =
     (if pc c \<ge> cs_size (code c) then Some (1, m, c)
      else do {
        ins \<leftarrow> fetch c;
        exec_seg m tbl junk (c\<lparr>pc := pc c + 1\<rparr>) ins })"

section \<open>The test program\<close>

text \<open>What a process depends on that the program does not set: the memory of its blocks, of its page table and of local variables.\<close>

record garbage =
  g_insts :: "nat \<Rightarrow> inst_t"
  g_block :: pcb_t
  g_table :: page_table_t
  g_local :: "nat \<Rightarrow> byte"

text \<open>The loop with \<open>n\<close> rounds left. The static arrays of the memory start zeroed, as \<open>init_mem\<close> leaves them.\<close>

fun driver_loop :: "garbage \<Rightarrow> garbage \<Rightarrow> nat \<Rightarrow> seg_mem \<Rightarrow> pcb_t \<Rightarrow> pcb_t \<Rightarrow> (seg_mem \<times> pcb_t \<times> pcb_t) option" where
  "driver_loop gl gp 0 m ld proc = Some (m, ld, proc)"
| "driver_loop gl gp (Suc n) m ld proc = do {
     (_, m1, proc') \<leftarrow> run_seg m (g_table gp) (g_local gp n) proc;
     (_, m2, ld') \<leftarrow> run_seg m1 (g_table gl) (g_local gl n) ld;
     driver_loop gl gp n m2 ld' proc' }"

definition paging_main :: "(string \<Rightarrow> string option) \<Rightarrow> garbage \<Rightarrow> garbage \<Rightarrow> string outcome option" where
  "paging_main files gl gp = do {
     (o1, a1) \<leftarrow> load files (g_insts gl) (g_block gl) 1 ''input/p0'';
     (case o1 of
        Exits e \<Rightarrow> Some (Exits e)
      | Returns ld \<Rightarrow> do {
          (o2, _) \<leftarrow> load files (g_insts gp) (g_block gp) a1 ''input/p0'';
          (case o2 of
             Exits e \<Rightarrow> Some (Exits e)
           | Returns proc \<Rightarrow> do {
               (m, _, _) \<leftarrow> driver_loop gl gp (unat (cs_size (code proc))) init_mem ld proc;
               Some (Returns (dump m)) }) }) }"

section \<open>Programs that stay within the registers\<close>

definition seg_safe :: "inst_t \<Rightarrow> bool" where
  "seg_safe ins = (case opcode ins of
     CALC \<Rightarrow> True | ALLOC \<Rightarrow> True
   | FREE \<Rightarrow> unat (ucast (arg_0 ins) :: u32) < 10
   | READ \<Rightarrow> unat (ucast (arg_0 ins) :: u32) < 10 \<and> unat (ucast (arg_2 ins) :: u32) < 10
   | WRITE \<Rightarrow> unat (ucast (arg_1 ins) :: u32) < 10
   | SYSCALL \<Rightarrow> (ucast (arg_0 ins) :: u32) \<noteq> 17 \<and> (ucast (arg_0 ins) :: u32) \<noteq> 440)"

definition seg_ok :: "pcb_t \<Rightarrow> bool" where
  "seg_ok c \<longleftrightarrow> length (regs c) = 10 \<and> cs_size (code c) = of_nat (length (cs_text (code c))) \<and> length (cs_text (code c)) < 2 ^ 32 \<and>
     list_all seg_safe (cs_text (code c))"

lemma exec_seg_inert:
  assumes "seg_safe ins" "length (regs c) = 10"
  shows "\<exists>r c'. exec_seg m tbl junk c ins = Some (r, m, c') \<and> length (regs c') = 10 \<and> code c' = code c"
  using assms
  by (cases "opcode ins")
    (auto simp: exec_seg_def seg_safe_def alloc_def alloc_mem_def free_data_def read_seg_def read_mem_def write_seg_def
      write_mem_def reg_at_def libsyscall_nokrnl_def)

lemma run_seg_inert:
  assumes "seg_ok c"
  shows "\<exists>r c'. run_seg m tbl junk c = Some (r, m, c') \<and> seg_ok c'"
proof (cases "pc c \<ge> cs_size (code c)")
  case True
  then show ?thesis using assms by (simp add: run_seg_def)
next
  case False
  let ?ins = "cs_text (code c) ! unat (pc c)"
  have "unat (cs_size (code c)) = length (cs_text (code c))"
    using assms unfolding seg_ok_def by (simp only: unat_of_nat) simp
  then have lt: "unat (pc c) < length (cs_text (code c))" using False by (simp add: word_less_nat_alt linorder_not_le)
  then have "seg_safe ?ins" using assms by (simp add: seg_ok_def list_all_length)
  from exec_seg_inert [OF this, of "c\<lparr>pc := pc c + 1\<rparr>" m tbl junk] assms obtain r c' where
    "exec_seg m tbl junk (c\<lparr>pc := pc c + 1\<rparr>) ?ins = Some (r, m, c')" "length (regs c') = 10" "code c' = code c"
    by (auto simp: seg_ok_def)
  then show ?thesis using False lt assms by (auto simp: run_seg_def fetch_def seg_ok_def)
qed

lemma driver_loop_inert:
  "seg_ok ld \<Longrightarrow> seg_ok proc \<Longrightarrow> \<exists>ld' proc'. driver_loop gl gp n m ld proc = Some (m, ld', proc')"
proof (induction n arbitrary: ld proc)
  case (Suc n)
  from run_seg_inert [OF Suc.prems(2), of m "g_table gp" "g_local gp n"] obtain r proc' where
    p: "run_seg m (g_table gp) (g_local gp n) proc = Some (r, m, proc')" "seg_ok proc'" by blast
  from run_seg_inert [OF Suc.prems(1), of m "g_table gl" "g_local gl n"] obtain q ld' where
    l: "run_seg m (g_table gl) (g_local gl n) ld = Some (q, m, ld')" "seg_ok ld'" by blast
  show ?case using Suc.IH [OF l(2) p(2)] p(1) l(1) by simp
qed simp

lemma dump_nothing: "dump init_mem = []"
  by (simp add: dump_def dump_page_def init_mem_def)

lemma load_seg_ok:
  assumes "files p = Some (print_prog pri is)" "length is < 2 ^ 32" "list_all seg_safe is" "length (regs jp) = 10"
  shows "\<exists>c. load files jk jp a p = Some (Returns c, a + 1) \<and> seg_ok c"
proof -
  have fill: "seg_safe (fill j ins) = seg_safe ins" for j ins
    by (cases "opcode ins") (simp_all add: fill_def used_args_def set_args_def seg_safe_def)
  then have "list_all seg_safe (map2 (\<lambda>k ins. fill (jk k) ins) [0..<length is] is)"
    using assms(3) by (auto simp: list_all_iff dest: set_zip_rightD)
  then show ?thesis using load_print [of files p, OF assms(1,2), of jk jp a] assms(2,4) by (simp add: seg_ok_def)
qed



end
