(* ===== verification/Spec2Isabelle.thy ===== *)
theory Spec2Isabelle
  imports OsMain OsProcess OsPolicy SchedRace SchedFifo Layout Driver
begin

text \<open>
  A verification of the simple operating system of this repository: a simulation in which CPU
  threads run processes from a multi-level queue, a loader thread brings in programs according to a
  configuration, a timer thread keeps all of them in the same time slot, and the processes allocate,
  read and write memory through a five-level page table on one shared physical device. The model
  follows the configuration the build selects in \<^verbatim>\<open>os-cfg.h\<close> (\<^verbatim>\<open>MLQ_SCHED\<close>, \<^verbatim>\<open>MM_PAGING\<close>, \<^verbatim>\<open>MM64\<close>,
  \<^verbatim>\<open>MM_FIXED_MEMSZ\<close>); the alternatives of the scheduler, of the memory and of the page table are modelled
  in theories of their own.

  \<^bold>\<open>How the parts interact.\<close> \<^verbatim>\<open>main\<close> (\<^verbatim>\<open>src/src/os.c\<close>) reads the configuration, attaches one timer device
  per thread and starts the threads. \<^verbatim>\<open>ld_routine\<close> waits for the start time of a process, calls \<^verbatim>\<open>load\<close>,
  gives the process its memory map (\<^verbatim>\<open>init_mm\<close>) and hands it to \<^verbatim>\<open>add_proc\<close>. \<^verbatim>\<open>cpu_routine\<close> takes a process
  by \<^verbatim>\<open>get_proc\<close>, runs one instruction per slot by \<^verbatim>\<open>run\<close>, calls \<^verbatim>\<open>next_slot\<close>, and after its time slice
  returns the process by \<^verbatim>\<open>put_proc\<close>, or frees it at its end. \<^verbatim>\<open>run\<close> reaches memory through \<^verbatim>\<open>libmem.c\<close>, which uses the
  areas of \<^verbatim>\<open>mm-vm.c\<close>, the page table of \<^verbatim>\<open>mm64.c\<close> and the device, and calls the kernel through \<^verbatim>\<open>libsyscall\<close>.

  \<^bold>\<open>Conventions\<close> (theory \<open>Prelude\<close>). C integers are words at their width. A function that can run into
  undefined behaviour (an index outside an array, a dangling or null pointer, a read of memory that was
  never written that decides a branch) returns an option and is \<open>None\<close> there; error codes of the
  program are ordinary results. Pointers to processes are numbers, linked lists are lists, and a
  function that changes its arguments returns them changed.

  \<^bold>\<open>Theories, bottom up.\<close>
  \<^item> \<open>Queue\<close>: \<^verbatim>\<open>queue.c\<close>. The array queue computes on a list; contract \<open>bounded_fifo\<close>, interpreted as \<open>pq\<close>.
  \<^item> \<open>Common\<close>: the structures of \<^verbatim>\<open>common.h\<close> and \<^verbatim>\<open>os-mm.h\<close>.
  \<^item> \<open>Sched\<close>: \<^verbatim>\<open>sched.c\<close> with \<^verbatim>\<open>MLQ_SCHED\<close>. Refinement to an abstract multi-level queue, strict priority,
    round robin within a priority, conservation of processes, the loss of a process that meets a full queue; contract \<open>mlq_scheduler\<close>,
    interpreted as \<open>mlq\<close>. \<open>SchedFifo\<close>: the other branch of the same file.
  \<^item> \<open>SchedLocks\<close>, \<open>SchedRace\<close>: the same functions statement by statement, with the two mutexes of \<^verbatim>\<open>sched.c\<close> and an explicit schedule
    of threads. Calls that hold the same mutex behave like the operations of \<open>Sched\<close> one after the other (contract \<open>guarded_calls\<close>,
    interpreted as \<open>guard\<close>); a dispatch and an addition, which hold different ones, can lose a process and dispatch another one twice.
  \<^item> \<open>Bitops\<close>: the masks and fields of \<^verbatim>\<open>bitops.h\<close>, \<^verbatim>\<open>mm.h\<close>, \<^verbatim>\<open>mm64.h\<close>.
  \<^item> \<open>MemPhy\<close>: the device and its accesses as 64-bit entries. \<^verbatim>\<open>mm-memphy.c\<close> is an empty file, so its operations
    are the parameter \<open>memphy_ops\<close> with the hypothesis \<open>memphy_ok\<close>; \<open>Device\<close> holds the instance \<open>list_ops\<close> that
    meets it and the concrete devices of the examples.
  \<^item> \<open>Mm64\<close>, \<open>PageTable\<close>: \<^verbatim>\<open>mm64.c\<close>. The walk, the update of entries, mapping of ranges, swapping; the invariant
    \<open>vm_inv\<close> (the frames of all tables and pages of all processes are different) and that each operation keeps it.
  \<^item> \<open>MmVm\<close>, \<open>LibMem\<close>: \<^verbatim>\<open>mm-vm.c\<close> and \<^verbatim>\<open>libmem.c\<close>. \<open>Region\<close> shows that live regions never overlap (contract
    \<open>region_table\<close>, interpreted as \<open>rt\<close>); \<open>ProcMem\<close> and \<open>MemSafety\<close> show that what a process writes it reads
    back and that no process changes the memory of another (contract \<open>byte_memory\<close>, interpreted as \<open>pm\<close>).
  \<^item> \<open>Syscall\<close>, \<open>SyscallProps\<close>: \<^verbatim>\<open>libstd.c\<close>, \<^verbatim>\<open>syscall.c\<close>, \<^verbatim>\<open>sys_mem.c\<close>, \<^verbatim>\<open>sys_mmstats.c\<close>, \<^verbatim>\<open>sys_listsyscall.c\<close> on the
    state \<open>world\<close> of all processes, the scheduler and the device; every branch of the calls.
  \<^item> \<open>Cpu\<close>, \<open>CpuSafety\<close>: \<^verbatim>\<open>cpu.c\<close>. The static check \<open>safe_inst\<close> on instructions, the invariant \<open>world_inv\<close>, and that
    a checked program runs to its end; what a program that stores and loads computes.
  \<^item> \<open>ProcSpec\<close>: the machine a process sees (\<open>aproc\<close>: registers, program counter, regions, free list, bytes) and what an instruction is meant
    to do to it (\<open>inst_spec\<close>); \<^verbatim>\<open>run\<close> meets this specification through the libraries, the page table and the device.
  \<^item> \<open>Timer\<close>: \<^verbatim>\<open>timer.c\<close> as a relation of steps. Lockstep of the slots, absence of the race on \<^verbatim>\<open>done\<close>, opening
    of the barrier, end of the timer thread.
  \<^item> \<open>Scan\<close>, \<open>Loader\<close>, \<open>Config\<close>: the formatted input the sources use, \<^verbatim>\<open>loader.c\<close>, and \<^verbatim>\<open>read_config\<close> of \<^verbatim>\<open>os.c\<close>. What is
    written in the format is read back; what happens on other inputs.
  \<^item> \<open>Os\<close>, \<open>OsSafety\<close>, \<open>OsTimer\<close>: the threads of \<^verbatim>\<open>os.c\<close> as an interleaving of steps. No undefined behaviour and one
    CPU per process in every interleaving (contract \<open>process_pool\<close>, interpreted as \<open>pool\<close>); every run is a run of the barrier; progress;
    what keeps an idle CPU from ending.
  \<^item> \<open>OsStep\<close>: one rule for every path through the loops of \<^verbatim>\<open>cpu_routine\<close> and \<^verbatim>\<open>ld_routine\<close>, the same relation as the functions of \<open>Os\<close>.
  \<^item> \<open>OsWork\<close>, \<open>OsSlots\<close>, \<open>OsFinish\<close>: the whole workload is executed. \<open>OsWork\<close> counts the instructions that are left and shows that no process is dropped
    while at most \<open>MAX_QUEUE_SIZE\<close> of them exist (contract \<open>roomy_pool\<close>, an extension of \<open>process_pool\<close>, interpreted as \<open>room\<close>), \<open>OsSlots\<close> that between two slots some
    instruction is executed while any is left, and \<open>OsFinish\<close> puts both together (contract \<open>work_rounds\<close>, interpreted as \<open>work\<close>).
  \<^item> \<open>OsProcess\<close>: in every run of the system a process changes only when it executes an instruction, and then as \<open>inst_spec\<close> says, whatever
    the others do.
  \<^item> \<open>OsPolicy\<close>: which process is dispatched, how long it keeps its CPU, and that no frame is ever given back, in every interleaving; each is
    a predicate that all steps keep (contract \<open>steady\<close>, interpreted as \<open>slices\<close>, \<open>prios\<close> and \<open>frames\<close>).
  \<^item> \<open>OsMain\<close>: \<^verbatim>\<open>main\<close> from its arguments and the text of the files to the end of the workload, through all the theories above.
  \<^item> \<open>LegacyMem\<close>: \<^verbatim>\<open>mem.c\<close> and the accesses of \<^verbatim>\<open>cpu.c\<close> without paging. \<open>Mm32\<close>: \<^verbatim>\<open>mm.c\<close>, compiled without \<^verbatim>\<open>MM64\<close>.
    \<open>Layout\<close>: the layout of \<^verbatim>\<open>struct pcb_t\<close> under the two widths of \<^verbatim>\<open>addr_t\<close>. \<open>Print\<close>: the text the functions print that show
    lists, tables and the memory. \<open>Driver\<close>: \<^verbatim>\<open>run\<close> without paging and the test program \<^verbatim>\<open>paging.c\<close> on it.

  \<^bold>\<open>Bounds.\<close> Loops of the code are recursion on their data or on a counter the code bounds, so no function
  of the model runs out of fuel. The bounds in the statements are chosen so that 64-bit addresses do not
  wrap: an allocation, rounded up to pages, takes fewer than \<open>2 ^ 31\<close> bytes, a process executes fewer than \<open>2 ^ 30\<close> instructions, so its area stays
  below \<open>2 ^ 62\<close>. With \<open>n\<close> threads attached, one round of the barrier takes at most \<open>2 * n + 3\<close> steps of the timer,
  some thread moves on within \<open>3 * n + 7\<close>, and the timer ends within \<open>4 * n + 6\<close> once all have detached. With \<open>n\<close> CPUs, a run with \<open>k\<close> ended
  slots takes at most \<open>(k + 1) * (10 * n + 14)\<close> steps; \<open>N\<close> programs of at most \<open>B\<close> instructions, the last of which starts by slot \<open>S\<close>,
  are executed within \<open>S + N * (B + 2) + 3\<close> slots.

  \<^bold>\<open>Not modelled.\<close>
  \<^item> In the theories of \<^verbatim>\<open>os.c\<close> every function of the scheduler and every instruction is one step of the interleaving, as if one mutex
    guarded each. For \<^verbatim>\<open>sched.c\<close> this is what its mutexes are there for and, by \<open>SchedRace\<close>, not what they achieve. The mutex of \<^verbatim>\<open>libmem.c\<close>, which only
    \<^verbatim>\<open>__free\<close> takes, and interleavings inside an instruction are not modelled.
  \<^item> The device \<^verbatim>\<open>mm-memphy.c\<close> and \<^verbatim>\<open>init_memphy\<close>, whose code is not in the repository: a parameter and arguments.
  \<^item> The messages that functions with another purpose print, and \<^verbatim>\<open>finish_scheduler\<close>, which only destroys a lock.
\<close>

end
